theory Spec2Isabelle
  imports Complex_Main
begin

section \<open>Data model of \<^verbatim>\<open>tools/sparse.c\<close>\<close>

text \<open>
  The sparse matrix container and the numeric factorization context. The C structs
  \<^verbatim>\<open>sp_mat\<close> and \<^verbatim>\<open>sp_num\<close> are declared in \<^verbatim>\<open>sparse.h\<close>; their fields are read off
  \<^verbatim>\<open>sp_mat_alloc\<close> and \<^verbatim>\<open>sp_num_alloc\<close>. Field \<^verbatim>\<open>A->Ap\<close> is \<open>mat_Ap A\<close>, field
  \<^verbatim>\<open>N->pinv\<close> is \<open>num_pinv N\<close>, and so on. Every C \<^verbatim>\<open>int\<close> array is an \<open>int list\<close>
  (the code stores \<open>-1\<close> and flipped, negative pointers in them); an array is indexed
  through \<open>nat\<close>. The scalar type is a parameter: \<^verbatim>\<open>double\<close> for \<^verbatim>\<open>sp_ludcmp\<close>,
  \<^verbatim>\<open>double complex\<close> for the \<^verbatim>\<open>_cx\<close> twins, whose code is the same text.
  A null \<^verbatim>\<open>N->q\<close> is \<open>None\<close>.
\<close>

datatype status = SUCCESS | FAILURE

record 'a sp_mat =
  mat_ncols :: nat
  mat_nrows :: nat
  mat_maxnz :: nat
  mat_Ap :: "int list"
  mat_Ai :: "int list"
  mat_Ax :: "'a list"

record 'a sp_num =
  num_n :: nat
  num_L :: "'a sp_mat"
  num_U :: "'a sp_mat"
  num_xi :: "int list list"
  num_topvec :: "int list"
  num_pinv :: "int list"
  num_p :: "int list"
  num_q :: "int list option"
  num_w :: "'a list"
  num_wamd :: "int list"

text \<open>The index range \<^verbatim>\<open>for (p = Bp[j]; p < Bp[j+1]; p++)\<close> of column \<open>j\<close>.\<close>

definition col_range :: "int list \<Rightarrow> nat \<Rightarrow> nat list" where
  "col_range Bp j = [nat (Bp ! j) ..< nat (Bp ! (j + 1))]"

section \<open>Pattern union builder: \<^verbatim>\<open>get_pattern_A_plus_AT\<close>\<close>

text \<open>\<^verbatim>\<open>for (i=0; i<Ap[n]; i++) w_and_Cp[Ai[i]]++;\<close>\<close>

definition count_rows :: "int list \<Rightarrow> int list \<Rightarrow> nat \<Rightarrow> int list \<Rightarrow> int list" where
  "count_rows Bp Bi n w =
     fold (\<lambda>i w. w[nat (Bi ! i) := w ! nat (Bi ! i) + 1]) [0 ..< nat (Bp ! n)] w"

text \<open>\<^verbatim>\<open>Tp[j] = nz; nz += w_and_Cp[j]; w_and_Cp[j] = Tp[j];\<close> and, after the loop,
  \<^verbatim>\<open>Tp[n] = nz\<close>.\<close>

definition cumsum_step :: "nat \<Rightarrow> int list \<times> int list \<times> int \<Rightarrow> int list \<times> int list \<times> int" where
  "cumsum_step j s = (case s of (Tp, w, nz) \<Rightarrow> (Tp[j := nz], w[j := nz], nz + w ! j))"

definition cumsum :: "nat \<Rightarrow> int list \<Rightarrow> int list \<Rightarrow> int list \<times> int list" where
  "cumsum n Tp w = (case fold cumsum_step [0 ..< n] (Tp, w, 0) of
       (Tp', w', nz) \<Rightarrow> (Tp'[n := nz], w'))"

text \<open>\<^verbatim>\<open>q = w_and_Cp[Ai[i]]; Ti[q] = j; w_and_Cp[Ai[i]]++;\<close> for every entry \<open>i\<close> of
  every column \<open>j\<close>.\<close>

definition scatter_entry :: "int list \<Rightarrow> nat \<Rightarrow> nat \<Rightarrow> int list \<times> int list \<Rightarrow> int list \<times> int list" where
  "scatter_entry Bi j i s = (case s of (Ti, w) \<Rightarrow>
       (let q = w ! nat (Bi ! i)
        in (Ti[nat q := int j], w[nat (Bi ! i) := w ! nat (Bi ! i) + 1])))"

definition scatter :: "int list \<Rightarrow> int list \<Rightarrow> nat \<Rightarrow> int list \<Rightarrow> int list \<Rightarrow> int list \<times> int list" where
  "scatter Bp Bi n Ti w =
     fold (\<lambda>j s. fold (scatter_entry Bi j) (col_range Bp j) s) [0 ..< n] (Ti, w)"

text \<open>The \<^verbatim>\<open>while\<close> loop that merges column \<open>j\<close> of \<open>A\<close> with column \<open>j\<close> of the
  transpose; it returns the two cursors, the output array and the output count.\<close>

function merge_while :: "int list \<Rightarrow> int list \<Rightarrow> nat \<Rightarrow> nat \<Rightarrow> nat \<Rightarrow> nat \<Rightarrow> int list \<Rightarrow> nat
    \<Rightarrow> nat \<times> nat \<times> int list \<times> nat" where
  "merge_while Bi Ti colAptr colAend colTptr colTend Ci nz =
     (if colAptr < colAend \<and> colTptr < colTend then
        (if Bi ! colAptr < Ti ! colTptr then
           merge_while Bi Ti (colAptr + 1) colAend colTptr colTend (Ci[nz := Bi ! colAptr]) (nz + 1)
         else if Ti ! colTptr < Bi ! colAptr then
           merge_while Bi Ti colAptr colAend (colTptr + 1) colTend (Ci[nz := Ti ! colTptr]) (nz + 1)
         else
           merge_while Bi Ti (colAptr + 1) colAend (colTptr + 1) colTend (Ci[nz := Bi ! colAptr]) (nz + 1))
      else (colAptr, colTptr, Ci, nz))"
  by pat_completeness auto
termination
  by (relation "measure (\<lambda>(Bi, Ti, a, ae, t, te, Ci, nz). (ae - a) + (te - t))") auto

text \<open>\<^verbatim>\<open>for( ; ptr<end; ptr++){ Ci_loc[nz] = Xi[ptr]; nz++; }\<close>\<close>

definition copy_rest :: "int list \<Rightarrow> nat \<Rightarrow> nat \<Rightarrow> int list \<times> nat \<Rightarrow> int list \<times> nat" where
  "copy_rest Xi ptr pend s = fold (\<lambda>p (Ci, nz). (Ci[nz := Xi ! p], nz + 1)) [ptr ..< pend] s"

definition merge_col :: "int list \<Rightarrow> int list \<Rightarrow> int list \<Rightarrow> int list \<Rightarrow> nat
    \<Rightarrow> int list \<times> int list \<times> nat \<Rightarrow> int list \<times> int list \<times> nat" where
  "merge_col Bp Bi Tp Ti j s = (case s of (Cp, Ci, nz) \<Rightarrow>
     (case merge_while Bi Ti (nat (Bp ! j)) (nat (Bp ! (j + 1))) (nat (Tp ! j)) (nat (Tp ! (j + 1))) Ci nz of
        (colAptr, colTptr, Ci1, nz1) \<Rightarrow>
          (case copy_rest Bi colAptr (nat (Bp ! (j + 1))) (Ci1, nz1) of (Ci2, nz2) \<Rightarrow>
            (case copy_rest Ti colTptr (nat (Tp ! (j + 1))) (Ci2, nz2) of (Ci3, nz3) \<Rightarrow>
               (Cp[j + 1 := int nz3], Ci3, nz3)))))"

text \<open>
  The whole builder, on the arrays \<^verbatim>\<open>Ap\<close>, \<^verbatim>\<open>Ai\<close> (here \<open>Bp\<close>, \<open>Bi\<close>) and the dimension
  \<open>n\<close>. It returns \<^verbatim>\<open>(*Cp, *Ci)\<close>. \<^verbatim>\<open>w_and_Cp\<close> is \<^verbatim>\<open>calloc\<close>ed; \<^verbatim>\<open>Tp\<close>, \<^verbatim>\<open>Ti\<close> and
  \<^verbatim>\<open>Ci_loc\<close> are \<^verbatim>\<open>malloc\<close>ed and every slot that is read has been written before, so
  their initial content (zeros here) is immaterial. The allocations are taken to
  succeed; \<^verbatim>\<open>realloc\<close> keeps the first \<open>nz\<close> entries.
\<close>

definition get_pattern_A_plus_AT :: "int list \<Rightarrow> int list \<Rightarrow> nat \<Rightarrow> int list \<times> int list" where
  "get_pattern_A_plus_AT Bp Bi n =
     (let w0 = replicate (n + 1) 0;
          w1 = count_rows Bp Bi n w0;
          (Tp, w2) = cumsum n (replicate (n + 1) 0) w1;
          (Ti, w3) = scatter Bp Bi n (replicate (nat (Bp ! n)) 0) w2;
          Ci_loc = replicate (2 * nat (Bp ! n)) 0;
          (Cp, Ci, nz) = fold (merge_col Bp Bi Tp Ti) [0 ..< n] (w3[0 := 0], Ci_loc, 0)
      in (Cp, take (nz + nz div 5 + 2 * n) (Ci @ replicate (nz + nz div 5 + 2 * n) 0)))"

text \<open>The row indices a column-pointer/row-index pair lists for column \<open>j\<close>.\<close>

definition col_rows :: "int list \<Rightarrow> int list \<Rightarrow> nat \<Rightarrow> int list" where
  "col_rows Bp Bi j = map (\<lambda>p. Bi ! p) (col_range Bp j)"

section \<open>Column grouper: \<^verbatim>\<open>column_grouping\<close> and \<^verbatim>\<open>column_grouping2\<close>\<close>

text \<open>\<^verbatim>\<open>for(i=0;i<neq;i++) filled[i]=0;\<close> and \<^verbatim>\<open>for(i=0;i<neq;i++) col_g[i]=-1;\<close>\<close>

definition reset_filled :: "nat \<Rightarrow> int list \<Rightarrow> int list" where
  "reset_filled neq filled = fold (\<lambda>i f. f[i := 0]) [0 ..< neq] filled"

definition reset_col_g :: "nat \<Rightarrow> int list \<Rightarrow> int list" where
  "reset_col_g neq col_g = fold (\<lambda>i c. c[i := - 1]) [0 ..< neq] col_g"

text \<open>\<^verbatim>\<open>for(i=Ap[c];i<Ap[c+1];i++) filled[Ai[i]] = 1;\<close>\<close>

definition fill_col :: "int list \<Rightarrow> int list \<Rightarrow> nat \<Rightarrow> int list \<Rightarrow> int list" where
  "fill_col Bp Bi c filled = fold (\<lambda>i f. f[nat (Bi ! i) := 1]) (col_range Bp c) filled"

text \<open>The conflict test with its \<^verbatim>\<open>break\<close>: \<open>hit\<close> is \<^verbatim>\<open>filled[Ai[i]] == 1\<close> in
  \<^verbatim>\<open>column_grouping\<close> and \<^verbatim>\<open>filled[Ai[i]] != 0\<close> in \<^verbatim>\<open>column_grouping2\<close>.\<close>

fun fitted_loop :: "(int \<Rightarrow> bool) \<Rightarrow> int list \<Rightarrow> int list \<Rightarrow> nat list \<Rightarrow> bool" where
  "fitted_loop hit Bi filled [] = True"
| "fitted_loop hit Bi filled (i # is) =
     (if hit (filled ! nat (Bi ! i)) then False else fitted_loop hit Bi filled is)"

text \<open>Body of the \<^verbatim>\<open>testcol\<close> loop of \<^verbatim>\<open>column_grouping\<close>.\<close>

definition try_col :: "int list \<Rightarrow> int list \<Rightarrow> int \<Rightarrow> nat \<Rightarrow> int list \<times> int list \<Rightarrow> int list \<times> int list" where
  "try_col Bp Bi groupnum testcol s = (case s of (col_g, filled) \<Rightarrow>
     if col_g ! testcol = - 1 then
       (if fitted_loop (\<lambda>v. v = 1) Bi filled (col_range Bp testcol)
        then (col_g[testcol := groupnum], fill_col Bp Bi testcol filled)
        else (col_g, filled))
     else (col_g, filled))"

text \<open>Body of the \<^verbatim>\<open>curcol\<close> loop of \<^verbatim>\<open>column_grouping\<close>.\<close>

definition group_from :: "int list \<Rightarrow> int list \<Rightarrow> nat \<Rightarrow> nat \<Rightarrow> int list \<times> int list \<times> int
    \<Rightarrow> int list \<times> int list \<times> int" where
  "group_from Bp Bi neq curcol s = (case s of (col_g, filled, groupnum) \<Rightarrow>
     if col_g ! curcol = - 1 then
       (case fold (try_col Bp Bi (groupnum + 1)) [curcol + 1 ..< neq]
               (col_g[curcol := groupnum + 1], fill_col Bp Bi curcol (reset_filled neq filled)) of
          (col_g', filled') \<Rightarrow> (col_g', filled', groupnum + 1))
     else (col_g, filled, groupnum))"

text \<open>\<^verbatim>\<open>column_grouping\<close> returns \<^verbatim>\<open>groupnum\<close>; the model returns it with the final
  \<^verbatim>\<open>col_g\<close> and \<^verbatim>\<open>filled\<close>.\<close>

definition column_grouping :: "'a sp_mat \<Rightarrow> int list \<Rightarrow> int list \<Rightarrow> int \<times> int list \<times> int list" where
  "column_grouping G col_g filled =
     (let neq = mat_ncols G
      in case fold (group_from (mat_Ap G) (mat_Ai G) neq) [0 ..< neq]
                (reset_col_g neq col_g, filled, - 1) of
           (col_g', filled', groupnum) \<Rightarrow> (groupnum, col_g', filled'))"

text \<open>Body of the \<^verbatim>\<open>testcol\<close> loop of \<^verbatim>\<open>column_grouping2\<close>; the third component is
  \<^verbatim>\<open>done\<close>.\<close>

definition try_col2 :: "int list \<Rightarrow> int list \<Rightarrow> int \<Rightarrow> nat \<Rightarrow> int list \<times> int list \<times> bool
    \<Rightarrow> int list \<times> int list \<times> bool" where
  "try_col2 Bp Bi groupnum testcol s = (case s of (col_g, filled, dne) \<Rightarrow>
     if col_g ! testcol \<noteq> - 1 then (col_g, filled, dne)
     else if fitted_loop (\<lambda>v. v \<noteq> 0) Bi filled (col_range Bp testcol)
     then (col_g[testcol := groupnum], fill_col Bp Bi testcol filled, False)
     else (col_g, filled, False))"

text \<open>The \<^verbatim>\<open>groupnum\<close> loop of \<^verbatim>\<open>column_grouping2\<close> with its \<^verbatim>\<open>break\<close>; it returns the
  value of \<^verbatim>\<open>groupnum\<close> at the exit.\<close>

function group_loop2 :: "int list \<Rightarrow> int list \<Rightarrow> nat \<Rightarrow> nat \<Rightarrow> int list \<Rightarrow> int list
    \<Rightarrow> nat \<times> int list \<times> int list" where
  "group_loop2 Bp Bi neq groupnum col_g filled =
     (if groupnum < neq then
        (case fold (try_col2 Bp Bi (int groupnum)) [0 ..< neq] (col_g, reset_filled neq filled, True) of
           (col_g', filled', dne) \<Rightarrow>
             if dne then (groupnum, col_g', filled')
             else group_loop2 Bp Bi neq (groupnum + 1) col_g' filled')
      else (groupnum, col_g, filled))"
  by pat_completeness auto
termination
  by (relation "measure (\<lambda>(Bp, Bi, neq, groupnum, col_g, filled). neq - groupnum)") auto

definition column_grouping2 :: "'a sp_mat \<Rightarrow> int list \<Rightarrow> int list \<Rightarrow> int \<times> int list \<times> int list" where
  "column_grouping2 G col_g filled =
     (let neq = mat_ncols G
      in case group_loop2 (mat_Ap G) (mat_Ai G) neq 0 (reset_col_g neq col_g) filled of
           (groupnum, col_g', filled') \<Rightarrow> (int groupnum - 1, col_g', filled'))"

declare group_loop2.simps [simp del] merge_while.simps [simp del]

section \<open>Reachability: \<^verbatim>\<open>reachr\<close> and \<^verbatim>\<open>dfsr\<close>\<close>

text \<open>
  Modelled from the spec: the marking macros \<^verbatim>\<open>SPFLIP\<close>, \<^verbatim>\<open>SPUNFLIP\<close>, \<^verbatim>\<open>SPMARKED\<close> and
  \<^verbatim>\<open>SPMARK\<close> are defined in \<^verbatim>\<open>sparse.h\<close>, which is not among the sources. The spec
  gives the encoding: a column pointer is flipped to \<open>-(value)-2\<close>, a self-inverse
  transform; a column is visited when its pointer is flipped, and it is restored by
  flipping again.
\<close>

definition SPFLIP :: "int \<Rightarrow> int" where
  "SPFLIP i = - i - 2"

definition SPUNFLIP :: "int \<Rightarrow> int" where
  "SPUNFLIP i = (if i < 0 then SPFLIP i else i)"

definition SPMARKED :: "int list \<Rightarrow> int \<Rightarrow> bool" where
  "SPMARKED w j = (w ! nat j < 0)"

definition SPMARK :: "int list \<Rightarrow> int \<Rightarrow> int list" where
  "SPMARK w j = w[nat j := SPFLIP (w ! nat j)]"

text \<open>
  \<^verbatim>\<open>dfsr\<close> recurses on the nodes it has not marked yet. The model bounds the depth of
  the recursion by \<open>fuel\<close>: \<open>None\<close> is "out of fuel", and \<open>Some\<close> carries the arrays
  \<^verbatim>\<open>Gp\<close>, \<^verbatim>\<open>*top\<close> and \<^verbatim>\<open>xik\<close> as the call leaves them. \<open>dfsr_nbrs\<close> is the
  \<^verbatim>\<open>for(p=p1; p<p2; p++)\<close> loop over the neighbours. The C variable \<^verbatim>\<open>top\<close> is \<open>tp\<close>
  here.
\<close>

function dfsr :: "nat \<Rightarrow> int \<Rightarrow> int list \<Rightarrow> int list \<Rightarrow> int list \<Rightarrow> int \<Rightarrow> int list
      \<Rightarrow> (int list \<times> int \<times> int list) option"
  and dfsr_nbrs :: "nat \<Rightarrow> nat list \<Rightarrow> int list \<Rightarrow> int list \<Rightarrow> int list \<Rightarrow> int \<Rightarrow> int list
      \<Rightarrow> (int list \<times> int \<times> int list) option" where
  "dfsr 0 j Gi pinv Gp tp xik = None"
| "dfsr (Suc fuel) j Gi pinv Gp tp xik =
     (let jnew = pinv ! nat j;
          Gp1 = SPMARK Gp j
      in if jnew \<ge> 0 then
           (case dfsr_nbrs fuel [nat (SPUNFLIP (Gp1 ! nat jnew)) ..< nat (SPUNFLIP (Gp1 ! nat (jnew + 1)))]
                   Gi pinv Gp1 tp xik of
              None \<Rightarrow> None
            | Some (Gp2, tp2, xik2) \<Rightarrow> Some (Gp2, tp2 - 1, xik2[nat (tp2 - 1) := j]))
         else Some (Gp1, tp - 1, xik[nat (tp - 1) := j]))"
| "dfsr_nbrs fuel [] Gi pinv Gp tp xik = Some (Gp, tp, xik)"
| "dfsr_nbrs fuel (p # ps) Gi pinv Gp tp xik =
     (let i = Gi ! p
      in if \<not> SPMARKED Gp i then
           (case dfsr fuel i Gi pinv Gp tp xik of
              None \<Rightarrow> None
            | Some (Gp', tp', xik') \<Rightarrow> dfsr_nbrs fuel ps Gi pinv Gp' tp' xik')
         else dfsr_nbrs fuel ps Gi pinv Gp tp xik)"
  by pat_completeness auto
termination
  by (relation "inv_image (less_than <*lex*> less_than)
        (\<lambda>a. case a of Inl (fuel, j, Gi, pinv, Gp, tp, xik) \<Rightarrow> (fuel, 0)
                   | Inr (fuel, ps, Gi, pinv, Gp, tp, xik) \<Rightarrow> (fuel, Suc (length ps)))") auto

text \<open>The first loop of \<^verbatim>\<open>reachr\<close>: a search from every unmarked row of column \<open>k\<close>
  of \<open>B\<close>.\<close>

fun reachr_starts :: "nat \<Rightarrow> nat list \<Rightarrow> int list \<Rightarrow> int list \<Rightarrow> int list \<Rightarrow> int list \<Rightarrow> int \<Rightarrow> int list
      \<Rightarrow> (int list \<times> int \<times> int list) option" where
  "reachr_starts fuel [] Bi Gi pinv Gp tp xik = Some (Gp, tp, xik)"
| "reachr_starts fuel (p # ps) Bi Gi pinv Gp tp xik =
     (if \<not> SPMARKED Gp (Bi ! p) then
        (case dfsr fuel (Bi ! p) Gi pinv Gp tp xik of
           None \<Rightarrow> None
         | Some (Gp', tp', xik') \<Rightarrow> reachr_starts fuel ps Bi Gi pinv Gp' tp' xik')
      else reachr_starts fuel ps Bi Gi pinv Gp tp xik)"

text \<open>\<^verbatim>\<open>reachr\<close> returns \<^verbatim>\<open>top\<close>; the model returns it with \<^verbatim>\<open>Gp\<close> (unmarked again by the
  second loop) and \<^verbatim>\<open>xik\<close>.\<close>

definition reachr :: "nat \<Rightarrow> nat \<Rightarrow> int list \<Rightarrow> int list \<Rightarrow> int list \<Rightarrow> int list \<Rightarrow> nat \<Rightarrow> int list
      \<Rightarrow> int list \<Rightarrow> (int \<times> int list \<times> int list) option" where
  "reachr fuel Gncols Bp Bi Gp Gi k xik pinv =
     (case reachr_starts fuel (col_range Bp k) Bi Gi pinv Gp (int Gncols) xik of
        None \<Rightarrow> None
      | Some (Gp1, tp, xik1) \<Rightarrow>
          Some (tp, fold (\<lambda>p Gp. SPMARK Gp (xik1 ! p)) [nat tp ..< Gncols] Gp1, xik1))"

section \<open>Sparse triangular solve: \<^verbatim>\<open>sp_splsolve\<close>\<close>

text \<open>Body of the \<^verbatim>\<open>px\<close> loop: skip a row that is not pivoted yet, else divide by the
  diagonal and subtract the column's contribution.\<close>

definition splsolve_col :: "('a::{minus,times,inverse}) sp_mat \<Rightarrow> int list \<Rightarrow> int list \<Rightarrow> nat \<Rightarrow> 'a list \<Rightarrow> 'a list" where
  "splsolve_col G xik pinv px x =
     (let j = xik ! px;
          J = pinv ! nat j
      in if J < 0 then x
         else
           (let x1 = x[nat j := x ! nat j / mat_Ax G ! nat (mat_Ap G ! nat J)]
            in fold (\<lambda>p x. x[nat (mat_Ai G ! p) := x ! nat (mat_Ai G ! p) - mat_Ax G ! p * x ! nat j])
                 [nat (mat_Ap G ! nat J + 1) ..< nat (mat_Ap G ! nat (J + 1))] x1))"

definition sp_splsolve :: "('a::{zero,minus,times,inverse}) sp_mat \<Rightarrow> 'a sp_mat \<Rightarrow> nat \<Rightarrow> int list \<Rightarrow> int
      \<Rightarrow> 'a list \<Rightarrow> int list \<Rightarrow> 'a list" where
  "sp_splsolve G B k xik tp x pinv =
     (let n = mat_ncols G;
          x1 = fold (\<lambda>p x. x[nat (xik ! p) := 0]) [nat tp ..< n] x;
          x2 = fold (\<lambda>p x. x[nat (mat_Ai B ! p) := mat_Ax B ! p]) (col_range (mat_Ap B) k) x1
      in fold (splsolve_col G xik pinv) [nat tp ..< n] x2)"

section \<open>LU factorization: \<^verbatim>\<open>sp_ludcmp\<close>\<close>

text \<open>\<^verbatim>\<open>col = q ? (q[k]) : k\<close>\<close>

definition lu_col :: "int list option \<Rightarrow> nat \<Rightarrow> int" where
  "lu_col q k = (case q of None \<Rightarrow> int k | Some qv \<Rightarrow> qv ! k)"

text \<open>
  The first part of step \<open>k\<close> (\<^verbatim>\<open>Lp[k] = lnz\<close> up to the call of \<^verbatim>\<open>sp_splsolve\<close>): it
  returns the context with \<^verbatim>\<open>Lp\<close>, \<^verbatim>\<open>Up\<close>, \<^verbatim>\<open>xi[k]\<close>, \<^verbatim>\<open>topvec[k]\<close> and \<^verbatim>\<open>x\<close> updated,
  and \<^verbatim>\<open>top\<close>.
\<close>

definition ludcmp_solve :: "nat \<Rightarrow> nat \<Rightarrow> ('a::{zero,minus,times,inverse}) sp_mat \<Rightarrow> 'a sp_num \<Rightarrow> nat \<Rightarrow> nat
      \<Rightarrow> ('a sp_num \<times> int) option" where
  "ludcmp_solve fuel k A N lnz unz =
     (let Lp = (mat_Ap (num_L N))[k := int lnz];
          Up = (mat_Ap (num_U N))[k := int unz];
          col = lu_col (num_q N) k
      in case reachr fuel (mat_ncols (num_L N)) (mat_Ap A) (mat_Ai A) Lp (mat_Ai (num_L N)) (nat col)
                (num_xi N ! k) (num_pinv N) of
           None \<Rightarrow> None
         | Some (tp, Lp', xik) \<Rightarrow>
             (let L' = (num_L N)\<lparr>mat_Ap := Lp'\<rparr>;
                  x = sp_splsolve L' A (nat col) xik tp (num_w N) (num_pinv N)
              in Some (N\<lparr>num_L := L', num_U := (num_U N)\<lparr>mat_Ap := Up\<rparr>,
                        num_xi := (num_xi N)[k := xik], num_topvec := (num_topvec N)[k := tp],
                        num_w := x\<rparr>, tp)))"

text \<open>The pivot search (\<^verbatim>\<open>ipiv = -1; a = -1; for(p=top; p<n; p++) ...\<close>): a row that
  is not pivoted yet competes for the pivot, a pivoted row goes to \<open>U\<close>.\<close>

definition find_pivot_step :: "int list \<Rightarrow> int list \<Rightarrow> ('a::{abs,ord}) list \<Rightarrow> nat
      \<Rightarrow> int \<times> 'a \<times> int list \<times> 'a list \<times> nat \<Rightarrow> int \<times> 'a \<times> int list \<times> 'a list \<times> nat" where
  "find_pivot_step xik pinv x p s = (case s of (ipiv, a, Ui, Ux, unz) \<Rightarrow>
     (let i = xik ! p
      in if pinv ! nat i < 0 then
           (let t = \<bar>x ! nat i\<bar> in if t > a then (i, t, Ui, Ux, unz) else (ipiv, a, Ui, Ux, unz))
         else (ipiv, a, Ui[unz := pinv ! nat i], Ux[unz := x ! nat i], unz + 1)))"

definition find_pivot :: "nat \<Rightarrow> int \<Rightarrow> int list \<Rightarrow> int list \<Rightarrow> ('a::{one,uminus,abs,ord}) list
      \<Rightarrow> int list \<Rightarrow> 'a list \<Rightarrow> nat \<Rightarrow> int \<times> 'a \<times> int list \<times> 'a list \<times> nat" where
  "find_pivot n tp xik pinv x Ui Ux unz =
     fold (find_pivot_step xik pinv x) [nat tp ..< n] (- 1, - 1, Ui, Ux, unz)"

text \<open>The loop that stores the rows below the pivot into \<open>L\<close> and clears \<open>x\<close>.\<close>

definition store_L_step :: "int list \<Rightarrow> int list \<Rightarrow> ('a::{zero,inverse}) \<Rightarrow> nat
      \<Rightarrow> int list \<times> 'a list \<times> nat \<times> 'a list \<Rightarrow> int list \<times> 'a list \<times> nat \<times> 'a list" where
  "store_L_step xik pinv pivot p s = (case s of (Li, Lx, lnz, x) \<Rightarrow>
     (let i = xik ! p
      in if pinv ! nat i < 0 then (Li[lnz := i], Lx[lnz := x ! nat i / pivot], lnz + 1, x[nat i := 0])
         else (Li, Lx, lnz, x[nat i := 0])))"

text \<open>\<^verbatim>\<open>if ((pinv[col]<0) && (fabs(x[col])>=a*pivtol)) ipiv = col;\<close>\<close>

definition choose_pivot :: "int list \<Rightarrow> ('a::{times,abs,ord}) list \<Rightarrow> int \<Rightarrow> 'a \<Rightarrow> 'a \<Rightarrow> int \<Rightarrow> int" where
  "choose_pivot pinv x col a pivtol ipiv0 =
     (if pinv ! nat col < 0 \<and> \<bar>x ! nat col\<bar> \<ge> a * pivtol then col else ipiv0)"

text \<open>
  One pass of the \<open>k\<close> loop. It returns \<open>FAILURE\<close> with the context as the
  \<^verbatim>\<open>return _FAILURE_\<close> leaves it, or \<open>SUCCESS\<close> with the context and the counters
  \<^verbatim>\<open>lnz\<close>, \<^verbatim>\<open>unz\<close> after the pass.
\<close>

definition ludcmp_step :: "nat \<Rightarrow> nat \<Rightarrow> nat \<Rightarrow> ('a::{zero,one,uminus,minus,times,inverse,abs,ord}) sp_mat \<Rightarrow> 'a
      \<Rightarrow> 'a sp_num \<Rightarrow> nat \<Rightarrow> nat \<Rightarrow> (status \<times> 'a sp_num \<times> nat \<times> nat) option" where
  "ludcmp_step fuel n k A pivtol N lnz unz =
     (case ludcmp_solve fuel k A N lnz unz of
        None \<Rightarrow> None
      | Some (N1, tp) \<Rightarrow>
          (let xik = num_xi N1 ! k;
               x = num_w N1;
               pinv = num_pinv N1;
               col = lu_col (num_q N1) k
           in case find_pivot n tp xik pinv x (mat_Ai (num_U N1)) (mat_Ax (num_U N1)) unz of
                (ipiv0, a, Ui, Ux, unz1) \<Rightarrow>
                  if ipiv0 = - 1 \<or> a \<le> 0 then
                    Some (FAILURE, N1\<lparr>num_U := (num_U N1)\<lparr>mat_Ai := Ui, mat_Ax := Ux\<rparr>\<rparr>, lnz, unz1)
                  else
                    (let ipiv = choose_pivot pinv x col a pivtol ipiv0;
                         pivot = x ! nat ipiv;
                         Ui1 = Ui[unz1 := int k];
                         Ux1 = Ux[unz1 := pivot];
                         pinv1 = pinv[nat ipiv := int k];
                         pvec1 = (num_p N1)[k := ipiv];
                         Li1 = (mat_Ai (num_L N1))[lnz := ipiv];
                         Lx1 = (mat_Ax (num_L N1))[lnz := 1]
                     in case fold (store_L_step xik pinv1 pivot) [nat tp ..< n] (Li1, Lx1, lnz + 1, x) of
                          (Li2, Lx2, lnz2, x2) \<Rightarrow>
                            Some (SUCCESS,
                                  N1\<lparr>num_L := (num_L N1)\<lparr>mat_Ai := Li2, mat_Ax := Lx2\<rparr>,
                                     num_U := (num_U N1)\<lparr>mat_Ai := Ui1, mat_Ax := Ux1\<rparr>,
                                     num_pinv := pinv1, num_p := pvec1, num_w := x2\<rparr>,
                                  lnz2, unz1 + 1))))"

text \<open>The \<open>k\<close> loop, left at the first failing pass.\<close>

fun ludcmp_loop :: "nat \<Rightarrow> nat \<Rightarrow> nat list \<Rightarrow> ('a::{zero,one,uminus,minus,times,inverse,abs,ord}) sp_mat \<Rightarrow> 'a
      \<Rightarrow> 'a sp_num \<Rightarrow> nat \<Rightarrow> nat \<Rightarrow> (status \<times> 'a sp_num \<times> nat \<times> nat) option" where
  "ludcmp_loop fuel n [] A pivtol N lnz unz = Some (SUCCESS, N, lnz, unz)"
| "ludcmp_loop fuel n (k # ks) A pivtol N lnz unz =
     (case ludcmp_step fuel n k A pivtol N lnz unz of
        None \<Rightarrow> None
      | Some (FAILURE, N', lnz', unz') \<Rightarrow> Some (FAILURE, N', lnz', unz')
      | Some (SUCCESS, N', lnz', unz') \<Rightarrow> ludcmp_loop fuel n ks A pivtol N' lnz' unz')"

text \<open>The three initialising loops and the closing pass that renumbers the rows of
  \<open>L\<close>.\<close>

definition ludcmp_init :: "nat \<Rightarrow> ('a::zero) sp_num \<Rightarrow> 'a sp_num" where
  "ludcmp_init n N =
     N\<lparr>num_w := fold (\<lambda>i x. x[i := 0]) [0 ..< n] (num_w N),
       num_pinv := fold (\<lambda>i pinv. pinv[i := - 1]) [0 ..< n] (num_pinv N),
       num_L := (num_L N)\<lparr>mat_Ap := fold (\<lambda>k Lp. Lp[k := 0]) [0 ..< n + 1] (mat_Ap (num_L N))\<rparr>\<rparr>"

definition ludcmp_finalize :: "nat \<Rightarrow> 'a sp_num \<Rightarrow> nat \<Rightarrow> nat \<Rightarrow> 'a sp_num" where
  "ludcmp_finalize n N lnz unz =
     N\<lparr>num_L := (num_L N)\<lparr>mat_Ap := (mat_Ap (num_L N))[n := int lnz],
                           mat_Ai := fold (\<lambda>p Li. Li[p := num_pinv N ! nat (Li ! p)]) [0 ..< lnz]
                                       (mat_Ai (num_L N))\<rparr>,
       num_U := (num_U N)\<lparr>mat_Ap := (mat_Ap (num_U N))[n := int unz]\<rparr>\<rparr>"

text \<open>
  \<^verbatim>\<open>sp_ludcmp(N, A, pivtol)\<close>: the status and the context as the call leaves it.
  \<open>fuel\<close> bounds the depth of each depth-first search; the result is \<open>None\<close> only when a
  search runs out of it.
\<close>

definition sp_ludcmp :: "nat \<Rightarrow> ('a::{zero,one,uminus,minus,times,inverse,abs,ord}) sp_num \<Rightarrow> 'a sp_mat \<Rightarrow> 'a
      \<Rightarrow> (status \<times> 'a sp_num) option" where
  "sp_ludcmp fuel N A pivtol =
     (let n = mat_ncols A
      in case ludcmp_loop fuel n [0 ..< n] A pivtol (ludcmp_init n N) 0 0 of
           None \<Rightarrow> None
         | Some (FAILURE, N', lnz, unz) \<Rightarrow> Some (FAILURE, N')
         | Some (SUCCESS, N', lnz, unz) \<Rightarrow> Some (SUCCESS, ludcmp_finalize n N' lnz unz))"

section \<open>Refactorization: \<^verbatim>\<open>sp_refactor\<close>\<close>




section \<open>The scalar type: \<^verbatim>\<open>double\<close>\<close>

text \<open>
  The functions of the factorization are written for any scalar type that has the
  operations the C text uses (\<open>0\<close>, \<open>1\<close>, \<open>-\<close>, \<open>*\<close>, \<open>/\<close>, \<^verbatim>\<open>fabs\<close>, \<open><\<close>, \<open>\<le>\<close>), and the
  theorems about them assume of these operations only what they state. \<open>dbl\<close> is the
  type the C text computes on: IEEE 754 binary64 with the default rounding (to nearest,
  ties to even), where every operation rounds its exact result once (no fused
  multiply-add, no wider intermediate format). In HOL's fields \<open>x / 0 = 0\<close> and every
  value is comparable; in \<open>dbl\<close> a division by zero gives an infinity or a NaN, and a
  comparison with a NaN is false.

  \<open>Fin s m\<close> is the finite number of sign \<open>s\<close> (\<open>True\<close> is negative) and magnitude \<open>|m|\<close>,
  so \<open>Fin True 0\<close> is \<open>-0\<close>; \<open>Inf s\<close> is the infinity of sign \<open>s\<close>.
\<close>

datatype dbl = Fin bool rat | Inf bool | NaN

text \<open>\<open>2\<^sup>k\<close>, the number of binary digits of a positive integer, and \<open>\<lfloor>log\<^sub>2 m\<rfloor>\<close> for
  a rational \<open>m > 0\<close>: with \<open>m = p / q\<close> and \<open>d\<close> the difference of the digit counts of \<open>p\<close>
  and \<open>q\<close>, \<open>2\<^sup>d\<^sup>-\<^sup>1 < m < 2\<^sup>d\<^sup>+\<^sup>1\<close>.\<close>

definition pow2 :: "int \<Rightarrow> rat" where
  "pow2 k = (if 0 \<le> k then 2 ^ nat k else 1 / 2 ^ nat (- k))"

function bit_len :: "int \<Rightarrow> int" where
  "bit_len p = (if p \<le> 0 then 0 else 1 + bit_len (p div 2))"
  by pat_completeness auto
termination
  by (relation "measure nat") auto

definition ilog2 :: "rat \<Rightarrow> int" where
  "ilog2 m = (case quotient_of m of (p, q) \<Rightarrow>
     (let d = bit_len p - bit_len q
      in if pow2 d \<le> m then d else d - 1))"

text \<open>The integer nearest to \<open>x\<close>, the even one of the two when \<open>x\<close> lies halfway.\<close>

definition round_even :: "rat \<Rightarrow> int" where
  "round_even x =
     (let f = \<lfloor>x\<rfloor>; d = x - of_int f
      in if d < 1 / 2 then f else if 1 / 2 < d then f + 1 else if even f then f else f + 1)"

text \<open>
  Rounding of the exact magnitude \<open>m \<ge> 0\<close> of a result of sign \<open>s\<close>. A binary64 number
  with exponent \<open>e\<close> (\<open>2\<^sup>e \<le> m < 2\<^sup>e\<^sup>+\<^sup>1\<close>, and \<open>e = -1022\<close> for the subnormal numbers) is
  \<open>n * 2\<^sup>e\<^sup>-\<^sup>5\<^sup>2\<close> with an integer \<open>n \<le> 2\<^sup>5\<^sup>3\<close>; the largest exponent is 1023. A result of
  exponent 1024 or more, or one of exponent 1023 that rounds up to \<open>2\<^sup>5\<^sup>3 * 2\<^sup>9\<^sup>7\<^sup>1 = 2\<^sup>1\<^sup>0\<^sup>2\<^sup>4\<close>,
  overflows to the infinity.
\<close>

definition round_mag :: "bool \<Rightarrow> rat \<Rightarrow> dbl" where
  "round_mag s m =
     (if m = 0 then Fin s 0
      else
        (let e = max (ilog2 m) (- 1022)
         in if 1024 \<le> e then Inf s
            else
              (let u = pow2 (e - 52);
                   n = round_even (m / u)
               in if e = 1023 \<and> 9007199254740992 \<le> n then Inf s else Fin s (of_int n * u))))"

text \<open>The value of a finite number.\<close>

definition signed :: "bool \<Rightarrow> rat \<Rightarrow> rat" where
  "signed s m = (if s then - \<bar>m\<bar> else \<bar>m\<bar>)"

fun dbl_neg :: "dbl \<Rightarrow> dbl" where
  "dbl_neg (Fin s a) = Fin (\<not> s) a"
| "dbl_neg (Inf s) = Inf (\<not> s)"
| "dbl_neg NaN = NaN"

text \<open>\<^verbatim>\<open>fabs\<close>\<close>

fun dbl_abs :: "dbl \<Rightarrow> dbl" where
  "dbl_abs (Fin s a) = Fin False a"
| "dbl_abs (Inf s) = Inf False"
| "dbl_abs NaN = NaN"

text \<open>An exact sum that is zero is \<open>+0\<close>, except that \<open>(-0) + (-0) = -0\<close>.\<close>

fun dbl_add :: "dbl \<Rightarrow> dbl \<Rightarrow> dbl" where
  "dbl_add (Fin s a) (Fin t b) =
     (let v = signed s a + signed t b
      in if v = 0 then Fin (s \<and> t) 0 else round_mag (v < 0) \<bar>v\<bar>)"
| "dbl_add (Fin s a) (Inf t) = Inf t"
| "dbl_add (Inf s) (Fin t b) = Inf s"
| "dbl_add (Inf s) (Inf t) = (if s = t then Inf s else NaN)"
| "dbl_add NaN y = NaN"
| "dbl_add (Fin s a) NaN = NaN"
| "dbl_add (Inf s) NaN = NaN"

definition dbl_sub :: "dbl \<Rightarrow> dbl \<Rightarrow> dbl" where
  "dbl_sub x y = dbl_add x (dbl_neg y)"

fun dbl_mul :: "dbl \<Rightarrow> dbl \<Rightarrow> dbl" where
  "dbl_mul (Fin s a) (Fin t b) = round_mag (s \<noteq> t) (\<bar>a\<bar> * \<bar>b\<bar>)"
| "dbl_mul (Fin s a) (Inf t) = (if a = 0 then NaN else Inf (s \<noteq> t))"
| "dbl_mul (Inf s) (Fin t b) = (if b = 0 then NaN else Inf (s \<noteq> t))"
| "dbl_mul (Inf s) (Inf t) = Inf (s \<noteq> t)"
| "dbl_mul NaN y = NaN"
| "dbl_mul (Fin s a) NaN = NaN"
| "dbl_mul (Inf s) NaN = NaN"

fun dbl_div :: "dbl \<Rightarrow> dbl \<Rightarrow> dbl" where
  "dbl_div (Fin s a) (Fin t b) =
     (if b = 0 then (if a = 0 then NaN else Inf (s \<noteq> t)) else round_mag (s \<noteq> t) (\<bar>a\<bar> / \<bar>b\<bar>))"
| "dbl_div (Fin s a) (Inf t) = Fin (s \<noteq> t) 0"
| "dbl_div (Inf s) (Fin t b) = Inf (s \<noteq> t)"
| "dbl_div (Inf s) (Inf t) = NaN"
| "dbl_div NaN y = NaN"
| "dbl_div (Fin s a) NaN = NaN"
| "dbl_div (Inf s) NaN = NaN"

text \<open>The comparisons \<open><\<close> and \<open>\<le>\<close>: false when an operand is a NaN; \<open>-0\<close> and \<open>+0\<close>
  compare equal.\<close>

fun dbl_less :: "dbl \<Rightarrow> dbl \<Rightarrow> bool" where
  "dbl_less (Fin s a) (Fin t b) = (signed s a < signed t b)"
| "dbl_less (Fin s a) (Inf t) = (\<not> t)"
| "dbl_less (Inf s) (Fin t b) = s"
| "dbl_less (Inf s) (Inf t) = (s \<and> \<not> t)"
| "dbl_less NaN y = False"
| "dbl_less (Fin s a) NaN = False"
| "dbl_less (Inf s) NaN = False"

fun dbl_less_eq :: "dbl \<Rightarrow> dbl \<Rightarrow> bool" where
  "dbl_less_eq (Fin s a) (Fin t b) = (signed s a \<le> signed t b)"
| "dbl_less_eq (Fin s a) (Inf t) = (\<not> t)"
| "dbl_less_eq (Inf s) (Fin t b) = s"
| "dbl_less_eq (Inf s) (Inf t) = (s \<or> \<not> t)"
| "dbl_less_eq NaN y = False"
| "dbl_less_eq (Fin s a) NaN = False"
| "dbl_less_eq (Inf s) NaN = False"


instantiation dbl :: "{zero,one,uminus,minus,times,inverse,abs,ord}"
begin

definition zero_dbl :: dbl where "zero_dbl = Fin False 0"
definition one_dbl :: dbl where "one_dbl = Fin False 1"
definition uminus_dbl :: "dbl \<Rightarrow> dbl" where "uminus_dbl = dbl_neg"
definition minus_dbl :: "dbl \<Rightarrow> dbl \<Rightarrow> dbl" where "minus_dbl = dbl_sub"
definition times_dbl :: "dbl \<Rightarrow> dbl \<Rightarrow> dbl" where "times_dbl = dbl_mul"
definition divide_dbl :: "dbl \<Rightarrow> dbl \<Rightarrow> dbl" where "divide_dbl = dbl_div"
definition inverse_dbl :: "dbl \<Rightarrow> dbl" where "inverse_dbl = dbl_div (Fin False 1)"
definition abs_dbl :: "dbl \<Rightarrow> dbl" where "abs_dbl = dbl_abs"
definition less_dbl :: "dbl \<Rightarrow> dbl \<Rightarrow> bool" where "less_dbl = dbl_less"
definition less_eq_dbl :: "dbl \<Rightarrow> dbl \<Rightarrow> bool" where "less_eq_dbl = dbl_less_eq"

instance ..

end

declare bit_len.simps [simp del]

text \<open>The decimal literal \<open>p / q\<close> as the compiler reads it: the nearest \<open>dbl\<close>.\<close>

definition dbl_of_rat :: "rat \<Rightarrow> dbl" where
  "dbl_of_rat v = round_mag (v < 0) \<bar>v\<bar>"

section \<open>What the theorems assume of the scalar arithmetic\<close>

text \<open>
  Of the comparisons: \<open><\<close> is irreflexive and transitive; a value \<open>x\<close> with \<open>x \<le> x\<close> is
  comparable (in \<open>dbl\<close>: it is not a NaN), a comparable \<open>x\<close> that is not below \<open>z\<close> is
  above everything below \<open>z\<close>, \<open>x \<le> y\<close> says that both are comparable and \<open>y\<close> is not
  below \<open>x\<close>, and the operands of a true \<open><\<close> are comparable; and \<open>-1 < 0\<close>. This holds in
  every linearly ordered field and in \<open>dbl\<close>.
\<close>

definition fp_order :: "('a::{zero,one,uminus,ord}) itself \<Rightarrow> bool" where
  "fp_order T \<longleftrightarrow>
     (\<forall>x::'a. \<not> x < x) \<and>
     (\<forall>x y z::'a. x < y \<and> y < z \<longrightarrow> x < z) \<and>
     (\<forall>x y z::'a. y < z \<and> x \<le> x \<and> \<not> x < z \<longrightarrow> y < x) \<and>
     (\<forall>x y::'a. x \<le> y \<longleftrightarrow> x \<le> x \<and> y \<le> y \<and> \<not> y < x) \<and>
     (\<forall>x y::'a. x < y \<longrightarrow> x \<le> x \<and> y \<le> y) \<and>
     (- 1 :: 'a) < 0"

text \<open>A value of no positive magnitude: in a field 0, in \<open>dbl\<close> \<open>+0\<close>, \<open>-0\<close> or a NaN.\<close>

definition zeroish :: "('a::{zero,abs,ord}) \<Rightarrow> bool" where
  "zeroish x \<longleftrightarrow> \<not> 0 < \<bar>x\<bar>"

text \<open>
  Of the arithmetic: \<open>0\<close> and \<open>-0\<close> have no positive magnitude, and neither has a quotient
  of such a value, a multiple of it, or a difference of two of them.
\<close>

definition fp_zero_closed :: "('a::{zero,uminus,minus,times,inverse,abs,ord}) itself \<Rightarrow> bool" where
  "fp_zero_closed T \<longleftrightarrow>
     zeroish (0::'a) \<and> zeroish (- 0 :: 'a) \<and>
     (\<forall>x d::'a. zeroish x \<longrightarrow> zeroish (x / d)) \<and>
     (\<forall>l x::'a. zeroish x \<longrightarrow> zeroish (l * x)) \<and>
     (\<forall>y z::'a. zeroish y \<and> zeroish z \<longrightarrow> zeroish (y - z))"

section \<open>Well-formed patterns and the grouping invariants\<close>

definition wf_pattern :: "nat \<Rightarrow> int list \<Rightarrow> int list \<Rightarrow> bool" where
  "wf_pattern n Bp Bi \<longleftrightarrow>
     length Bp = n + 1 \<and> Bp ! 0 = 0 \<and> (\<forall>j<n. Bp ! j \<le> Bp ! (j + 1)) \<and>
     nat (Bp ! n) \<le> length Bi \<and> (\<forall>i<nat (Bp ! n). 0 \<le> Bi ! i \<and> Bi ! i < int n)"

definition rowset :: "int list \<Rightarrow> int list \<Rightarrow> nat \<Rightarrow> nat set" where
  "rowset Bp Bi c = (\<lambda>i. nat (Bi ! i)) ` set (col_range Bp c)"

definition grp_inv :: "nat \<Rightarrow> int list \<Rightarrow> int list \<Rightarrow> int \<Rightarrow> int list \<Rightarrow> int list \<Rightarrow> bool" where
  "grp_inv neq Bp Bi g col_g filled \<longleftrightarrow>
     length col_g = neq \<and> length filled = neq \<and>
     (\<forall>r<neq. filled ! r = 0 \<or> filled ! r = 1) \<and>
     (\<forall>r<neq. filled ! r = 1 \<longleftrightarrow> (\<exists>j<neq. col_g ! j = g \<and> r \<in> rowset Bp Bi j)) \<and>
     (\<forall>i<neq. \<forall>j<neq. i \<noteq> j \<and> col_g ! i = g \<and> col_g ! j = g
         \<longrightarrow> rowset Bp Bi i \<inter> rowset Bp Bi j = {})"

definition extends :: "int \<Rightarrow> int list \<Rightarrow> int list \<Rightarrow> bool" where
  "extends g col_g col_g' \<longleftrightarrow>
     length col_g' = length col_g \<and>
     (\<forall>j<length col_g. col_g' ! j = col_g ! j \<or> (col_g ! j = - 1 \<and> col_g' ! j = g))"

definition cg_inv :: "nat \<Rightarrow> int list \<Rightarrow> int list \<Rightarrow> nat \<Rightarrow> int \<Rightarrow> int list \<Rightarrow> bool" where
  "cg_inv neq Bp Bi c g col_g \<longleftrightarrow>
     length col_g = neq \<and> - 1 \<le> g \<and>
     (\<forall>j<neq. - 1 \<le> col_g ! j \<and> col_g ! j \<le> g) \<and>
     (\<forall>j<c. col_g ! j \<noteq> - 1) \<and>
     (\<forall>g'. 0 \<le> g' \<and> g' \<le> g \<longrightarrow> (\<exists>j<neq. col_g ! j = g')) \<and>
     (\<forall>i<neq. \<forall>j<neq. i \<noteq> j \<and> col_g ! i = col_g ! j \<and> col_g ! i \<noteq> - 1
         \<longrightarrow> rowset Bp Bi i \<inter> rowset Bp Bi j = {})"

section \<open>Invariants of the search and of the factorization loop\<close>

text \<open>The part \<^verbatim>\<open>xik[top..n)\<close> of the buffer: the rows found so far.\<close>

definition stack_of :: "int \<Rightarrow> int list \<Rightarrow> int list" where
  "stack_of tp xik = drop (nat tp) xik"

text \<open>
  What \<^verbatim>\<open>dfsr\<close> relies on at step \<open>k\<close>: \<open>Gp0\<close> is the unmarked pointer array of \<open>L\<close>,
  whose columns \<open>0..k-1\<close> lie in \<open>Gi[0..lnz)\<close> and hold row indices below \<open>n\<close>, and
  \<^verbatim>\<open>pinv\<close> maps every row to \<open>-1\<close> or to a step before \<open>k\<close>.
\<close>

definition graph_ok :: "nat \<Rightarrow> nat \<Rightarrow> nat \<Rightarrow> int list \<Rightarrow> int list \<Rightarrow> int list \<Rightarrow> bool" where
  "graph_ok n k lnz Gp0 Gi pinv \<longleftrightarrow>
     k \<le> n \<and> length Gp0 = n + 1 \<and> length pinv = n \<and>
     (\<forall>J\<le>n. 0 \<le> Gp0 ! J) \<and> (\<forall>J\<le>k. Gp0 ! J \<le> int lnz) \<and>
     (\<forall>p<lnz. 0 \<le> Gi ! p \<and> Gi ! p < int n) \<and>
     (\<forall>i<n. pinv ! i < int k)"

text \<open>
  The state of a search: the rows on the buffer are distinct and below \<open>n\<close>; a pointer is
  flipped exactly when its row is on the buffer or in \<open>Op\<close>, the rows whose call of
  \<^verbatim>\<open>dfsr\<close> has marked them and not yet returned.
\<close>

definition dfs_inv :: "nat \<Rightarrow> int list \<Rightarrow> nat set \<Rightarrow> int list \<Rightarrow> int \<Rightarrow> int list \<Rightarrow> bool" where
  "dfs_inv n Gp0 Op Gp tp xik \<longleftrightarrow>
     length Gp = n + 1 \<and> length xik = n \<and> 0 \<le> tp \<and> tp \<le> int n \<and>
     distinct (stack_of tp xik) \<and>
     (\<forall>v\<in>set (stack_of tp xik). 0 \<le> v \<and> v < int n \<and> nat v \<notin> Op) \<and>
     (\<forall>i\<in>Op. i < n) \<and>
     (\<forall>i\<le>n. Gp ! i = (if i \<in> Op \<or> int i \<in> set (stack_of tp xik) then SPFLIP (Gp0 ! i) else Gp0 ! i))"

text \<open>
  After \<open>k\<close> steps \<^verbatim>\<open>pinv\<close> and \<^verbatim>\<open>p\<close> are inverse to each other between the rows
  pivoted so far and the steps \<open>0..k-1\<close>; every other row has \<^verbatim>\<open>pinv\<close> \<open>-1\<close>.
\<close>

definition pinv_p_inv :: "nat \<Rightarrow> nat \<Rightarrow> int list \<Rightarrow> int list \<Rightarrow> bool" where
  "pinv_p_inv n k pinv pvec \<longleftrightarrow>
     length pinv = n \<and> length pvec = n \<and>
     (\<forall>i<n. pinv ! i = - 1 \<or> (0 \<le> pinv ! i \<and> pinv ! i < int k \<and> pvec ! nat (pinv ! i) = int i)) \<and>
     (\<forall>j<k. 0 \<le> pvec ! j \<and> pvec ! j < int n \<and> pinv ! nat (pvec ! j) = int j)"

text \<open>The room columns \<open>0..k-1\<close> of \<open>L\<close> can take: column \<open>j\<close> has at most \<open>n - j\<close>
  entries.\<close>

definition cap :: "nat \<Rightarrow> nat \<Rightarrow> nat" where
  "cap n k = (\<Sum>j<k. n - j)"

text \<open>
  The sizes \<^verbatim>\<open>sp_num_alloc(N, n)\<close> gives the arrays of the context that the
  factorization indexes, and a column permutation \<^verbatim>\<open>q\<close> that is null or holds column
  numbers.
\<close>

definition num_sized :: "nat \<Rightarrow> 'a sp_num \<Rightarrow> bool" where
  "num_sized n N \<longleftrightarrow>
     mat_ncols (num_L N) = n \<and> length (mat_Ap (num_L N)) = n + 1 \<and>
     length (mat_Ai (num_L N)) = n * (n + 1) div 2 \<and>
     length (num_xi N) = n \<and> (\<forall>k<n. length (num_xi N ! k) = n) \<and>
     length (num_topvec N) = n \<and> length (num_pinv N) = n \<and> length (num_p N) = n \<and>
     length (num_w N) = n \<and>
     (case num_q N of None \<Rightarrow> True | Some qv \<Rightarrow> n \<le> length qv \<and> (\<forall>k<n. 0 \<le> qv ! k \<and> qv ! k < int n))"

definition wf_mat :: "nat \<Rightarrow> 'a sp_mat \<Rightarrow> bool" where
  "wf_mat n A \<longleftrightarrow> mat_ncols A = n \<and> wf_pattern n (mat_Ap A) (mat_Ai A)"

text \<open>The invariant of the \<open>k\<close> loop of \<^verbatim>\<open>sp_ludcmp\<close>, before step \<open>k\<close>.\<close>

definition lu_inv :: "nat \<Rightarrow> nat \<Rightarrow> 'a sp_num \<Rightarrow> nat \<Rightarrow> bool" where
  "lu_inv n k N lnz \<longleftrightarrow>
     num_sized n N \<and>
     (\<forall>J\<le>n. 0 \<le> mat_Ap (num_L N) ! J) \<and>
     (\<forall>J<k. mat_Ap (num_L N) ! J \<le> int lnz) \<and>
     (\<forall>p<lnz. 0 \<le> mat_Ai (num_L N) ! p \<and> mat_Ai (num_L N) ! p < int n) \<and>
     lnz \<le> cap n k \<and>
     pinv_p_inv n k (num_pinv N) (num_p N)"

text \<open>How many rows of the index range \<open>ps\<close> of the buffer are not pivoted.\<close>

definition unpiv_count :: "int list \<Rightarrow> int list \<Rightarrow> nat list \<Rightarrow> nat" where
  "unpiv_count xik pinv ps = length (filter (\<lambda>p. pinv ! nat (xik ! p) < 0) ps)"

text \<open>The pivot candidates of a step, in the order the pivot search meets them: the
  rows of \<^verbatim>\<open>xik[top..n)\<close> that are not pivoted yet (\<^verbatim>\<open>pinv[i] < 0\<close>).\<close>

definition candidates :: "nat \<Rightarrow> int \<Rightarrow> int list \<Rightarrow> int list \<Rightarrow> int list" where
  "candidates n tp xik pinv = filter (\<lambda>i. pinv ! nat i < 0) (map (\<lambda>p. xik ! p) [nat tp ..< n])"

text \<open>"No viable pivot": no candidate has a magnitude above zero. That is, there is no
  candidate, or the magnitude of every candidate is zero or, on \<^verbatim>\<open>double\<close>, a NaN.\<close>

definition no_pivot :: "nat \<Rightarrow> nat \<Rightarrow> int \<Rightarrow> ('a::{zero,abs,ord}) sp_num \<Rightarrow> bool" where
  "no_pivot n k tp N1 \<longleftrightarrow>
     list_all (\<lambda>i. zeroish (num_w N1 ! nat i)) (candidates n tp (num_xi N1 ! k) (num_pinv N1))"

text \<open>Column \<open>c\<close> of \<open>A\<close> is all-zero: it has no entry, or every stored value is a zero
  (\<open>0\<close> or \<open>-0\<close>, which differ on \<^verbatim>\<open>double\<close>).\<close>

definition zero_col :: "('a::{zero,uminus}) sp_mat \<Rightarrow> nat \<Rightarrow> bool" where
  "zero_col A c \<longleftrightarrow> list_all (\<lambda>p. mat_Ax A ! p = 0 \<or> mat_Ax A ! p = - 0) (col_range (mat_Ap A) c)"

text \<open>The state the pivot search is in after it has met the candidates \<open>C\<close>: either
  no candidate had a magnitude above \<open>-1\<close> and \<^verbatim>\<open>ipiv\<close> and \<^verbatim>\<open>a\<close> are still \<open>-1\<close>, or
  \<^verbatim>\<open>ipiv\<close> is a candidate, \<^verbatim>\<open>a\<close> is its magnitude and no candidate has a larger one.\<close>

definition pivot_state :: "('a::{one,uminus,abs,ord}) list \<Rightarrow> int list \<Rightarrow> int \<Rightarrow> 'a \<Rightarrow> bool" where
  "pivot_state x C ipiv a \<longleftrightarrow>
     (ipiv = - 1 \<and> a = - 1 \<and> list_all (\<lambda>i. \<not> - 1 < \<bar>x ! nat i\<bar>) C) \<or>
     (ipiv \<in> set C \<and> a = \<bar>x ! nat ipiv\<bar> \<and> - 1 < a \<and> list_all (\<lambda>i. \<not> a < \<bar>x ! nat i\<bar>) C)"






section \<open>Pattern union builder: the counting-sort invariants\<close>

text \<open>How many of the entries \<open>is\<close> lie in row \<open>r\<close>.\<close>

definition row_count :: "int list \<Rightarrow> nat list \<Rightarrow> nat \<Rightarrow> nat" where
  "row_count Bi is r = length (filter (\<lambda>i. nat (Bi ! i) = r) is)"

text \<open>One write of the scatter pass, on the pair (row, column) of the entry.\<close>

definition bucket_step :: "nat \<times> nat \<Rightarrow> int list \<times> int list \<Rightarrow> int list \<times> int list" where
  "bucket_step e s = (case s of (Ti, w) \<Rightarrow> (Ti[nat (w ! fst e) := int (snd e)], w[fst e := w ! fst e + 1]))"

text \<open>How many of the first \<open>m\<close> pairs lie in row \<open>r\<close>.\<close>

definition row_upto :: "(nat \<times> nat) list \<Rightarrow> nat \<Rightarrow> nat \<Rightarrow> nat" where
  "row_upto RJ m r = length (filter (\<lambda>e. fst e = r) (take m RJ))"

text \<open>The position of \<open>Ti\<close> the \<open>m\<close>-th pair is written to.\<close>

definition slot :: "(nat \<Rightarrow> nat) \<Rightarrow> (nat \<times> nat) list \<Rightarrow> nat \<Rightarrow> nat" where
  "slot base RJ m = base (fst (RJ ! m)) + row_upto RJ m (fst (RJ ! m))"

text \<open>The rows are below \<open>n\<close> and \<open>base\<close> is the running sum of the row counts.\<close>

definition bucket_ok :: "nat \<Rightarrow> (nat \<Rightarrow> nat) \<Rightarrow> (nat \<times> nat) list \<Rightarrow> bool" where
  "bucket_ok n base RJ \<longleftrightarrow>
     list_all (\<lambda>e. fst e < n) RJ \<and>
     list_all (\<lambda>r. base (Suc r) = base r + length (filter (\<lambda>e. fst e = r) RJ)) [0 ..< n]"

text \<open>The entries of the pattern as pairs (index into \<^verbatim>\<open>Ai\<close>, column), in the order the scatter pass visits them.\<close>

definition entries :: "int list \<Rightarrow> nat \<Rightarrow> (nat \<times> nat) list" where
  "entries Bp n = concat (map (\<lambda>j. map (\<lambda>i. (i, j)) (col_range Bp j)) [0 ..< n])"

text \<open>The same entries as pairs (row, column).\<close>

definition row_col :: "int list \<Rightarrow> int list \<Rightarrow> nat \<Rightarrow> (nat \<times> nat) list" where
  "row_col Bp Bi n = map (\<lambda>e. (nat (Bi ! fst e), snd e)) (entries Bp n)"

text \<open>The start of row \<open>r\<close> in the transpose: the number of entries in rows below \<open>r\<close>.\<close>

definition bucket_base :: "int list \<Rightarrow> int list \<Rightarrow> nat \<Rightarrow> nat \<Rightarrow> nat" where
  "bucket_base Bp Bi n r = (\<Sum>r'<r. row_count Bi [0 ..< nat (Bp ! n)] r')"


section \<open>Concrete inputs used by the witnesses and counterexamples\<close>

definition G_one :: "unit sp_mat" where
  "G_one = \<lparr>mat_ncols = 1, mat_nrows = 1, mat_maxnz = 1, mat_Ap = [0, 1], mat_Ai = [0], mat_Ax = [()]\<rparr>"

definition G_four :: "unit sp_mat" where
  "G_four = \<lparr>mat_ncols = 4, mat_nrows = 4, mat_maxnz = 6, mat_Ap = [0, 2, 3, 5, 6],
              mat_Ai = [0, 1, 2, 1, 3, 0], mat_Ax = replicate 6 ()\<rparr>"



text \<open>A context of dimension \<open>n\<close> with the sizes \<^verbatim>\<open>sp_num_alloc\<close> gives it, a null
  \<^verbatim>\<open>q\<close> and arbitrary content (7 everywhere), as a caller's context may hold before
  the first factorization.\<close>

definition fresh_num :: "nat \<Rightarrow> rat sp_num" where
  "fresh_num n = \<lparr>num_n = n,
     num_L = \<lparr>mat_ncols = n, mat_nrows = n, mat_maxnz = n * (n + 1) div 2, mat_Ap = replicate (n + 1) 7,
              mat_Ai = replicate (n * (n + 1) div 2) 7, mat_Ax = replicate (n * (n + 1) div 2) 7\<rparr>,
     num_U = \<lparr>mat_ncols = n, mat_nrows = n, mat_maxnz = n * (n + 1) div 2, mat_Ap = replicate (n + 1) 7,
              mat_Ai = replicate (n * (n + 1) div 2) 7, mat_Ax = replicate (n * (n + 1) div 2) 7\<rparr>,
     num_xi = replicate n (replicate n 7), num_topvec = replicate n 7, num_pinv = replicate n 7,
     num_p = replicate n 7, num_q = None, num_w = replicate n 7, num_wamd = replicate (8 * (n + 1)) 7\<rparr>"

text \<open>The matrix with columns \<open>(0, 2, 1)\<close>, \<open>(1, 0, 3)\<close>, \<open>(5, 1, 0)\<close> (no diagonal
  entry), and a \<open>2\<times>2\<close> matrix whose second column is empty.\<close>

definition A_three :: "rat sp_mat" where
  "A_three = \<lparr>mat_ncols = 3, mat_nrows = 3, mat_maxnz = 6, mat_Ap = [0, 2, 4, 6],
     mat_Ai = [1, 2, 0, 2, 0, 1], mat_Ax = [2, 1, 1, 3, 5, 1]\<rparr>"

definition A_zero_col :: "rat sp_mat" where
  "A_zero_col = \<lparr>mat_ncols = 2, mat_nrows = 2, mat_maxnz = 1, mat_Ap = [0, 1, 1],
     mat_Ai = [0], mat_Ax = [2]\<rparr>"

text \<open>What \<^verbatim>\<open>sp_ludcmp\<close> leaves in \<open>fresh_num 3\<close> for \<open>A_three\<close> (success) and in
  \<open>fresh_num 2\<close> for \<open>A_zero_col\<close> (failure at step 1).\<close>

definition N_three_done :: "rat sp_num" where
  "N_three_done = \<lparr>num_n = 3,
     num_L = \<lparr>mat_ncols = 3, mat_nrows = 3, mat_maxnz = 6, mat_Ap = [0, 2, 4, 5],
              mat_Ai = [0, 1, 1, 2, 2, 7], mat_Ax = [1, 1 / 2, 1, 1 / 3, 1, 7]\<rparr>,
     num_U = \<lparr>mat_ncols = 3, mat_nrows = 3, mat_maxnz = 6, mat_Ap = [0, 1, 2, 5],
              mat_Ai = [0, 1, 0, 1, 2, 7], mat_Ax = [2, 3, 1, - (1 / 2), 31 / 6, 7]\<rparr>,
     num_xi = [[7, 2, 1], [7, 2, 0], [1, 2, 0]], num_topvec = [1, 1, 0],
     num_pinv = [2, 0, 1], num_p = [1, 2, 0], num_q = None, num_w = [0, 0, 0],
     num_wamd = replicate 32 7\<rparr>"

definition N_zero_col_failed :: "rat sp_num" where
  "N_zero_col_failed = \<lparr>num_n = 2,
     num_L = \<lparr>mat_ncols = 2, mat_nrows = 2, mat_maxnz = 3, mat_Ap = [0, 1, 0],
              mat_Ai = [0, 7, 7], mat_Ax = [1, 7, 7]\<rparr>,
     num_U = \<lparr>mat_ncols = 2, mat_nrows = 2, mat_maxnz = 3, mat_Ap = [0, 1, 7],
              mat_Ai = [0, 7, 7], mat_Ax = [2, 7, 7]\<rparr>,
     num_xi = [[7, 0], [7, 7]], num_topvec = [1, 2], num_pinv = [0, - 1],
     num_p = [0, 7], num_q = None, num_w = [0, 0], num_wamd = replicate 24 7\<rparr>"

text \<open>A context of dimension \<open>n\<close> on \<open>dbl\<close>, likewise with arbitrary content.\<close>

definition fresh_dbl :: "nat \<Rightarrow> dbl sp_num" where
  "fresh_dbl n = \<lparr>num_n = n,
     num_L = \<lparr>mat_ncols = n, mat_nrows = n, mat_maxnz = n * (n + 1) div 2, mat_Ap = replicate (n + 1) 7,
              mat_Ai = replicate (n * (n + 1) div 2) 7, mat_Ax = replicate (n * (n + 1) div 2) (Fin False 7)\<rparr>,
     num_U = \<lparr>mat_ncols = n, mat_nrows = n, mat_maxnz = n * (n + 1) div 2, mat_Ap = replicate (n + 1) 7,
              mat_Ai = replicate (n * (n + 1) div 2) 7, mat_Ax = replicate (n * (n + 1) div 2) (Fin False 7)\<rparr>,
     num_xi = replicate n (replicate n 7), num_topvec = replicate n 7, num_pinv = replicate n 7,
     num_p = replicate n 7, num_q = None, num_w = replicate n (Fin False 7),
     num_wamd = replicate (8 * (n + 1)) 7\<rparr>"

text \<open>On \<open>dbl\<close>: the matrix with columns \<open>(0, 1)\<close> and \<open>(0, 3)\<close>; the matrix with columns
  \<open>(2, 0)\<close> and \<open>(0, -0)\<close>, whose second column holds zeros only; and the matrix with
  columns \<open>(1, 10)\<close> and \<open>(1, 1)\<close>.\<close>

definition A_nan :: "dbl sp_mat" where
  "A_nan = \<lparr>mat_ncols = 2, mat_nrows = 2, mat_maxnz = 4, mat_Ap = [0, 2, 4],
     mat_Ai = [0, 1, 0, 1], mat_Ax = [Fin False 0, Fin False 1, Fin False 0, Fin False 3]\<rparr>"

definition A_zeros :: "dbl sp_mat" where
  "A_zeros = \<lparr>mat_ncols = 2, mat_nrows = 2, mat_maxnz = 4, mat_Ap = [0, 2, 4],
     mat_Ai = [0, 1, 0, 1], mat_Ax = [Fin False 2, Fin False 0, Fin False 0, Fin True 0]\<rparr>"

definition A_tenth :: "dbl sp_mat" where
  "A_tenth = \<lparr>mat_ncols = 2, mat_nrows = 2, mat_maxnz = 4, mat_Ap = [0, 2, 4],
     mat_Ai = [0, 1, 0, 1], mat_Ax = [Fin False 1, Fin False 10, Fin False 1, Fin False 1]\<rparr>"



text \<open>A context of dimension 2 on \<open>dbl\<close> with the given arrays, and the states
  \<^verbatim>\<open>sp_ludcmp\<close> goes through on \<open>fresh_dbl 2\<close>: for \<open>A_nan\<close> with \<^verbatim>\<open>pivtol\<close> 0 after step 0,
  after the triangular solve of step 1 and at the return; for \<open>A_tenth\<close> after the
  triangular solve of step 0 and after step 0.\<close>

definition dbl_ctx :: "int list \<Rightarrow> int list \<Rightarrow> dbl list \<Rightarrow> int list \<Rightarrow> int list \<Rightarrow> dbl list
    \<Rightarrow> int list list \<Rightarrow> int list \<Rightarrow> int list \<Rightarrow> int list \<Rightarrow> dbl list \<Rightarrow> dbl sp_num" where
  "dbl_ctx Lp Li Lx Up Ui Ux xi topvec pinv p w = \<lparr>num_n = 2,
     num_L = \<lparr>mat_ncols = 2, mat_nrows = 2, mat_maxnz = 3, mat_Ap = Lp, mat_Ai = Li, mat_Ax = Lx\<rparr>,
     num_U = \<lparr>mat_ncols = 2, mat_nrows = 2, mat_maxnz = 3, mat_Ap = Up, mat_Ai = Ui, mat_Ax = Ux\<rparr>,
     num_xi = xi, num_topvec = topvec, num_pinv = pinv, num_p = p, num_q = None, num_w = w,
     num_wamd = replicate 24 7\<rparr>"

definition N_nan_step0 :: "dbl sp_num" where
  "N_nan_step0 = dbl_ctx [0, 0, 0] [0, 1, 7] [Fin False 1, Inf False, Fin False 7]
     [0, 7, 7] [0, 7, 7] [Fin False 0, Fin False 7, Fin False 7]
     [[1, 0], [7, 7]] [0, 7] [0, - 1] [0, 7] [Fin False 0, Fin False 0]"

definition N_nan_solved :: "dbl sp_num" where
  "N_nan_solved = dbl_ctx [0, 2, 0] [0, 1, 7] [Fin False 1, Inf False, Fin False 7]
     [0, 1, 7] [0, 7, 7] [Fin False 0, Fin False 7, Fin False 7]
     [[1, 0], [0, 1]] [0, 0] [0, - 1] [0, 7] [Fin False 0, NaN]"

definition N_nan_failed :: "dbl sp_num" where
  "N_nan_failed = dbl_ctx [0, 2, 0] [0, 1, 7] [Fin False 1, Inf False, Fin False 7]
     [0, 1, 7] [0, 0, 7] [Fin False 0, Fin False 0, Fin False 7]
     [[1, 0], [0, 1]] [0, 0] [0, - 1] [0, 7] [Fin False 0, NaN]"

definition N_tenth_solved :: "dbl sp_num" where
  "N_tenth_solved = dbl_ctx [0, 0, 0] [7, 7, 7] [Fin False 7, Fin False 7, Fin False 7]
     [0, 7, 7] [7, 7, 7] [Fin False 7, Fin False 7, Fin False 7]
     [[1, 0], [7, 7]] [0, 7] [- 1, - 1] [7, 7] [Fin False 1, Fin False 10]"

definition N_tenth_step0 :: "dbl sp_num" where
  "N_tenth_step0 = dbl_ctx [0, 0, 0] [0, 1, 7] [Fin False 1, Fin False 10, Fin False 7]
     [0, 7, 7] [0, 7, 7] [Fin False 1, Fin False 7, Fin False 7]
     [[1, 0], [7, 7]] [0, 7] [0, - 1] [0, 7] [Fin False 0, Fin False 0]"

section \<open>Column grouper: proofs\<close>

lemma upt_split_at: "c < n \<Longrightarrow> [0 ..< n] = [0 ..< c] @ c # [Suc c ..< n]"
  using upt_add_eq_append[of 0 c "n - c"] by (simp add: upt_conv_Cons)

lemma fold_const_update:
  "k \<le> length xs \<Longrightarrow> fold (\<lambda>i f. f[i := v]) [0 ..< k] xs = replicate k v @ drop k xs"
proof (induction k)
  case 0
  then show ?case by simp
next
  case (Suc k)
  then have "fold (\<lambda>i f. f[i := v]) [0 ..< Suc k] xs = (replicate k v @ drop k xs)[k := v]"
    by simp
  also have "\<dots> = replicate k v @ (drop k xs)[0 := v]"
    by (simp add: list_update_append)
  also have "(drop k xs)[0 := v] = v # drop (Suc k) xs"
    using Suc.prems by (metis Cons_nth_drop_Suc Suc_le_lessD list_update_code(2))
  finally show ?case by (simp add: replicate_append_same)
qed

lemma reset_filled_eq: "length filled = neq \<Longrightarrow> reset_filled neq filled = replicate neq 0"
  by (simp add: reset_filled_def fold_const_update)

lemma reset_col_g_eq: "length col_g = neq \<Longrightarrow> reset_col_g neq col_g = replicate neq (- 1)"
  by (simp add: reset_col_g_def fold_const_update)

lemma wf_pattern_mono:
  assumes "wf_pattern n Bp Bi" "j \<le> n"
  shows "0 \<le> Bp ! j \<and> Bp ! j \<le> Bp ! n"
proof -
  have up: "i \<le> j' \<Longrightarrow> j' \<le> n \<Longrightarrow> Bp ! i \<le> Bp ! j'" for i j'
  proof (induction j')
    case 0
    then show ?case by simp
  next
    case (Suc j')
    show ?case
    proof (cases "i = Suc j'")
      case True
      then show ?thesis by simp
    next
      case False
      with Suc have "Bp ! i \<le> Bp ! j'" by simp
      moreover have "Bp ! j' \<le> Bp ! (j' + 1)"
        using assms(1) Suc.prems by (simp add: wf_pattern_def)
      ultimately show ?thesis by simp
    qed
  qed
  have "Bp ! 0 = 0" using assms(1) by (simp add: wf_pattern_def)
  with up[of 0 j] up[of j n] assms(2) show ?thesis by simp
qed

lemma wf_pattern_row:
  assumes "wf_pattern n Bp Bi" "c < n" "i \<in> set (col_range Bp c)"
  shows "0 \<le> Bi ! i \<and> Bi ! i < int n"
proof -
  have "Bp ! (c + 1) \<le> Bp ! n"
    using wf_pattern_mono[OF assms(1), of "c + 1"] assms(2) by simp
  with assms(3) have "i < nat (Bp ! n)"
    by (auto simp: col_range_def)
  with assms(1) show ?thesis by (simp add: wf_pattern_def)
qed

lemma fold_mark_length: "length (fold (\<lambda>i f. f[g i := v]) is f) = length f"
  by (induction "is" arbitrary: f) auto

lemma fold_mark_nth:
  "r < length f \<Longrightarrow> fold (\<lambda>i f. f[g i := v]) is f ! r = (if r \<in> g ` set is then v else f ! r)"
  by (induction "is" arbitrary: f) (auto simp: fold_mark_length nth_list_update)

lemma fill_col_length: "length (fill_col Bp Bi c filled) = length filled"
  by (simp add: fill_col_def fold_mark_length)

lemma fill_col_nth:
  "r < length filled \<Longrightarrow>
   fill_col Bp Bi c filled ! r = (if r \<in> (\<lambda>i. nat (Bi ! i)) ` set (col_range Bp c) then 1 else filled ! r)"
  by (simp add: fill_col_def fold_mark_nth)

lemma fitted_loop_iff:
  "fitted_loop hit Bi filled is \<longleftrightarrow> (\<forall>i\<in>set is. \<not> hit (filled ! nat (Bi ! i)))"
  by (induction "is") auto

lemma rowset_bound: "wf_pattern n Bp Bi \<Longrightarrow> c < n \<Longrightarrow> r \<in> rowset Bp Bi c \<Longrightarrow> r < n"
  using wf_pattern_row by (fastforce simp: rowset_def)

lemma extends_refl: "extends g c c"
  by (simp add: extends_def)

lemma extends_trans: "extends g a b \<Longrightarrow> extends g b c \<Longrightarrow> extends g a c"
  unfolding extends_def by (metis)

lemma try_col_admit:
  assumes wf: "wf_pattern neq Bp Bi" and t: "testcol < neq" and g: "g \<noteq> - 1"
    and inv: "grp_inv neq Bp Bi g col_g filled"
    and free: "col_g ! testcol = - 1"
    and fit: "\<forall>i\<in>set (col_range Bp testcol). filled ! nat (Bi ! i) \<noteq> 1"
  shows "grp_inv neq Bp Bi g (col_g[testcol := g]) (fill_col Bp Bi testcol filled)"
proof -
  let ?cg = "col_g[testcol := g]" and ?f = "fill_col Bp Bi testcol filled"
  have len: "length col_g = neq" "length filled = neq"
    using inv by (simp_all add: grp_inv_def)
  have fnth: "?f ! r = (if r \<in> rowset Bp Bi testcol then 1 else filled ! r)" if "r < neq" for r
    using that len by (simp add: fill_col_nth rowset_def)
  have cg: "?cg ! j = g \<longleftrightarrow> j = testcol \<or> col_g ! j = g" if "j < neq" for j
    using that len free g by (cases "j = testcol") simp_all
  have old1: "filled ! r = 1 \<longleftrightarrow> (\<exists>j<neq. col_g ! j = g \<and> r \<in> rowset Bp Bi j)" if "r < neq" for r
    using inv that by (simp add: grp_inv_def)
  have disj_new: "rowset Bp Bi testcol \<inter> rowset Bp Bi j = {}" if "j < neq" "col_g ! j = g" for j
  proof (rule ccontr)
    assume "rowset Bp Bi testcol \<inter> rowset Bp Bi j \<noteq> {}"
    then obtain r where r: "r \<in> rowset Bp Bi testcol" "r \<in> rowset Bp Bi j" by auto
    then have "r < neq" using rowset_bound[OF wf t] by simp
    with r(2) that have "filled ! r = 1" using old1 by blast
    moreover from r(1) fit have "filled ! r \<noteq> 1" by (auto simp: rowset_def)
    ultimately show False by simp
  qed
  have c1: "\<forall>r<neq. ?f ! r = 0 \<or> ?f ! r = 1"
    using inv unfolding grp_inv_def by (auto simp: fnth)
  have c2: "\<forall>r<neq. ?f ! r = 1 \<longleftrightarrow> (\<exists>j<neq. ?cg ! j = g \<and> r \<in> rowset Bp Bi j)"
  proof (intro allI impI)
    fix r assume r: "r < neq"
    show "?f ! r = 1 \<longleftrightarrow> (\<exists>j<neq. ?cg ! j = g \<and> r \<in> rowset Bp Bi j)"
    proof (cases "r \<in> rowset Bp Bi testcol")
      case True
      then show ?thesis using r t cg fnth by auto
    next
      case False
      then have "?f ! r = filled ! r" using r fnth by simp
      moreover have "(\<exists>j<neq. ?cg ! j = g \<and> r \<in> rowset Bp Bi j)
                 \<longleftrightarrow> (\<exists>j<neq. col_g ! j = g \<and> r \<in> rowset Bp Bi j)"
        using False cg by blast
      ultimately show ?thesis using old1[OF r] by simp
    qed
  qed
  have c3: "\<forall>i<neq. \<forall>j<neq. i \<noteq> j \<and> ?cg ! i = g \<and> ?cg ! j = g
         \<longrightarrow> rowset Bp Bi i \<inter> rowset Bp Bi j = {}"
  proof (intro allI impI)
    fix i j assume i: "i < neq" and j: "j < neq" and h: "i \<noteq> j \<and> ?cg ! i = g \<and> ?cg ! j = g"
    show "rowset Bp Bi i \<inter> rowset Bp Bi j = {}"
    proof (cases "i = testcol")
      case True
      with h cg[OF j] have "col_g ! j = g" by auto
      then show ?thesis using disj_new[OF j] True by simp
    next
      case False
      note ni = this
      show ?thesis
      proof (cases "j = testcol")
        case True
        with h cg[OF i] have "col_g ! i = g" by auto
        then show ?thesis using disj_new[OF i] True by blast
      next
        case False
        with ni h cg[OF i] cg[OF j] have "col_g ! i = g" "col_g ! j = g" by auto
        then show ?thesis using inv i j h by (simp add: grp_inv_def)
      qed
    qed
  qed
  show ?thesis
    unfolding grp_inv_def using len c1 c2 c3 by (simp add: fill_col_length)
qed

lemma try_col_inv:
  assumes wf: "wf_pattern neq Bp Bi" and t: "testcol < neq" and g: "g \<noteq> - 1"
    and inv: "grp_inv neq Bp Bi g col_g filled"
    and res: "try_col Bp Bi g testcol (col_g, filled) = (col_g', filled')"
  shows "grp_inv neq Bp Bi g col_g' filled' \<and> extends g col_g col_g'"
proof (cases "col_g ! testcol = - 1 \<and> fitted_loop (\<lambda>v. v = 1) Bi filled (col_range Bp testcol)")
  case True
  then have eq: "col_g' = col_g[testcol := g]" "filled' = fill_col Bp Bi testcol filled"
    using res by (simp_all add: try_col_def)
  have "grp_inv neq Bp Bi g col_g' filled'"
    unfolding eq using try_col_admit[OF wf t g inv] True by (simp add: fitted_loop_iff)
  moreover have "col_g[testcol := g] ! j = col_g ! j \<or> col_g ! j = - 1 \<and> col_g[testcol := g] ! j = g"
    if "j < length col_g" for j
    using that True by (cases "j = testcol") simp_all
  then have "extends g col_g col_g'"
    unfolding eq extends_def by simp
  ultimately show ?thesis by simp
next
  case False
  then have "col_g' = col_g" "filled' = filled"
    using res by (auto simp: try_col_def split: if_splits)
  then show ?thesis using inv by (simp add: extends_refl)
qed

lemma try_col_fold_inv:
  assumes wf: "wf_pattern neq Bp Bi" and g: "g \<noteq> - 1"
  shows "\<forall>t\<in>set ts. t < neq \<Longrightarrow> grp_inv neq Bp Bi g col_g filled \<Longrightarrow>
         fold (try_col Bp Bi g) ts (col_g, filled) = (col_g', filled') \<Longrightarrow>
         grp_inv neq Bp Bi g col_g' filled' \<and> extends g col_g col_g'"
proof (induction ts arbitrary: col_g filled)
  case Nil
  then show ?case by (simp add: extends_refl)
next
  case (Cons t ts)
  obtain c1 f1 where s1: "try_col Bp Bi g t (col_g, filled) = (c1, f1)" by fastforce
  from Cons.prems have t: "t < neq" by simp
  from try_col_inv[OF wf t g Cons.prems(2) s1]
  have i1: "grp_inv neq Bp Bi g c1 f1" and e1: "extends g col_g c1" by simp_all
  from Cons.prems(3) s1 have "fold (try_col Bp Bi g) ts (c1, f1) = (col_g', filled')" by simp
  from Cons.IH[OF _ i1 this] Cons.prems(1) e1 show ?case
    by (auto intro: extends_trans)
qed

lemma grp_inv_start:
  assumes wf: "wf_pattern neq Bp Bi" and c: "c < neq" and len: "length col_g = neq"
    and low: "\<forall>j<neq. col_g ! j < g"
  shows "grp_inv neq Bp Bi g (col_g[c := g]) (fill_col Bp Bi c (replicate neq 0))"
proof -
  have cg: "col_g[c := g] ! j = g \<longleftrightarrow> j = c" if "j < neq" for j
    using that len low by (cases "j = c") auto
  have f: "fill_col Bp Bi c (replicate neq 0) ! r = (if r \<in> rowset Bp Bi c then 1 else 0)"
    if "r < neq" for r
    using that by (simp add: fill_col_nth rowset_def)
  show ?thesis
    unfolding grp_inv_def using len c by (auto simp: fill_col_length f cg)
qed

lemma group_from_inv:
  assumes wf: "wf_pattern neq Bp Bi" and c: "c < neq" and lf: "length filled = neq"
    and inv: "cg_inv neq Bp Bi c g col_g"
    and res: "group_from Bp Bi neq c (col_g, filled, g) = (col_g', filled', g')"
  shows "cg_inv neq Bp Bi (Suc c) g' col_g' \<and> length filled' = neq \<and>
         (\<forall>j<neq. col_g ! j \<noteq> - 1 \<longrightarrow> col_g' ! j = col_g ! j)"
proof (cases "col_g ! c = - 1")
  case False
  then have eq: "col_g' = col_g" "filled' = filled" "g' = g"
    using res by (simp_all add: group_from_def)
  have "\<forall>j<Suc c. col_g ! j \<noteq> - 1"
    using inv False by (auto simp: cg_inv_def less_Suc_eq)
  then show ?thesis
    unfolding eq using inv lf by (simp add: cg_inv_def)
next
  case True
  define G where "G = g + 1"
  define cg0 where "cg0 = col_g[c := G]"
  define f0 where "f0 = fill_col Bp Bi c (replicate neq 0)"
  have len: "length col_g = neq" and gl: "- 1 \<le> g"
    and rng: "\<And>j. j < neq \<Longrightarrow> - 1 \<le> col_g ! j \<and> col_g ! j \<le> g"
    and prior: "\<And>j. j < c \<Longrightarrow> col_g ! j \<noteq> - 1"
    and ne: "\<And>v. 0 \<le> v \<Longrightarrow> v \<le> g \<Longrightarrow> \<exists>j<neq. col_g ! j = v"
    and dj: "\<And>i j. i < neq \<Longrightarrow> j < neq \<Longrightarrow> i \<noteq> j \<Longrightarrow> col_g ! i = col_g ! j
               \<Longrightarrow> col_g ! i \<noteq> - 1 \<Longrightarrow> rowset Bp Bi i \<inter> rowset Bp Bi j = {}"
    using inv by (auto simp: cg_inv_def)
  have G: "G \<noteq> - 1" "0 \<le> G" using gl by (simp_all add: G_def)
  have fold: "fold (try_col Bp Bi G) [c + 1 ..< neq] (cg0, f0) = (col_g', filled')" and g': "g' = G"
    using res True lf
    by (auto simp: group_from_def G_def cg0_def f0_def reset_filled_eq split: prod.splits)
  have "\<forall>j<neq. col_g ! j < G" using rng by (fastforce simp: G_def)
  from grp_inv_start[OF wf c len this] have start: "grp_inv neq Bp Bi G cg0 f0"
    by (simp add: cg0_def f0_def)
  have "\<forall>t\<in>set [c + 1 ..< neq]. t < neq" by simp
  from try_col_fold_inv[OF wf G(1) this start fold]
  have gi: "grp_inv neq Bp Bi G col_g' filled'" and ex: "extends G cg0 col_g'" by simp_all
  have len': "length col_g' = neq" "length filled' = neq"
    using gi by (simp_all add: grp_inv_def)
  have cg0: "cg0 ! j = (if j = c then G else col_g ! j)" if "j < neq" for j
    using that len by (simp add: cg0_def)
  have step: "col_g' ! j = cg0 ! j \<or> (cg0 ! j = - 1 \<and> col_g' ! j = G)" if "j < neq" for j
    using ex that len by (simp add: extends_def cg0_def)
  have keep: "col_g' ! j = col_g ! j" if "j < neq" "col_g' ! j \<noteq> G" for j
    using step[OF that(1)] cg0[OF that(1)] that(2) by (auto split: if_splits)
  have keep2: "col_g' ! j = col_g ! j" if "j < neq" "col_g ! j \<noteq> - 1" for j
    using step[OF that(1)] cg0[OF that(1)] that(2) True by (auto split: if_splits)
  have atc: "col_g' ! c = G"
    using step[OF c] cg0[OF c] G by auto
  have p1: "\<forall>j<neq. - 1 \<le> col_g' ! j \<and> col_g' ! j \<le> G"
  proof (intro allI impI)
    fix j assume j: "j < neq"
    show "- 1 \<le> col_g' ! j \<and> col_g' ! j \<le> G"
      using keep[OF j] rng[OF j] G by (cases "col_g' ! j = G") (auto simp: G_def)
  qed
  have p2: "\<forall>j<Suc c. col_g' ! j \<noteq> - 1"
  proof (intro allI impI)
    fix j assume j: "j < Suc c"
    show "col_g' ! j \<noteq> - 1"
    proof (cases "j = c")
      case True
      then show ?thesis using atc G by simp
    next
      case False
      with j have jc: "j < c" by simp
      then have "j < neq" using c by simp
      from keep2[OF this prior[OF jc]] prior[OF jc] show ?thesis by simp
    qed
  qed
  have p3: "\<forall>v. 0 \<le> v \<and> v \<le> G \<longrightarrow> (\<exists>j<neq. col_g' ! j = v)"
  proof (intro allI impI)
    fix v assume v: "0 \<le> v \<and> v \<le> G"
    show "\<exists>j<neq. col_g' ! j = v"
    proof (cases "v = G")
      case True
      then show ?thesis using atc c by blast
    next
      case False
      with v have "v \<le> g" by (simp add: G_def)
      with v ne obtain j where j: "j < neq" "col_g ! j = v" by blast
      with v keep2[OF j(1)] have "col_g' ! j = v" by simp
      then show ?thesis using j(1) by blast
    qed
  qed
  have p4: "\<forall>i<neq. \<forall>j<neq. i \<noteq> j \<and> col_g' ! i = col_g' ! j \<and> col_g' ! i \<noteq> - 1
         \<longrightarrow> rowset Bp Bi i \<inter> rowset Bp Bi j = {}"
  proof (intro allI impI)
    fix i j assume i: "i < neq" and j: "j < neq"
      and h: "i \<noteq> j \<and> col_g' ! i = col_g' ! j \<and> col_g' ! i \<noteq> - 1"
    show "rowset Bp Bi i \<inter> rowset Bp Bi j = {}"
    proof (cases "col_g' ! i = G")
      case True
      then show ?thesis using gi i j h by (simp add: grp_inv_def)
    next
      case False
      then have "col_g ! i = col_g' ! i" "col_g ! j = col_g' ! j"
        using keep[OF i] keep[OF j] h by simp_all
      then show ?thesis using dj[OF i j] h by simp
    qed
  qed
  show ?thesis
    unfolding cg_inv_def g' using len' G p1 p2 p3 p4 keep2 by simp
qed

lemma group_from_fold_inv:
  assumes wf: "wf_pattern neq Bp Bi"
  shows "c + k \<le> neq \<Longrightarrow> length filled = neq \<Longrightarrow> cg_inv neq Bp Bi c g col_g \<Longrightarrow>
         fold (group_from Bp Bi neq) [c ..< c + k] (col_g, filled, g) = (col_g', filled', g') \<Longrightarrow>
         cg_inv neq Bp Bi (c + k) g' col_g' \<and> length filled' = neq"
proof (induction k arbitrary: col_g' filled' g')
  case 0
  then show ?case by simp
next
  case (Suc k)
  obtain c1 f1 g1 where mid: "fold (group_from Bp Bi neq) [c ..< c + k] (col_g, filled, g) = (c1, f1, g1)"
    using prod_cases3 by blast
  from Suc.prems have ck: "c + k \<le> neq" "c + k < neq" by simp_all
  from Suc.IH[OF ck(1) Suc.prems(2,3) mid]
  have i1: "cg_inv neq Bp Bi (c + k) g1 c1" and l1: "length f1 = neq" by simp_all
  have "group_from Bp Bi neq (c + k) (c1, f1, g1) = (col_g', filled', g')"
    using Suc.prems(4) mid by simp
  from group_from_inv[OF wf ck(2) l1 i1 this] show ?case by simp
qed

lemma cg_inv_init: "cg_inv neq Bp Bi 0 (- 1) (replicate neq (- 1))"
  by (simp add: cg_inv_def)

lemma column_grouping_inv:
  assumes wf: "wf_pattern (mat_ncols G) (mat_Ap G) (mat_Ai G)"
    and lc: "length col_g = mat_ncols G" and lf: "length filled = mat_ncols G"
    and res: "column_grouping G col_g filled = (r, col_g', filled')"
  shows "cg_inv (mat_ncols G) (mat_Ap G) (mat_Ai G) (mat_ncols G) r col_g'"
proof -
  let ?n = "mat_ncols G"
  have "fold (group_from (mat_Ap G) (mat_Ai G) ?n) [0 ..< 0 + ?n] (replicate ?n (- 1), filled, - 1)
          = (col_g', filled', r)"
    using res lc by (auto simp: column_grouping_def reset_col_g_eq Let_def split: prod.splits)
  from group_from_fold_inv[OF wf _ lf cg_inv_init this] show ?thesis by simp
qed

lemma try_col2_skip:
  "\<forall>t\<in>set ts. col_g ! t \<noteq> - 1 \<Longrightarrow>
   fold (try_col2 Bp Bi g) ts (col_g, filled, d) = (col_g, filled, d)"
  by (induction ts) (simp_all add: try_col2_def)

lemma group_from_skip:
  "col_g ! c \<noteq> - 1 \<Longrightarrow> group_from Bp Bi neq c (col_g, filled, g) = (col_g, filled, g)"
  by (simp add: group_from_def)

lemma fitted_loop_01:
  assumes "\<forall>i\<in>set is. filled ! nat (Bi ! i) = 0 \<or> filled ! nat (Bi ! i) = 1"
  shows "fitted_loop (\<lambda>v. v \<noteq> 0) Bi filled is = fitted_loop (\<lambda>v. v = 1) Bi filled is"
  using assms by (induction "is") auto

lemma try_col2_try_col:
  assumes wf: "wf_pattern neq Bp Bi" and t: "t < neq"
    and inv: "grp_inv neq Bp Bi g col_g filled"
  shows "try_col2 Bp Bi g t (col_g, filled, False)
           = (case try_col Bp Bi g t (col_g, filled) of (c', f') \<Rightarrow> (c', f', False))"
proof -
  have "filled ! nat (Bi ! i) = 0 \<or> filled ! nat (Bi ! i) = 1" if "i \<in> set (col_range Bp t)" for i
  proof -
    from wf_pattern_row[OF wf t that] have "nat (Bi ! i) < neq" by linarith
    with inv show ?thesis unfolding grp_inv_def by blast
  qed
  then have "fitted_loop (\<lambda>v. v \<noteq> 0) Bi filled (col_range Bp t)
               = fitted_loop (\<lambda>v. v = 1) Bi filled (col_range Bp t)"
    by (intro fitted_loop_01) blast
  then show ?thesis by (simp add: try_col2_def try_col_def)
qed

lemma try_col2_fold:
  assumes wf: "wf_pattern neq Bp Bi" and g: "g \<noteq> - 1"
  shows "\<forall>t\<in>set ts. t < neq \<Longrightarrow> grp_inv neq Bp Bi g col_g filled \<Longrightarrow>
         fold (try_col2 Bp Bi g) ts (col_g, filled, False)
           = (case fold (try_col Bp Bi g) ts (col_g, filled) of (c', f') \<Rightarrow> (c', f', False))"
proof (induction ts arbitrary: col_g filled)
  case Nil
  then show ?case by simp
next
  case (Cons t ts)
  obtain c1 f1 where s1: "try_col Bp Bi g t (col_g, filled) = (c1, f1)" by fastforce
  from Cons.prems have t: "t < neq" by simp
  from try_col_inv[OF wf t g Cons.prems(2) s1] have i1: "grp_inv neq Bp Bi g c1 f1" by simp
  have "try_col2 Bp Bi g t (col_g, filled, False) = (c1, f1, False)"
    using try_col2_try_col[OF wf t Cons.prems(2)] s1 by simp
  then show ?case using Cons.IH[OF _ i1] Cons.prems(1) s1 by simp
qed

lemma try_col2_first_free:
  assumes wf: "wf_pattern neq Bp Bi" and c: "c < neq" and len: "length col_g = neq"
    and free: "col_g ! c = - 1" and before: "\<forall>j<c. col_g ! j \<noteq> - 1"
    and low: "\<forall>j<neq. col_g ! j < g"
  shows "fold (try_col2 Bp Bi g) [0 ..< neq] (col_g, replicate neq 0, True)
           = (case fold (try_col Bp Bi g) [c + 1 ..< neq]
                     (col_g[c := g], fill_col Bp Bi c (replicate neq 0)) of
                (c', f') \<Rightarrow> (c', f', False))"
proof -
  have g: "g \<noteq> - 1" using low free c by fastforce
  have split: "[0 ..< neq] = [0 ..< c] @ c # [c + 1 ..< neq]"
    using upt_split_at[OF c] by simp
  have s1: "fold (try_col2 Bp Bi g) [0 ..< c] (col_g, replicate neq 0, True)
              = (col_g, replicate neq 0, True)"
    using before by (intro try_col2_skip) simp
  have "replicate neq (0::int) ! nat (Bi ! i) = 0" if "i \<in> set (col_range Bp c)" for i
  proof -
    from wf_pattern_row[OF wf c that] have "nat (Bi ! i) < neq" by linarith
    then show ?thesis by simp
  qed
  then have "fitted_loop (\<lambda>v. v \<noteq> 0) Bi (replicate neq 0) (col_range Bp c)"
    by (simp add: fitted_loop_iff)
  then have s2: "try_col2 Bp Bi g c (col_g, replicate neq 0, True)
              = (col_g[c := g], fill_col Bp Bi c (replicate neq 0), False)"
    using free by (simp add: try_col2_def)
  have s3: "fold (try_col2 Bp Bi g) [c + 1 ..< neq] (col_g[c := g], fill_col Bp Bi c (replicate neq 0), False)
          = (case fold (try_col Bp Bi g) [c + 1 ..< neq]
                     (col_g[c := g], fill_col Bp Bi c (replicate neq 0)) of
                (c', f') \<Rightarrow> (c', f', False))"
    by (rule try_col2_fold[OF wf g _ grp_inv_start[OF wf c len low]]) simp
  show ?thesis
    unfolding split using s1 s2 s3 by simp
qed

lemma ungrouped_card_less:
  assumes c: "c < neq" and free: "col_g ! c = - 1" and now: "col_g' ! c \<noteq> - 1"
    and keep: "\<forall>j<neq. col_g ! j \<noteq> - 1 \<longrightarrow> col_g' ! j = col_g ! j"
  shows "card {j. j < neq \<and> col_g' ! j = - 1} < card {j. j < neq \<and> col_g ! j = - 1}"
proof (rule psubset_card_mono)
  show "finite {j. j < neq \<and> col_g ! j = - 1}" by simp
  have "{j. j < neq \<and> col_g' ! j = - 1} \<subseteq> {j. j < neq \<and> col_g ! j = - 1}"
    using keep by force
  moreover have "c \<in> {j. j < neq \<and> col_g ! j = - 1}" "c \<notin> {j. j < neq \<and> col_g' ! j = - 1}"
    using c free now by simp_all
  ultimately show "{j. j < neq \<and> col_g' ! j = - 1} \<subset> {j. j < neq \<and> col_g ! j = - 1}"
    by blast
qed

lemma grouping_loops_agree:
  assumes wf: "wf_pattern neq Bp Bi"
  shows "c \<le> neq \<Longrightarrow> cg_inv neq Bp Bi c (int G - 1) col_g \<Longrightarrow>
         length fA = neq \<Longrightarrow> length fB = neq \<Longrightarrow>
         card {j. j < neq \<and> col_g ! j = - 1} + G \<le> neq \<Longrightarrow>
         fold (group_from Bp Bi neq) [c ..< neq] (col_g, fA, int G - 1) = (cg1, f1, r1) \<Longrightarrow>
         group_loop2 Bp Bi neq G col_g fB = (G2, cg2, f2) \<Longrightarrow>
         cg2 = cg1 \<and> int G2 - 1 = r1"
proof (induction "neq - c" arbitrary: c G col_g fA fB)
  case 0
  then have c: "c = neq" by simp
  from "0.prems"(2) have all: "\<forall>t\<in>set [0 ..< neq]. col_g ! t \<noteq> - 1"
    by (simp add: cg_inv_def c)
  from "0.prems"(6) have r1: "cg1 = col_g" "r1 = int G - 1" by (simp_all add: c)
  have "G2 = G \<and> cg2 = col_g"
    using "0.prems"(7) try_col2_skip[OF all]
    by (subst (asm) group_loop2.simps) (auto split: if_splits)
  then show ?case using r1 by simp
next
  case (Suc m)
  then have c: "c < neq" and m: "m = neq - Suc c" by simp_all
  have up: "[c ..< neq] = c # [Suc c ..< neq]" using c by (simp add: upt_conv_Cons)
  have len: "length col_g = neq" using Suc.prems(2) by (simp add: cg_inv_def)
  show ?case
  proof (cases "col_g ! c = - 1")
    case False
    have inv': "cg_inv neq Bp Bi (Suc c) (int G - 1) col_g"
      using group_from_inv[OF wf c Suc.prems(3,2) group_from_skip[OF False]] by simp
    have "fold (group_from Bp Bi neq) [Suc c ..< neq] (col_g, fA, int G - 1) = (cg1, f1, r1)"
      using Suc.prems(6) by (simp add: up group_from_skip[OF False])
    from Suc.hyps(1)[OF m _ inv' Suc.prems(3,4,5) this Suc.prems(7)] c show ?thesis by simp
  next
    case True
    obtain cg' f' where pass: "fold (try_col Bp Bi (int G)) [c + 1 ..< neq]
        (col_g[c := int G], fill_col Bp Bi c (replicate neq 0)) = (cg', f')" by fastforce
    have gf: "group_from Bp Bi neq c (col_g, fA, int G - 1) = (cg', f', int G)"
      using True pass Suc.prems(3) by (simp add: group_from_def reset_filled_eq)
    from group_from_inv[OF wf c Suc.prems(3,2) gf]
    have inv': "cg_inv neq Bp Bi (Suc c) (int (Suc G) - 1) cg'" and lf': "length f' = neq"
      and keep: "\<forall>j<neq. col_g ! j \<noteq> - 1 \<longrightarrow> cg' ! j = col_g ! j" by simp_all
    have now: "cg' ! c \<noteq> - 1" using inv' by (simp add: cg_inv_def)
    have less: "card {j. j < neq \<and> cg' ! j = - 1} < card {j. j < neq \<and> col_g ! j = - 1}"
      by (rule ungrouped_card_less[OF c True now keep])
    then have cardb: "card {j. j < neq \<and> cg' ! j = - 1} + Suc G \<le> neq" and G: "G < neq"
      using Suc.prems(5) by simp_all
    have low: "\<forall>j<neq. col_g ! j < int G"
      using Suc.prems(2) by (fastforce simp: cg_inv_def)
    have before: "\<forall>j<c. col_g ! j \<noteq> - 1" using Suc.prems(2) by (simp add: cg_inv_def)
    have p2: "fold (try_col2 Bp Bi (int G)) [0 ..< neq] (col_g, reset_filled neq fB, True) = (cg', f', False)"
      using try_col2_first_free[OF wf c len True before low] pass Suc.prems(4)
      by (simp add: reset_filled_eq)
    have l2: "group_loop2 Bp Bi neq (Suc G) cg' f' = (G2, cg2, f2)"
      using Suc.prems(7) G p2 by (subst (asm) group_loop2.simps) simp
    have f1: "fold (group_from Bp Bi neq) [Suc c ..< neq] (cg', f', int (Suc G) - 1) = (cg1, f1, r1)"
      using Suc.prems(6) gf by (simp add: up)
    from Suc.hyps(1)[OF m _ inv' lf' lf' cardb f1 l2] c show ?thesis by simp
  qed
qed

lemma column_grouping2_eq:
  assumes wf: "wf_pattern (mat_ncols G) (mat_Ap G) (mat_Ai G)"
    and lc: "length col_g = mat_ncols G" and lf: "length filled = mat_ncols G"
  shows "fst (column_grouping2 G col_g filled) = fst (column_grouping G col_g filled) \<and>
         fst (snd (column_grouping2 G col_g filled)) = fst (snd (column_grouping G col_g filled))"
proof -
  let ?n = "mat_ncols G"
  obtain cg1 f1 r1 where a: "fold (group_from (mat_Ap G) (mat_Ai G) ?n) [0 ..< ?n]
       (replicate ?n (- 1), filled, int 0 - 1) = (cg1, f1, r1)"
    using prod_cases3 by blast
  obtain G2 cg2 f2 where b: "group_loop2 (mat_Ap G) (mat_Ai G) ?n 0 (replicate ?n (- 1)) filled = (G2, cg2, f2)"
    using prod_cases3 by blast
  have "card {j. j < ?n \<and> replicate ?n (- 1 :: int) ! j = - 1} + 0 \<le> ?n"
    by (metis (no_types, lifting) add.right_neutral card_Collect_less_nat card_mono finite_Collect_less_nat
        mem_Collect_eq subsetI)
  from grouping_loops_agree[OF wf _ _ lf lf this a b] cg_inv_init[of ?n "mat_Ap G" "mat_Ai G"]
  have "cg2 = cg1 \<and> int G2 - 1 = r1" by simp
  then show ?thesis
    using a b lc by (simp add: column_grouping_def column_grouping2_def reset_col_g_eq)
qed

section \<open>Pattern union builder: the transpose\<close>

lemma fold_incr_length:
  "length (fold (\<lambda>i w. w[g i := w ! g i + (1::int)]) is w) = length w"
  by (induction "is" arbitrary: w) simp_all

lemma fold_incr_nth:
  "r < length w \<Longrightarrow>
   fold (\<lambda>i w. w[g i := w ! g i + (1::int)]) is w ! r = w ! r + int (length (filter (\<lambda>i. g i = r) is))"
proof (induction "is" arbitrary: w)
  case Nil
  then show ?case by simp
next
  case (Cons i "is")
  have "r < length (w[g i := w ! g i + 1])" using Cons.prems by simp
  from Cons.IH[OF this] Cons.prems show ?case
    by (cases "g i = r") simp_all
qed

lemma count_rows_nth:
  "r < length w \<Longrightarrow> count_rows Bp Bi n w ! r = w ! r + int (row_count Bi [0 ..< nat (Bp ! n)] r)"
  unfolding count_rows_def row_count_def by (rule fold_incr_nth)

lemma count_rows_length: "length (count_rows Bp Bi n w) = length w"
  unfolding count_rows_def by (rule fold_incr_length)

lemma cumsum_fold:
  "k \<le> length w \<Longrightarrow> length Tp = length w \<Longrightarrow>
   fold cumsum_step [0 ..< k] (Tp, w, 0) = (Tp', w', nz) \<Longrightarrow>
   length Tp' = length w \<and> length w' = length w \<and> nz = (\<Sum>r<k. w ! r) \<and>
   (\<forall>j<k. Tp' ! j = (\<Sum>r<j. w ! r) \<and> w' ! j = (\<Sum>r<j. w ! r)) \<and>
   (\<forall>j. k \<le> j \<longrightarrow> w' ! j = w ! j)"
proof (induction k arbitrary: Tp' w' nz)
  case 0
  then show ?case by simp
next
  case (Suc k)
  obtain T1 w1 z1 where mid: "fold cumsum_step [0 ..< k] (Tp, w, 0) = (T1, w1, z1)"
    using prod_cases3 by blast
  from Suc.prems have k: "k \<le> length w" "k < length w" by simp_all
  from Suc.IH[OF k(1) Suc.prems(2) mid]
  have ih: "length T1 = length w" "length w1 = length w" "z1 = (\<Sum>r<k. w ! r)"
    "\<And>j. j < k \<Longrightarrow> T1 ! j = (\<Sum>r<j. w ! r) \<and> w1 ! j = (\<Sum>r<j. w ! r)"
    "\<And>j. k \<le> j \<Longrightarrow> w1 ! j = w ! j"
    by simp_all
  have "cumsum_step k (T1, w1, z1) = (Tp', w', nz)"
    using Suc.prems(3) mid by simp
  then have st: "Tp' = T1[k := z1]" "w' = w1[k := z1]" "nz = z1 + w1 ! k"
    by (simp_all add: cumsum_step_def)
  have a: "\<forall>j<Suc k. Tp' ! j = (\<Sum>r<j. w ! r) \<and> w' ! j = (\<Sum>r<j. w ! r)"
  proof (intro allI impI)
    fix j assume "j < Suc k"
    then show "Tp' ! j = (\<Sum>r<j. w ! r) \<and> w' ! j = (\<Sum>r<j. w ! r)"
      using ih k by (cases "j = k") (simp_all add: st)
  qed
  have b: "\<forall>j. Suc k \<le> j \<longrightarrow> w' ! j = w ! j"
    using ih(5) by (simp add: st)
  show ?case using ih(1,2,3) a b ih(5)[of k] by (simp add: st)
qed

lemma cumsum_result:
  assumes len: "length w = n + 1" and res: "cumsum n (replicate (n + 1) 0) w = (Tp, w')"
  shows "length Tp = n + 1" and "length w' = n + 1"
    and "\<And>j. j \<le> n \<Longrightarrow> Tp ! j = (\<Sum>r<j. w ! r)"
    and "\<And>j. j < n \<Longrightarrow> w' ! j = (\<Sum>r<j. w ! r)"
proof -
  obtain T1 z1 where mid: "fold cumsum_step [0 ..< n] (replicate (n + 1) 0, w, 0) = (T1, w', z1)"
    and Tp: "Tp = T1[n := z1]"
    using res by (auto simp: cumsum_def split: prod.splits)
  have "n \<le> length w" "length (replicate (n + 1) (0::int)) = length w" using len by simp_all
  from cumsum_fold[OF this mid]
  have f: "length T1 = n + 1" "length w' = n + 1" "z1 = (\<Sum>r<n. w ! r)"
    "\<And>j. j < n \<Longrightarrow> T1 ! j = (\<Sum>r<j. w ! r) \<and> w' ! j = (\<Sum>r<j. w ! r)"
    using len by simp_all
  show "length Tp = n + 1" "length w' = n + 1" using f Tp by simp_all
  show "Tp ! j = (\<Sum>r<j. w ! r)" if "j \<le> n" for j
    using that f by (cases "j = n") (simp_all add: Tp)
  show "w' ! j = (\<Sum>r<j. w ! r)" if "j < n" for j
    using that f by simp
qed

lemma row_upto_Suc:
  "m < length RJ \<Longrightarrow> row_upto RJ (Suc m) r = row_upto RJ m r + (if fst (RJ ! m) = r then 1 else 0)"
  by (simp add: row_upto_def take_Suc_conv_app_nth)

lemma row_upto_mono: "m \<le> m' \<Longrightarrow> row_upto RJ m r \<le> row_upto RJ m' r"
proof (induction m' arbitrary: m)
  case 0
  then show ?case by simp
next
  case (Suc m')
  show ?case
  proof (cases "m = Suc m'")
    case True
    then show ?thesis by simp
  next
    case False
    with Suc.prems have le: "m \<le> m'" by simp
    show ?thesis
    proof (cases "m' < length RJ")
      case True
      from Suc.IH[OF le] row_upto_Suc[OF True, of r] show ?thesis by simp
    next
      case False
      then have "take (Suc m') RJ = take m' RJ" by simp
      then show ?thesis using Suc.IH[OF le] by (simp add: row_upto_def)
    qed
  qed
qed

lemma row_upto_total: "length RJ \<le> m \<Longrightarrow> row_upto RJ m r = length (filter (\<lambda>e. fst e = r) RJ)"
  by (simp add: row_upto_def)

lemma row_upto_less:
  assumes "m < length RJ" "fst (RJ ! m) = r"
  shows "row_upto RJ m r < length (filter (\<lambda>e. fst e = r) RJ)"
proof -
  have "row_upto RJ (Suc m) r \<le> row_upto RJ (length RJ) r"
    using assms(1) by (intro row_upto_mono) simp
  then show ?thesis using row_upto_Suc[OF assms(1), of r] assms(2) by (simp add: row_upto_total)
qed

lemma bucket_base_Suc:
  "bucket_ok n base RJ \<Longrightarrow> r < n \<Longrightarrow> base (Suc r) = base r + length (filter (\<lambda>e. fst e = r) RJ)"
  by (simp add: bucket_ok_def list_all_iff)

lemma bucket_base_mono:
  assumes ok: "bucket_ok n base RJ"
  shows "r \<le> r' \<Longrightarrow> r' \<le> n \<Longrightarrow> base r \<le> base r'"
proof (induction r')
  case 0
  then show ?case by simp
next
  case (Suc r')
  show ?case
  proof (cases "r = Suc r'")
    case True
    then show ?thesis by simp
  next
    case False
    with Suc.prems have "r \<le> r'" "r' < n" by simp_all
    with Suc.IH bucket_base_Suc[OF ok, of r'] show ?thesis by simp
  qed
qed

lemma slot_bounds:
  assumes ok: "bucket_ok n base RJ" and m: "m < length RJ"
  shows "base (fst (RJ ! m)) \<le> slot base RJ m" and "slot base RJ m < base (Suc (fst (RJ ! m)))"
    and "fst (RJ ! m) < n"
proof -
  show r: "fst (RJ ! m) < n" using ok m by (simp add: bucket_ok_def list_all_length)
  show "base (fst (RJ ! m)) \<le> slot base RJ m" by (simp add: slot_def)
  show "slot base RJ m < base (Suc (fst (RJ ! m)))"
    using row_upto_less[OF m refl] bucket_base_Suc[OF ok r] by (simp add: slot_def)
qed

lemma slot_inj:
  assumes ok: "bucket_ok n base RJ" and m: "m < length RJ" and m': "m' < m"
  shows "slot base RJ m' \<noteq> slot base RJ m"
proof -
  let ?r = "fst (RJ ! m)" and ?r' = "fst (RJ ! m')"
  have ml: "m' < length RJ" using m m' by simp
  note b = slot_bounds[OF ok m] and b' = slot_bounds[OF ok ml]
  consider "?r' = ?r" | "?r' < ?r" | "?r < ?r'" by linarith
  then show ?thesis
  proof cases
    case 1
    have "row_upto RJ (Suc m') ?r \<le> row_upto RJ m ?r"
      using m' by (intro row_upto_mono) simp
    then have "row_upto RJ m' ?r < row_upto RJ m ?r"
      using row_upto_Suc[OF ml, of ?r] 1 by simp
    then show ?thesis using 1 by (simp add: slot_def)
  next
    case 2
    then have "base (Suc ?r') \<le> base ?r"
      using b(3) by (intro bucket_base_mono[OF ok]) simp_all
    then show ?thesis using b(1) b'(2) by simp
  next
    case 3
    then have "base (Suc ?r) \<le> base ?r'"
      using b'(3) by (intro bucket_base_mono[OF ok]) simp_all
    then show ?thesis using b(2) b'(1) by simp
  qed
qed

lemma bucket_fold:
  assumes ok: "bucket_ok n base RJ"
  shows "m \<le> length RJ \<Longrightarrow> n \<le> length w \<Longrightarrow> base n \<le> length Ti \<Longrightarrow>
     (\<forall>r<n. w ! r = int (base r)) \<Longrightarrow>
     fold bucket_step (take m RJ) (Ti, w) = (Ti', w') \<Longrightarrow>
     length Ti' = length Ti \<and> length w' = length w \<and>
     (\<forall>r<n. w' ! r = int (base r + row_upto RJ m r)) \<and>
     (\<forall>m'<m. Ti' ! slot base RJ m' = int (snd (RJ ! m')))"
proof (induction m arbitrary: Ti' w')
  case 0
  then show ?case by (simp add: row_upto_def)
next
  case (Suc m)
  then have m: "m < length RJ" by simp
  obtain T1 w1 where mid: "fold bucket_step (take m RJ) (Ti, w) = (T1, w1)" by fastforce
  from Suc.IH[OF _ Suc.prems(2,3,4) mid] m
  have ih: "length T1 = length Ti" "length w1 = length w"
    "\<And>r. r < n \<Longrightarrow> w1 ! r = int (base r + row_upto RJ m r)"
    "\<And>m'. m' < m \<Longrightarrow> T1 ! slot base RJ m' = int (snd (RJ ! m'))"
    by simp_all
  let ?r = "fst (RJ ! m)"
  note b = slot_bounds[OF ok m]
  have "bucket_step (RJ ! m) (T1, w1) = (Ti', w')"
    using Suc.prems(5) mid m by (simp add: take_Suc_conv_app_nth)
  then have st: "Ti' = T1[nat (w1 ! ?r) := int (snd (RJ ! m))]" "w' = w1[?r := w1 ! ?r + 1]"
    by (simp_all add: bucket_step_def)
  have pos: "nat (w1 ! ?r) = slot base RJ m"
    using ih(3)[OF b(3)] by (simp add: slot_def)
  have "base (Suc ?r) \<le> base n" using b(3) by (intro bucket_base_mono[OF ok]) simp_all
  then have inr: "slot base RJ m < length T1" using b(2) Suc.prems(3) ih(1) by simp
  have w: "\<forall>r<n. w' ! r = int (base r + row_upto RJ (Suc m) r)"
  proof (intro allI impI)
    fix r assume r: "r < n"
    have "r < length w1" using r Suc.prems(2) ih(2) by simp
    then show "w' ! r = int (base r + row_upto RJ (Suc m) r)"
      using ih(3)[OF r] row_upto_Suc[OF m, of r] by (cases "?r = r") (auto simp: st)
  qed
  have t: "\<forall>m'<Suc m. Ti' ! slot base RJ m' = int (snd (RJ ! m'))"
  proof (intro allI impI)
    fix m' assume "m' < Suc m"
    show "Ti' ! slot base RJ m' = int (snd (RJ ! m'))"
    proof (cases "m' = m")
      case True
      then show ?thesis using inr by (simp add: st pos)
    next
      case False
      with \<open>m' < Suc m\<close> have lt: "m' < m" by simp
      from slot_inj[OF ok m lt] ih(4)[OF lt] show ?thesis by (simp add: st pos)
    qed
  qed
  show ?case using ih(1,2) w t by (simp add: st)
qed

lemma bucket_segment:
  assumes ok: "bucket_ok n base RJ" and r: "r < n"
    and filled: "\<forall>m<length RJ. Ti ! slot base RJ m = int (snd (RJ ! m))"
  shows "(\<lambda>q. Ti ! q) ` {base r ..< base (Suc r)} = {int j | j. (r, j) \<in> set RJ}"
proof -
  let ?M = "{m. m < length RJ \<and> fst (RJ ! m) = r}"
  let ?S = "{base r ..< base (Suc r)}"
  have sub: "slot base RJ ` ?M \<subseteq> ?S"
    using slot_bounds[OF ok] by auto
  have inj: "inj_on (slot base RJ) ?M"
  proof (rule inj_onI)
    fix a b assume a: "a \<in> ?M" and b: "b \<in> ?M" and e: "slot base RJ a = slot base RJ b"
    show "a = b"
    proof (rule ccontr)
      assume "a \<noteq> b"
      then consider "a < b" | "b < a" by linarith
      then show False
        using slot_inj[OF ok, of b a] slot_inj[OF ok, of a b] a b e by cases auto
    qed
  qed
  have "card ?M = length (filter (\<lambda>e. fst e = r) RJ)"
    by (simp add: length_filter_conv_card)
  then have "card (slot base RJ ` ?M) = card ?S"
    using card_image[OF inj] bucket_base_Suc[OF ok r] by simp
  with sub have eq: "slot base RJ ` ?M = ?S"
    by (intro card_subset_eq) simp_all
  show ?thesis
  proof (intro equalityI subsetI)
    fix v assume "v \<in> (\<lambda>q. Ti ! q) ` ?S"
    then obtain q where q: "q \<in> ?S" "v = Ti ! q" by blast
    with eq obtain m where m: "m \<in> ?M" "q = slot base RJ m" by blast
    then have "v = int (snd (RJ ! m))" using filled q by simp
    moreover have "(r, snd (RJ ! m)) \<in> set RJ"
      using m(1) by (metis (mono_tags, lifting) mem_Collect_eq nth_mem prod.collapse)
    ultimately show "v \<in> {int j | j. (r, j) \<in> set RJ}" by blast
  next
    fix v assume "v \<in> {int j | j. (r, j) \<in> set RJ}"
    then obtain j where j: "v = int j" "(r, j) \<in> set RJ" by blast
    then obtain m where m: "m < length RJ" "RJ ! m = (r, j)" by (auto simp: in_set_conv_nth)
    then have "m \<in> ?M" by simp
    then have "slot base RJ m \<in> ?S" using sub by blast
    moreover have "Ti ! slot base RJ m = v" using filled m j by simp
    ultimately show "v \<in> (\<lambda>q. Ti ! q) ` ?S" by blast
  qed
qed

lemma fold_nested_concat: "fold (\<lambda>j s. fold f (g j) s) js s = fold f (concat (map g js)) s"
  by (induction js arbitrary: s) simp_all

lemma scatter_entry_bucket: "scatter_entry Bi j = (\<lambda>i. bucket_step (nat (Bi ! i), j))"
  by (intro ext) (simp add: scatter_entry_def bucket_step_def Let_def split: prod.splits)

lemma scatter_bucket: "scatter Bp Bi n Ti w = fold bucket_step (row_col Bp Bi n) (Ti, w)"
proof -
  have "fold (scatter_entry Bi j) is s = fold bucket_step (map (\<lambda>i. (nat (Bi ! i), j)) is) s" for j "is" s
    by (simp add: fold_map comp_def scatter_entry_bucket)
  then have "scatter Bp Bi n Ti w
     = fold (\<lambda>j s. fold bucket_step (map (\<lambda>i. (nat (Bi ! i), j)) (col_range Bp j)) s) [0 ..< n] (Ti, w)"
    by (simp add: scatter_def)
  also have "\<dots> = fold bucket_step (concat (map (\<lambda>j. map (\<lambda>i. (nat (Bi ! i), j)) (col_range Bp j)) [0 ..< n])) (Ti, w)"
    by (rule fold_nested_concat)
  also have "concat (map (\<lambda>j. map (\<lambda>i. (nat (Bi ! i), j)) (col_range Bp j)) [0 ..< n]) = row_col Bp Bi n"
    by (simp add: row_col_def entries_def map_concat comp_def)
  finally show ?thesis .
qed

lemma col_ranges_concat:
  assumes wf: "wf_pattern n Bp Bi"
  shows "k \<le> n \<Longrightarrow> concat (map (col_range Bp) [0 ..< k]) = [0 ..< nat (Bp ! k)]"
proof (induction k)
  case 0
  then show ?case using wf by (simp add: wf_pattern_def)
next
  case (Suc k)
  then have k: "k < n" by simp
  have "0 \<le> Bp ! k" using wf_pattern_mono[OF wf, of k] k by simp
  moreover have "Bp ! k \<le> Bp ! (k + 1)" using wf k by (simp add: wf_pattern_def)
  ultimately have "nat (Bp ! k) \<le> nat (Bp ! (k + 1))" by simp
  then have "[0 ..< nat (Bp ! k)] @ [nat (Bp ! k) ..< nat (Bp ! (k + 1))] = [0 ..< nat (Bp ! (k + 1))]"
    using upt_add_eq_append[of 0 "nat (Bp ! k)" "nat (Bp ! (k + 1)) - nat (Bp ! k)"] by simp
  then show ?case using Suc.IH k by (simp add: col_range_def)
qed

lemma entries_fst:
  assumes wf: "wf_pattern n Bp Bi"
  shows "map fst (entries Bp n) = [0 ..< nat (Bp ! n)]"
proof -
  have "map fst (entries Bp n) = concat (map (col_range Bp) [0 ..< n])"
    by (simp add: entries_def map_concat comp_def)
  then show ?thesis using col_ranges_concat[OF wf order_refl] by simp
qed

lemma row_col_count:
  assumes wf: "wf_pattern n Bp Bi"
  shows "length (filter (\<lambda>e. fst e = r) (row_col Bp Bi n)) = row_count Bi [0 ..< nat (Bp ! n)] r"
proof -
  have "length (filter (\<lambda>e. fst e = r) (row_col Bp Bi n))
          = length (filter (\<lambda>i. nat (Bi ! i) = r) (map fst (entries Bp n)))"
    by (simp add: row_col_def filter_map comp_def)
  then show ?thesis by (simp add: entries_fst[OF wf] row_count_def)
qed

lemma entries_mem: "(i, j) \<in> set (entries Bp n) \<longleftrightarrow> j < n \<and> i \<in> set (col_range Bp j)"
  by (auto simp: entries_def)

lemma row_col_mem:
  "(r, j) \<in> set (row_col Bp Bi n) \<longleftrightarrow> j < n \<and> (\<exists>i\<in>set (col_range Bp j). nat (Bi ! i) = r)"
proof
  assume "(r, j) \<in> set (row_col Bp Bi n)"
  then obtain e where "e \<in> set (entries Bp n)" "r = nat (Bi ! fst e)" "j = snd e"
    by (auto simp: row_col_def)
  then show "j < n \<and> (\<exists>i\<in>set (col_range Bp j). nat (Bi ! i) = r)"
    using entries_mem[of "fst e" "snd e" Bp n] by auto
next
  assume "j < n \<and> (\<exists>i\<in>set (col_range Bp j). nat (Bi ! i) = r)"
  then obtain i where "(i, j) \<in> set (entries Bp n)" "nat (Bi ! i) = r"
    using entries_mem[of _ j Bp n] by blast
  then show "(r, j) \<in> set (row_col Bp Bi n)"
    by (force simp: row_col_def)
qed

lemma row_col_bucket_ok:
  assumes wf: "wf_pattern n Bp Bi"
  shows "bucket_ok n (bucket_base Bp Bi n) (row_col Bp Bi n)"
proof -
  have "fst e < n" if "e \<in> set (row_col Bp Bi n)" for e
  proof -
    obtain r j where e: "e = (r, j)" by (cases e)
    with that row_col_mem[of r j Bp Bi n] obtain i where "j < n" "i \<in> set (col_range Bp j)" "nat (Bi ! i) = r"
      by blast
    with wf_pattern_row[OF wf this(1,2)] e show ?thesis by auto
  qed
  then have a: "list_all (\<lambda>e. fst e < n) (row_col Bp Bi n)" by (simp add: list_all_iff)
  have b: "list_all (\<lambda>r. bucket_base Bp Bi n (Suc r) = bucket_base Bp Bi n r
              + length (filter (\<lambda>e. fst e = r) (row_col Bp Bi n))) [0 ..< n]"
    by (simp add: list_all_iff bucket_base_def row_col_count[OF wf])
  show ?thesis unfolding bucket_ok_def using a b by simp
qed

lemma sum_filter_lengths:
  "\<forall>x\<in>set xs. f x < (n::nat) \<Longrightarrow> (\<Sum>r<n. length (filter (\<lambda>x. f x = r) xs)) = length xs"
proof (induction xs)
  case Nil
  then show ?case by simp
next
  case (Cons x xs)
  have "(\<Sum>r<n. length (filter (\<lambda>y. f y = r) (x # xs)))
          = (\<Sum>r<n. length (filter (\<lambda>y. f y = r) xs) + (if r = f x then 1 else 0))"
    by (intro sum.cong) auto
  also have "\<dots> = (\<Sum>r<n. length (filter (\<lambda>y. f y = r) xs)) + (\<Sum>r<n. if r = f x then 1 else 0)"
    by (simp add: sum.distrib)
  also have "(\<Sum>r<n. if r = f x then 1 else 0) = (1::nat)"
    by (subst sum.delta) (use Cons.prems in auto)
  finally show ?case using Cons by simp
qed

lemma bucket_base_total:
  assumes wf: "wf_pattern n Bp Bi"
  shows "bucket_base Bp Bi n n = nat (Bp ! n)"
proof -
  have "\<forall>i\<in>set [0 ..< nat (Bp ! n)]. nat (Bi ! i) < n"
    using wf by (auto simp: wf_pattern_def)
  from sum_filter_lengths[OF this] show ?thesis
    by (simp add: bucket_base_def row_count_def)
qed

lemma transpose_pattern:
  assumes wf: "wf_pattern n Bp Bi"
    and c: "cumsum n (replicate (n + 1) 0) (count_rows Bp Bi n (replicate (n + 1) 0)) = (Tp, w2)"
    and s: "scatter Bp Bi n (replicate (nat (Bp ! n)) 0) w2 = (Ti, w3)"
  shows "length Tp = n + 1" and "length w3 = n + 1" and "length Ti = nat (Bp ! n)"
    and "\<And>r. r \<le> n \<Longrightarrow> Tp ! r = int (bucket_base Bp Bi n r)"
    and "\<And>r. r < n \<Longrightarrow> set (col_rows Tp Ti r) = {int j | j. j < n \<and> int r \<in> set (col_rows Bp Bi j)}"
proof -
  let ?base = "bucket_base Bp Bi n" and ?RJ = "row_col Bp Bi n"
  define w1 where "w1 = count_rows Bp Bi n (replicate (n + 1) 0)"
  have l1: "length w1 = n + 1" by (simp add: w1_def count_rows_length)
  have w1: "w1 ! r = int (row_count Bi [0 ..< nat (Bp ! n)] r)" if "r \<le> n" for r
  proof -
    have z: "replicate (n + 1) (0::int) ! r = 0" using that by (intro nth_replicate) simp
    have "r < length (replicate (n + 1) (0::int))" using that by simp
    from count_rows_nth[OF this, of Bp Bi n] show ?thesis unfolding w1_def by (simp only: z)
  qed
  note cs = cumsum_result[OF l1 c[folded w1_def]]
  show lT: "length Tp = n + 1" by (rule cs(1))
  have sums: "(\<Sum>r'<r. w1 ! r') = int (?base r)" if "r \<le> n" for r
  proof -
    have "(\<Sum>r'<r. w1 ! r') = (\<Sum>r'<r. int (row_count Bi [0 ..< nat (Bp ! n)] r'))"
      using that by (intro sum.cong) (simp_all add: w1)
    then show ?thesis by (simp add: bucket_base_def)
  qed
  show Tp: "Tp ! r = int (?base r)" if "r \<le> n" for r
    using cs(3)[OF that] sums[OF that] by simp
  have w2: "\<forall>r<n. w2 ! r = int (?base r)"
    using cs(4) sums by simp
  note ok = row_col_bucket_ok[OF wf]
  have lRJ: "length ?RJ = nat (Bp ! n)"
    using entries_fst[OF wf] by (metis row_col_def length_map length_upt minus_nat.diff_0)
  have f: "fold bucket_step (take (length ?RJ) ?RJ) (replicate (nat (Bp ! n)) 0, w2) = (Ti, w3)"
    using s by (simp add: scatter_bucket)
  from bucket_fold[OF ok order_refl _ _ w2 f] cs(2) bucket_base_total[OF wf]
  have r: "length Ti = nat (Bp ! n)" "length w3 = n + 1"
    "\<forall>m<length ?RJ. Ti ! slot ?base ?RJ m = int (snd (?RJ ! m))"
    by simp_all
  show "length w3 = n + 1" "length Ti = nat (Bp ! n)" using r by simp_all
  show "set (col_rows Tp Ti r) = {int j | j. j < n \<and> int r \<in> set (col_rows Bp Bi j)}" if rn: "r < n" for r
  proof -
    have "set (col_rows Tp Ti r) = (\<lambda>q. Ti ! q) ` {?base r ..< ?base (Suc r)}"
      using Tp[of r] Tp[of "Suc r"] rn by (simp add: col_rows_def col_range_def)
    also have "\<dots> = {int j | j. (r, j) \<in> set ?RJ}"
      by (rule bucket_segment[OF ok rn r(3)])
    also have "\<dots> = {int j | j. j < n \<and> int r \<in> set (col_rows Bp Bi j)}"
    proof -
      have "(\<exists>i\<in>set (col_range Bp j). nat (Bi ! i) = r) \<longleftrightarrow> int r \<in> set (col_rows Bp Bi j)"
        if "j < n" for j
      proof
        assume "\<exists>i\<in>set (col_range Bp j). nat (Bi ! i) = r"
        then obtain i where i: "i \<in> set (col_range Bp j)" "nat (Bi ! i) = r" by blast
        with wf_pattern_row[OF wf that i(1)] have "Bi ! i = int r" by linarith
        then show "int r \<in> set (col_rows Bp Bi j)" using i(1) by (force simp: col_rows_def)
      next
        assume "int r \<in> set (col_rows Bp Bi j)"
        then obtain i where "i \<in> set (col_range Bp j)" "Bi ! i = int r"
          by (auto simp: col_rows_def)
        then have "i \<in> set (col_range Bp j)" "nat (Bi ! i) = r" by simp_all
        then show "\<exists>i\<in>set (col_range Bp j). nat (Bi ! i) = r" by blast
      qed
      then show ?thesis using row_col_mem[of r _ Bp Bi n] by auto
    qed
    finally show ?thesis .
  qed
qed

section \<open>Pattern union builder: the merge\<close>

lemma image_upt_Suc: "a < b \<Longrightarrow> f ` {a ..< b} = insert (f a) (f ` {Suc a ..< b})"
  by (metis atLeastLessThan_upt image_insert list.simps(15) set_upt upt_conv_Cons)

lemma merge_while_props:
  "merge_while Bi Ti a ae t te Ci nz = (a', t', Ci', nz') \<Longrightarrow> a \<le> ae \<Longrightarrow> t \<le> te \<Longrightarrow>
   nz + (ae - a) + (te - t) \<le> length Ci \<Longrightarrow>
   a \<le> a' \<and> a' \<le> ae \<and> t \<le> t' \<and> t' \<le> te \<and> nz \<le> nz' \<and>
   nz' + (ae - a') + (te - t') \<le> nz + (ae - a) + (te - t) \<and>
   length Ci' = length Ci \<and> (\<forall>q<nz. Ci' ! q = Ci ! q) \<and>
   (\<lambda>q. Ci' ! q) ` {nz ..< nz'} = (\<lambda>q. Bi ! q) ` {a ..< a'} \<union> (\<lambda>q. Ti ! q) ` {t ..< t'}"
proof (induction Bi Ti a ae t te Ci nz rule: merge_while.induct)
  case (1 Bi Ti a ae t te Ci nz)
  show ?case
  proof (cases "a < ae \<and> t < te")
    case False
    have "merge_while Bi Ti a ae t te Ci nz = (a, t, Ci, nz)"
      by (subst merge_while.simps) (simp only: False if_False)
    then have "a' = a" "t' = t" "Ci' = Ci" "nz' = nz"
      using "1.prems"(1) by simp_all
    then show ?thesis using "1.prems"(2,3) by simp
  next
    case True
    then have lt: "a < ae" "t < te" by simp_all
    have room: "nz < length Ci" using "1.prems"(4) lt by simp
    define v where "v = (if Bi ! a < Ti ! t then Bi ! a else if Ti ! t < Bi ! a then Ti ! t else Bi ! a)"
    define a1 where "a1 = (if Bi ! a < Ti ! t then a + 1 else if Ti ! t < Bi ! a then a else a + 1)"
    define t1 where "t1 = (if Bi ! a < Ti ! t then t else if Ti ! t < Bi ! a then t + 1 else t + 1)"
    have rec: "merge_while Bi Ti a1 ae t1 te (Ci[nz := v]) (nz + 1) = (a', t', Ci', nz')"
      using "1.prems"(1) True unfolding v_def a1_def t1_def
      by (subst (asm) merge_while.simps)
         (cases "Bi ! a < Ti ! t"; cases "Ti ! t < Bi ! a"; simp)
    have b1: "a1 \<le> ae" "t1 \<le> te" "a \<le> a1" "t \<le> t1" "a1 \<le> a + 1" "t1 \<le> t + 1" "a < a1 \<or> t < t1"
      using lt by (auto simp: a1_def t1_def)
    have room1: "nz + 1 + (ae - a1) + (te - t1) \<le> length (Ci[nz := v])"
      using "1.prems"(4) lt b1 by (auto simp: a1_def t1_def)
    have ih: "a1 \<le> a' \<and> a' \<le> ae \<and> t1 \<le> t' \<and> t' \<le> te \<and> nz + 1 \<le> nz' \<and>
       nz' + (ae - a') + (te - t') \<le> nz + 1 + (ae - a1) + (te - t1) \<and>
       length Ci' = length (Ci[nz := v]) \<and> (\<forall>q<nz + 1. Ci' ! q = Ci[nz := v] ! q) \<and>
       (\<lambda>q. Ci' ! q) ` {nz + 1 ..< nz'} = (\<lambda>q. Bi ! q) ` {a1 ..< a'} \<union> (\<lambda>q. Ti ! q) ` {t1 ..< t'}"
    proof (cases "Bi ! a < Ti ! t")
      case c1: True
      then have e: "a1 = a + 1" "t1 = t" "v = Bi ! a" by (simp_all add: a1_def t1_def v_def)
      show ?thesis
        using "1.IH"(1)[OF True c1 rec[unfolded e] b1(1)[unfolded e] b1(2)[unfolded e] room1[unfolded e]]
        unfolding e .
    next
      case c1: False
      show ?thesis
      proof (cases "Ti ! t < Bi ! a")
        case c2: True
        then have e: "a1 = a" "t1 = t + 1" "v = Ti ! t" using c1 by (simp_all add: a1_def t1_def v_def)
        show ?thesis
          using "1.IH"(2)[OF True c1 c2 rec[unfolded e] b1(1)[unfolded e] b1(2)[unfolded e] room1[unfolded e]]
          unfolding e .
      next
        case c2: False
        then have e: "a1 = a + 1" "t1 = t + 1" "v = Bi ! a" using c1 by (simp_all add: a1_def t1_def v_def)
        show ?thesis
          using "1.IH"(3)[OF True c1 c2 rec[unfolded e] b1(1)[unfolded e] b1(2)[unfolded e] room1[unfolded e]]
          unfolding e .
      qed
    qed
    have at: "Ci' ! nz = v" using ih room by simp
    have old: "\<forall>q<nz. Ci' ! q = Ci ! q" using ih by simp
    have vset: "insert v ((\<lambda>q. Bi ! q) ` {a1 ..< a'} \<union> (\<lambda>q. Ti ! q) ` {t1 ..< t'})
                 = (\<lambda>q. Bi ! q) ` {a ..< a'} \<union> (\<lambda>q. Ti ! q) ` {t ..< t'}"
    proof (cases "Bi ! a < Ti ! t")
      case c1: True
      then have e: "a1 = a + 1" "t1 = t" "v = Bi ! a" by (simp_all add: a1_def t1_def v_def)
      have "a < a'" using ih e by simp
      from image_upt_Suc[OF this, of "\<lambda>q. Bi ! q"] show ?thesis by (simp add: e)
    next
      case c1: False
      show ?thesis
      proof (cases "Ti ! t < Bi ! a")
        case c2: True
        then have e: "a1 = a" "t1 = t + 1" "v = Ti ! t" using c1 by (simp_all add: a1_def t1_def v_def)
        have "t < t'" using ih e by simp
        from image_upt_Suc[OF this, of "\<lambda>q. Ti ! q"] show ?thesis by (simp add: e)
      next
        case c2: False
        then have e: "a1 = a + 1" "t1 = t + 1" "v = Bi ! a" "Ti ! t = Bi ! a"
          using c1 by (simp_all add: a1_def t1_def v_def)
        have "a < a'" "t < t'" using ih e by simp_all
        from image_upt_Suc[OF this(1), of "\<lambda>q. Bi ! q"] image_upt_Suc[OF this(2), of "\<lambda>q. Ti ! q"]
        show ?thesis by (simp add: e)
      qed
    qed
    have "nz < nz'" using ih by simp
    from image_upt_Suc[OF this, of "\<lambda>q. Ci' ! q"]
    have img: "(\<lambda>q. Ci' ! q) ` {nz ..< nz'} = (\<lambda>q. Bi ! q) ` {a ..< a'} \<union> (\<lambda>q. Ti ! q) ` {t ..< t'}"
      using ih at vset by simp
    have cnt: "nz' + (ae - a') + (te - t') \<le> nz + (ae - a) + (te - t)"
      using ih b1 lt by linarith
    show ?thesis using ih b1 old img cnt by simp
  qed
qed

lemma copy_fold_props:
  "fold (\<lambda>p (Ci, nz). (Ci[nz := Xi ! p], nz + 1)) ps (Ci, nz) = (Ci', nz') \<Longrightarrow>
   nz + length ps \<le> length Ci \<Longrightarrow>
   nz' = nz + length ps \<and> length Ci' = length Ci \<and> (\<forall>q<nz. Ci' ! q = Ci ! q) \<and>
   map (\<lambda>q. Ci' ! q) [nz ..< nz'] = map (\<lambda>p. Xi ! p) ps"
proof (induction ps arbitrary: Ci nz)
  case Nil
  then show ?case by simp
next
  case (Cons p ps)
  have f: "fold (\<lambda>p (Ci, nz). (Ci[nz := Xi ! p], nz + 1)) ps (Ci[nz := Xi ! p], nz + 1) = (Ci', nz')"
    using Cons.prems(1) by simp
  have r: "nz + 1 + length ps \<le> length (Ci[nz := Xi ! p])" using Cons.prems(2) by simp
  note ih0 = Cons.IH[OF f r]
  have ih: "nz' = nz + 1 + length ps" "length Ci' = length Ci"
    "\<And>q. q < nz + 1 \<Longrightarrow> Ci' ! q = Ci[nz := Xi ! p] ! q"
    "map (\<lambda>q. Ci' ! q) [nz + 1 ..< nz'] = map (\<lambda>p. Xi ! p) ps"
    using ih0 by (blast, simp, blast, blast)
  have lt: "nz < length Ci" using Cons.prems(2) by simp
  have at: "Ci' ! nz = Xi ! p" using ih(3)[of nz] lt by simp
  have "nz < nz'" using ih(1) by simp
  then have "[nz ..< nz'] = nz # [Suc nz ..< nz']" by (rule upt_conv_Cons)
  then have "map (\<lambda>q. Ci' ! q) [nz ..< nz'] = Ci' ! nz # map (\<lambda>q. Ci' ! q) [nz + 1 ..< nz']"
    by (simp only: list.map Suc_eq_plus1)
  then have "map (\<lambda>q. Ci' ! q) [nz ..< nz'] = map (\<lambda>p. Xi ! p) (p # ps)"
    by (simp only: at ih(4) list.map)
  moreover have "\<forall>q<nz. Ci' ! q = Ci ! q" using ih(3) by simp
  ultimately show ?case using ih(1,2) by simp
qed

lemma copy_rest_props:
  assumes "copy_rest Xi ptr pend (Ci, nz) = (Ci', nz')" "nz + (pend - ptr) \<le> length Ci"
  shows "nz' = nz + (pend - ptr)" and "length Ci' = length Ci" and "\<forall>q<nz. Ci' ! q = Ci ! q"
    and "(\<lambda>q. Ci' ! q) ` {nz ..< nz'} = (\<lambda>p. Xi ! p) ` {ptr ..< pend}"
proof -
  have "nz + length [ptr ..< pend] \<le> length Ci" using assms(2) by simp
  note p0 = copy_fold_props[OF assms(1)[unfolded copy_rest_def] this]
  have p: "nz' = nz + (pend - ptr)" "length Ci' = length Ci" "\<forall>q<nz. Ci' ! q = Ci ! q"
    "map (\<lambda>q. Ci' ! q) [nz ..< nz'] = map (\<lambda>p. Xi ! p) [ptr ..< pend]"
    using p0 by (simp, blast, blast, blast)
  show "nz' = nz + (pend - ptr)" "length Ci' = length Ci" "\<forall>q<nz. Ci' ! q = Ci ! q"
    using p by simp_all
  have "set (map (\<lambda>q. Ci' ! q) [nz ..< nz']) = set (map (\<lambda>p. Xi ! p) [ptr ..< pend])"
    using p(4) by simp
  then show "(\<lambda>q. Ci' ! q) ` {nz ..< nz'} = (\<lambda>p. Xi ! p) ` {ptr ..< pend}" by simp
qed

lemma image_upt_split:
  "a \<le> b \<Longrightarrow> b \<le> c \<Longrightarrow> f ` {a ..< c} = f ` {a ..< b} \<union> f ` {b ..< (c::nat)}"
  by (metis image_Un ivl_disj_un_two(3))

lemma image_upt_cong:
  "(\<And>q. a \<le> q \<Longrightarrow> q < b \<Longrightarrow> f q = g q) \<Longrightarrow> f ` {a ..< b} = g ` {a ..< (b::nat)}"
  by (rule image_cong) simp_all

lemma merge_col_props:
  assumes m: "merge_col Bp Bi Tp Ti j (Cp, Ci, nz) = (Cp', Ci', nz')"
    and b: "0 \<le> Bp ! j" "Bp ! j \<le> Bp ! (j + 1)"
    and t: "0 \<le> Tp ! j" "Tp ! j \<le> Tp ! (j + 1)"
    and room: "nz + (nat (Bp ! (j + 1)) - nat (Bp ! j)) + (nat (Tp ! (j + 1)) - nat (Tp ! j)) \<le> length Ci"
  shows "Cp' = Cp[j + 1 := int nz']" and "length Ci' = length Ci" and "\<forall>q<nz. Ci' ! q = Ci ! q"
    and "nz \<le> nz'"
    and "nz' \<le> nz + (nat (Bp ! (j + 1)) - nat (Bp ! j)) + (nat (Tp ! (j + 1)) - nat (Tp ! j))"
    and "(\<lambda>q. Ci' ! q) ` {nz ..< nz'} = set (col_rows Bp Bi j) \<union> set (col_rows Tp Ti j)"
proof -
  let ?a = "nat (Bp ! j)" and ?ae = "nat (Bp ! (j + 1))" and ?t = "nat (Tp ! j)" and ?te = "nat (Tp ! (j + 1))"
  have le: "?a \<le> ?ae" "?t \<le> ?te" using b t by simp_all
  obtain a1 t1 Ci1 nz1 where mw: "merge_while Bi Ti ?a ?ae ?t ?te Ci nz = (a1, t1, Ci1, nz1)"
    by (metis prod_cases4)
  obtain Ci2 nz2 where c1: "copy_rest Bi a1 ?ae (Ci1, nz1) = (Ci2, nz2)" by (metis surj_pair)
  obtain Ci3 nz3 where c2: "copy_rest Ti t1 ?te (Ci2, nz2) = (Ci3, nz3)" by (metis surj_pair)
  have "(Cp[j + 1 := int nz3], Ci3, nz3) = (Cp', Ci', nz')"
    using m by (simp only: merge_col_def prod.case mw c1 c2)
  then have res: "Cp' = Cp[j + 1 := int nz3]" "Ci' = Ci3" "nz' = nz3"
    by auto
  note p = merge_while_props[OF mw le room]
  have p1: "?a \<le> a1" "a1 \<le> ?ae" "?t \<le> t1" "t1 \<le> ?te" "nz \<le> nz1"
    "nz1 + (?ae - a1) + (?te - t1) \<le> nz + (?ae - ?a) + (?te - ?t)"
    "length Ci1 = length Ci" "\<forall>q<nz. Ci1 ! q = Ci ! q"
    "(\<lambda>q. Ci1 ! q) ` {nz ..< nz1} = (\<lambda>q. Bi ! q) ` {?a ..< a1} \<union> (\<lambda>q. Ti ! q) ` {?t ..< t1}"
    using p by blast+
  have r1: "nz1 + (?ae - a1) \<le> length Ci1" using p1(6,7) room by linarith
  note q = copy_rest_props[OF c1 r1]
  have r2: "nz2 + (?te - t1) \<le> length Ci2" using q(1,2) p1(6,7) room by linarith
  note r = copy_rest_props[OF c2 r2]
  show "Cp' = Cp[j + 1 := int nz']" using res by simp
  show "length Ci' = length Ci" using res r(2) q(2) p1(7) by simp
  show "\<forall>q<nz. Ci' ! q = Ci ! q" using res r(3) q(3) p1(8) p1(5) q(1) by simp
  show "nz \<le> nz'" using res r(1) q(1) p1(5) by simp
  show "nz' \<le> nz + (?ae - ?a) + (?te - ?t)" using res r(1) q(1) p1(6) by simp
  have s1: "(\<lambda>q. Ci3 ! q) ` {nz ..< nz1} = (\<lambda>q. Ci1 ! q) ` {nz ..< nz1}"
    by (rule image_upt_cong) (use r(3) q(3) q(1) in simp)
  have s2: "(\<lambda>q. Ci3 ! q) ` {nz1 ..< nz2} = (\<lambda>q. Ci2 ! q) ` {nz1 ..< nz2}"
    by (rule image_upt_cong) (use r(3) in simp)
  have "(\<lambda>q. Ci3 ! q) ` {nz ..< nz3}
      = (\<lambda>q. Ci3 ! q) ` {nz ..< nz1} \<union> (\<lambda>q. Ci3 ! q) ` {nz1 ..< nz2} \<union> (\<lambda>q. Ci3 ! q) ` {nz2 ..< nz3}"
    using image_upt_split[of nz nz2 nz3 "\<lambda>q. Ci3 ! q"] image_upt_split[of nz nz1 nz2 "\<lambda>q. Ci3 ! q"]
      p1(5) q(1) r(1) by simp
  also have "\<dots> = ((\<lambda>q. Bi ! q) ` {?a ..< a1} \<union> (\<lambda>q. Ti ! q) ` {?t ..< t1})
      \<union> (\<lambda>q. Bi ! q) ` {a1 ..< ?ae} \<union> (\<lambda>q. Ti ! q) ` {t1 ..< ?te}"
    by (simp only: s1 s2 p1(9) q(4) r(4))
  also have "\<dots> = (\<lambda>q. Bi ! q) ` {?a ..< ?ae} \<union> (\<lambda>q. Ti ! q) ` {?t ..< ?te}"
    using image_upt_split[OF p1(1,2), of "\<lambda>q. Bi ! q"] image_upt_split[OF p1(3,4), of "\<lambda>q. Ti ! q"]
    by (simp only: Un_ac)
  finally show "(\<lambda>q. Ci' ! q) ` {nz ..< nz'} = set (col_rows Bp Bi j) \<union> set (col_rows Tp Ti j)"
    by (simp add: res col_rows_def col_range_def)
qed

lemma ptr_chain_mono:
  assumes "\<forall>j<n. X ! j \<le> (X ! (j + 1) :: int)"
  shows "i \<le> k \<Longrightarrow> k \<le> n \<Longrightarrow> X ! i \<le> X ! k"
proof (induction k)
  case 0
  then show ?case by simp
next
  case (Suc k)
  show ?case
  proof (cases "i = Suc k")
    case True
    then show ?thesis by simp
  next
    case False
    then have "X ! i \<le> X ! k" using Suc by simp
    moreover have "X ! k \<le> X ! (k + 1)" using assms Suc.prems by simp
    ultimately show ?thesis by simp
  qed
qed

lemma merge_fold_inv:
  assumes bm: "\<forall>j<n. Bp ! j \<le> Bp ! (j + 1)" and b0: "0 \<le> Bp ! 0"
    and tm: "\<forall>j<n. Tp ! j \<le> Tp ! (j + 1)" and t0: "0 \<le> Tp ! 0"
    and l0: "length Cp0 = n + 1" and z0: "Cp0 ! 0 = 0"
    and cap: "nat (Bp ! n) + nat (Tp ! n) \<le> length Ci0"
  shows "k \<le> n \<Longrightarrow> fold (merge_col Bp Bi Tp Ti) [0 ..< k] (Cp0, Ci0, 0) = (Cp, Ci, nz) \<Longrightarrow>
     length Cp = n + 1 \<and> length Ci = length Ci0 \<and> Cp ! k = int nz \<and>
     nz \<le> nat (Bp ! k) + nat (Tp ! k) \<and>
     (\<forall>j\<le>k. 0 \<le> Cp ! j \<and> Cp ! j \<le> int nz) \<and>
     (\<forall>j<k. Cp ! j \<le> Cp ! (j + 1) \<and>
        (\<lambda>q. Ci ! q) ` {nat (Cp ! j) ..< nat (Cp ! (j + 1))}
          = set (col_rows Bp Bi j) \<union> set (col_rows Tp Ti j))"
proof (induction k arbitrary: Cp Ci nz)
  case 0
  then show ?case using l0 z0 by auto
next
  case (Suc k)
  obtain Cp1 Ci1 nz1 where f: "fold (merge_col Bp Bi Tp Ti) [0 ..< k] (Cp0, Ci0, 0) = (Cp1, Ci1, nz1)"
    by (metis prod_cases3)
  have kn: "k < n" "k \<le> n" using Suc.prems(1) by simp_all
  note ih0 = Suc.IH[OF kn(2) f]
  have ih: "length Cp1 = n + 1" "length Ci1 = length Ci0" "Cp1 ! k = int nz1"
    "nz1 \<le> nat (Bp ! k) + nat (Tp ! k)"
    "\<And>j. j \<le> k \<Longrightarrow> 0 \<le> Cp1 ! j \<and> Cp1 ! j \<le> int nz1"
    "\<And>j. j < k \<Longrightarrow> Cp1 ! j \<le> Cp1 ! (j + 1) \<and>
        (\<lambda>q. Ci1 ! q) ` {nat (Cp1 ! j) ..< nat (Cp1 ! (j + 1))}
          = set (col_rows Bp Bi j) \<union> set (col_rows Tp Ti j)"
    using ih0 by blast+
  have m: "merge_col Bp Bi Tp Ti k (Cp1, Ci1, nz1) = (Cp, Ci, nz)"
    using Suc.prems(2) f by simp
  have bk: "0 \<le> Bp ! k" "Bp ! k \<le> Bp ! (k + 1)" "Bp ! (k + 1) \<le> Bp ! n"
    using ptr_chain_mono[OF bm, of 0 k] ptr_chain_mono[OF bm, of "k + 1" n] b0 bm kn by simp_all
  have tk: "0 \<le> Tp ! k" "Tp ! k \<le> Tp ! (k + 1)" "Tp ! (k + 1) \<le> Tp ! n"
    using ptr_chain_mono[OF tm, of 0 k] ptr_chain_mono[OF tm, of "k + 1" n] t0 tm kn by simp_all
  have room: "nz1 + (nat (Bp ! (k + 1)) - nat (Bp ! k)) + (nat (Tp ! (k + 1)) - nat (Tp ! k)) \<le> length Ci1"
    using ih(2,4) bk tk cap by linarith
  note mp = merge_col_props[OF m bk(1,2) tk(1,2) room]
  have cpk: "Cp ! (k + 1) = int nz" using mp(1) ih(1) kn by simp
  have cpo: "Cp ! j = Cp1 ! j" if "j \<le> k" for j using mp(1) that by simp
  have bound: "nz \<le> nat (Bp ! Suc k) + nat (Tp ! Suc k)"
    using mp(5) ih(4) bk tk by simp
  have rng: "0 \<le> Cp ! j \<and> Cp ! j \<le> int nz" if "j \<le> Suc k" for j
  proof (cases "j = Suc k")
    case True
    then show ?thesis using cpk by simp
  next
    case False
    then have "j \<le> k" using that by simp
    then show ?thesis using cpo[of j] ih(5)[of j] mp(4) by simp
  qed
  have seg: "Cp ! j \<le> Cp ! (j + 1) \<and>
        (\<lambda>q. Ci ! q) ` {nat (Cp ! j) ..< nat (Cp ! (j + 1))}
          = set (col_rows Bp Bi j) \<union> set (col_rows Tp Ti j)" if "j < Suc k" for j
  proof (cases "j = k")
    case True
    have "Cp ! k = int nz1" using cpo[of k] ih(3) by simp
    then show ?thesis using True cpk mp(4,6) by simp
  next
    case False
    then have jk: "j < k" using that by simp
    then have e: "Cp ! j = Cp1 ! j" "Cp ! (j + 1) = Cp1 ! (j + 1)"
      using cpo[of j] cpo[of "j + 1"] by simp_all
    have up: "nat (Cp1 ! (j + 1)) \<le> nz1" using ih(5)[of "j + 1"] jk by simp linarith
    have "(\<lambda>q. Ci ! q) ` {nat (Cp1 ! j) ..< nat (Cp1 ! (j + 1))}
        = (\<lambda>q. Ci1 ! q) ` {nat (Cp1 ! j) ..< nat (Cp1 ! (j + 1))}"
      by (rule image_upt_cong) (use mp(3) up in simp)
    then show ?thesis using ih(6)[OF jk] e by simp
  qed
  show ?case
    using mp(2) ih(1,2) mp(1) cpk bound rng seg by simp
qed

lemma pattern_union_cols:
  assumes wf: "wf_pattern n Bp Bi" and j: "j < n"
    and g: "get_pattern_A_plus_AT Bp Bi n = (Cp, Ci)"
  shows "set (col_rows Cp Ci j)
         = set (col_rows Bp Bi j) \<union> {int i | i. i < n \<and> int j \<in> set (col_rows Bp Bi i)}"
proof -
  obtain Tp w2 where c: "cumsum n (replicate (n + 1) 0) (count_rows Bp Bi n (replicate (n + 1) 0)) = (Tp, w2)"
    by (metis surj_pair)
  obtain Ti w3 where s: "scatter Bp Bi n (replicate (nat (Bp ! n)) 0) w2 = (Ti, w3)"
    by (metis surj_pair)
  obtain Cp1 Ci1 nz where f: "fold (merge_col Bp Bi Tp Ti) [0 ..< n]
      (w3[0 := 0], replicate (2 * nat (Bp ! n)) 0, 0) = (Cp1, Ci1, nz)"
    by (metis prod_cases3)
  let ?m = "nz + nz div 5 + 2 * n"
  have "(Cp1, take ?m (Ci1 @ replicate ?m 0)) = (Cp, Ci)"
    using g by (simp only: get_pattern_A_plus_AT_def Let_def c s f prod.case)
  then have out: "Cp = Cp1" "Ci = take ?m (Ci1 @ replicate ?m 0)" by auto
  note tp = transpose_pattern[OF wf c s]
  have bm: "\<forall>j<n. Bp ! j \<le> Bp ! (j + 1)" and b0: "0 \<le> Bp ! 0"
    using wf by (simp_all add: wf_pattern_def)
  have tm: "\<forall>j<n. Tp ! j \<le> Tp ! (j + 1)"
  proof (intro allI impI)
    fix r assume "r < n"
    then have "Tp ! r = int (bucket_base Bp Bi n r)" "Tp ! (r + 1) = int (bucket_base Bp Bi n (r + 1))"
      using tp(4)[of r] tp(4)[of "r + 1"] by simp_all
    then show "Tp ! r \<le> Tp ! (r + 1)" by (simp add: bucket_base_def)
  qed
  have t0: "0 \<le> Tp ! 0" using tp(4)[of 0] by simp
  have tn: "nat (Tp ! n) = nat (Bp ! n)" using tp(4)[of n] bucket_base_total[OF wf] by simp
  have l0: "length (w3[0 := 0]) = n + 1" using tp(2) by simp
  have z0: "w3[0 := 0] ! 0 = 0" using tp(2) by simp
  have cap: "nat (Bp ! n) + nat (Tp ! n) \<le> length (replicate (2 * nat (Bp ! n)) (0::int))"
    using tn by simp
  note inv0 = merge_fold_inv[OF bm b0 tm t0 l0 z0 cap order_refl f]
  have inv: "length Ci1 = 2 * nat (Bp ! n)" "nz \<le> nat (Bp ! n) + nat (Tp ! n)"
    "\<And>i. i \<le> n \<Longrightarrow> 0 \<le> Cp1 ! i \<and> Cp1 ! i \<le> int nz"
    "\<And>i. i < n \<Longrightarrow> (\<lambda>q. Ci1 ! q) ` {nat (Cp1 ! i) ..< nat (Cp1 ! (i + 1))}
          = set (col_rows Bp Bi i) \<union> set (col_rows Tp Ti i)"
    using inv0 by simp_all
  have nzl: "nz \<le> length Ci1" using inv(1,2) tn by simp
  have up: "nat (Cp1 ! (j + 1)) \<le> nz" using inv(3)[of "j + 1"] j by simp linarith
  have keep: "Ci ! q = Ci1 ! q" if "q < nat (Cp1 ! (j + 1))" for q
  proof -
    have "q < nz" using that up by simp
    then show ?thesis using nzl by (simp add: out nth_append)
  qed
  have "set (col_rows Cp Ci j) = (\<lambda>q. Ci ! q) ` {nat (Cp1 ! j) ..< nat (Cp1 ! (j + 1))}"
    by (simp add: col_rows_def col_range_def out(1))
  also have "\<dots> = (\<lambda>q. Ci1 ! q) ` {nat (Cp1 ! j) ..< nat (Cp1 ! (j + 1))}"
    by (rule image_upt_cong) (use keep in simp)
  also have "\<dots> = set (col_rows Bp Bi j) \<union> set (col_rows Tp Ti j)"
    using inv(4)[OF j] .
  also have "\<dots> = set (col_rows Bp Bi j) \<union> {int i | i. i < n \<and> int j \<in> set (col_rows Bp Bi i)}"
    by (simp only: tp(5)[OF j])
  finally show ?thesis .
qed

section \<open>Reachability: proofs\<close>

lemma SPFLIP_SPFLIP: "SPFLIP (SPFLIP i) = i"
  by (simp add: SPFLIP_def)

lemma SPFLIP_neg: "0 \<le> i \<Longrightarrow> SPFLIP i < 0"
  by (simp add: SPFLIP_def)

lemma SPUNFLIP_cases: "0 \<le> v \<Longrightarrow> w = v \<or> w = SPFLIP v \<Longrightarrow> SPUNFLIP w = v"
  by (auto simp: SPUNFLIP_def SPFLIP_def)

lemma stack_of_push:
  assumes "1 \<le> tp" "tp \<le> int (length xik)"
  shows "stack_of (tp - 1) (xik[nat (tp - 1) := j]) = j # stack_of tp xik"
proof -
  have a: "nat (tp - 1) < length xik" and b: "Suc (nat (tp - 1)) = nat tp"
    using assms by linarith+
  have "drop (nat (tp - 1)) (xik[nat (tp - 1) := j]) = j # drop (Suc (nat (tp - 1))) xik"
    using a by (metis Cons_nth_drop_Suc drop_update_cancel length_list_update lessI nth_list_update_eq)
  then show ?thesis by (simp add: stack_of_def b)
qed

lemma dfs_inv_card:
  assumes "dfs_inv n Gp0 Op Gp tp xik"
  shows "int (card Op) \<le> tp" and "finite Op"
proof -
  let ?S = "set (stack_of tp xik)"
  have fin: "finite Op" using assms by (auto simp: dfs_inv_def intro: finite_subset[of _ "{..<n}"])
  have len: "length (stack_of tp xik) = n - nat tp"
    using assms by (simp add: dfs_inv_def stack_of_def)
  have nn: "\<forall>v\<in>?S. 0 \<le> v" using assms by (simp add: dfs_inv_def)
  have "inj_on nat ?S" unfolding inj_on_def using nn by (meson eq_nat_nat_iff)
  then have c1: "card (nat ` ?S) = n - nat tp"
    using assms len by (simp add: card_image dfs_inv_def distinct_card)
  have disj: "nat ` ?S \<inter> Op = {}" using assms by (auto simp: dfs_inv_def)
  have sub: "nat ` ?S \<union> Op \<subseteq> {..<n}" using assms by (auto simp: dfs_inv_def)
  have "card (nat ` ?S \<union> Op) = card (nat ` ?S) + card Op"
    using disj fin by (simp add: card_Un_disjoint)
  moreover have "card (nat ` ?S \<union> Op) \<le> n"
    using card_mono[OF _ sub] by simp
  ultimately have "n - nat tp + card Op \<le> n" using c1 by simp
  moreover have "0 \<le> tp" "tp \<le> int n" using assms by (simp_all add: dfs_inv_def)
  ultimately show "int (card Op) \<le> tp" by linarith
  show "finite Op" by (rule fin)
qed

lemma dfs_inv_unflip:
  assumes "graph_ok n k lnz Gp0 Gi pinv" "dfs_inv n Gp0 Op Gp tp xik" "i \<le> n"
  shows "SPUNFLIP (Gp ! i) = Gp0 ! i"
proof -
  have "0 \<le> Gp0 ! i" using assms by (simp add: graph_ok_def)
  moreover have "Gp ! i = Gp0 ! i \<or> Gp ! i = SPFLIP (Gp0 ! i)"
    using assms(2,3) by (simp add: dfs_inv_def)
  ultimately show ?thesis by (rule SPUNFLIP_cases)
qed

lemma dfs_inv_marked:
  assumes g: "graph_ok n k lnz Gp0 Gi pinv" and inv: "dfs_inv n Gp0 Op Gp tp xik"
    and j: "0 \<le> j" "j < int n"
  shows "SPMARKED Gp j \<longleftrightarrow> nat j \<in> Op \<or> j \<in> set (stack_of tp xik)"
proof -
  have n: "nat j \<le> n" "int (nat j) = j" using j by simp_all
  have "0 \<le> Gp0 ! nat j" using g n by (simp add: graph_ok_def)
  then have "SPFLIP (Gp0 ! nat j) < 0" by (rule SPFLIP_neg)
  moreover have "Gp ! nat j = (if nat j \<in> Op \<or> j \<in> set (stack_of tp xik)
                               then SPFLIP (Gp0 ! nat j) else Gp0 ! nat j)"
    using inv n by (simp add: dfs_inv_def)
  ultimately show ?thesis using \<open>0 \<le> Gp0 ! nat j\<close> by (simp add: SPMARKED_def)
qed

lemma dfs_inv_mark:
  assumes g: "graph_ok n k lnz Gp0 Gi pinv" and inv: "dfs_inv n Gp0 Op Gp tp xik"
    and j: "0 \<le> j" "j < int n" and un: "\<not> SPMARKED Gp j"
  shows "dfs_inv n Gp0 (insert (nat j) Op) (SPMARK Gp j) tp xik" and "nat j \<notin> Op"
    and "j \<notin> set (stack_of tp xik)"
proof -
  from dfs_inv_marked[OF g inv j] un
  show notin: "nat j \<notin> Op" and nst: "j \<notin> set (stack_of tp xik)" by simp_all
  have n: "nat j < n" using j by linarith
  have len: "length Gp = n + 1" using inv by (simp add: dfs_inv_def)
  have cur: "Gp ! nat j = Gp0 ! nat j"
    using inv n notin nst j by (simp add: dfs_inv_def)
  have pt: "SPMARK Gp j ! i = (if i \<in> insert (nat j) Op \<or> int i \<in> set (stack_of tp xik)
                               then SPFLIP (Gp0 ! i) else Gp0 ! i)" if "i \<le> n" for i
  proof (cases "i = nat j")
    case True
    then show ?thesis using len n cur by (simp add: SPMARK_def)
  next
    case False
    then show ?thesis using inv that by (simp add: SPMARK_def dfs_inv_def)
  qed
  have st: "\<forall>v\<in>set (stack_of tp xik). 0 \<le> v \<and> v < int n \<and> nat v \<notin> insert (nat j) Op"
  proof
    fix v assume v: "v \<in> set (stack_of tp xik)"
    then have a: "0 \<le> v \<and> v < int n \<and> nat v \<notin> Op" using inv by (simp add: dfs_inv_def)
    moreover have "v \<noteq> j" using v nst by auto
    then have "nat v \<noteq> nat j" using a j by (simp add: eq_nat_nat_iff)
    ultimately show "0 \<le> v \<and> v < int n \<and> nat v \<notin> insert (nat j) Op" by simp
  qed
  show "dfs_inv n Gp0 (insert (nat j) Op) (SPMARK Gp j) tp xik"
    unfolding dfs_inv_def using inv n st pt by (simp add: dfs_inv_def SPMARK_def)
qed

lemma dfs_inv_push:
  assumes inv: "dfs_inv n Gp0 (insert (nat j) Op) Gp tp xik"
    and j: "0 \<le> j" "j < int n" and notin: "nat j \<notin> Op"
  shows "dfs_inv n Gp0 Op Gp (tp - 1) (xik[nat (tp - 1) := j])" and "1 \<le> tp"
proof -
  from dfs_inv_card[OF inv] notin show tp: "1 \<le> tp" by simp
  have len: "length xik = n" and hi: "tp \<le> int n" using inv by (simp_all add: dfs_inv_def)
  have st: "stack_of (tp - 1) (xik[nat (tp - 1) := j]) = j # stack_of tp xik"
    using stack_of_push[OF tp] hi len by simp
  have jn: "j \<notin> set (stack_of tp xik)" using inv by (auto simp: dfs_inv_def)
  have pt: "\<forall>i\<le>n. Gp ! i = (if i \<in> Op \<or> int i \<in> set (j # stack_of tp xik)
                               then SPFLIP (Gp0 ! i) else Gp0 ! i)"
  proof (intro allI impI)
    fix i assume i: "i \<le> n"
    have "(i \<in> insert (nat j) Op \<or> int i \<in> set (stack_of tp xik))
            \<longleftrightarrow> (i \<in> Op \<or> int i \<in> set (j # stack_of tp xik))"
      using j by auto
    then show "Gp ! i = (if i \<in> Op \<or> int i \<in> set (j # stack_of tp xik)
                               then SPFLIP (Gp0 ! i) else Gp0 ! i)"
      using inv i unfolding dfs_inv_def by presburger
  qed
  show "dfs_inv n Gp0 Op Gp (tp - 1) (xik[nat (tp - 1) := j])"
    unfolding dfs_inv_def st using inv tp j notin jn pt by (auto simp: dfs_inv_def)
qed


lemma dfsr_correct:
  "graph_ok n k lnz Gp0 Gi pinv \<Longrightarrow> dfs_inv n Gp0 Op Gp tp xik \<Longrightarrow> 0 \<le> j \<Longrightarrow> j < int n \<Longrightarrow>
     \<not> SPMARKED Gp j \<Longrightarrow> tp \<le> int fuel + int (card Op) \<Longrightarrow>
     \<exists>Gp' tp' xik'. dfsr fuel j Gi pinv Gp tp xik = Some (Gp', tp', xik') \<and>
        dfs_inv n Gp0 Op Gp' tp' xik' \<and> tp' \<le> tp"
  and dfsr_nbrs_correct:
  "graph_ok n k lnz Gp0 Gi pinv \<Longrightarrow> dfs_inv n Gp0 Op Gp tp xik \<Longrightarrow> \<forall>p\<in>set ps. p < lnz \<Longrightarrow>
     tp \<le> int fuel + int (card Op) \<Longrightarrow>
     \<exists>Gp' tp' xik'. dfsr_nbrs fuel ps Gi pinv Gp tp xik = Some (Gp', tp', xik') \<and>
        dfs_inv n Gp0 Op Gp' tp' xik' \<and> tp' \<le> tp"
proof (induction fuel j Gi pinv Gp tp xik and fuel ps Gi pinv Gp tp xik arbitrary: Op and Op
       rule: dfsr_dfsr_nbrs.induct)
  case (1 j Gi pinv Gp tp xik)
  from dfs_inv_mark[OF "1.prems"(1,2,3,4,5)]
  have inv1: "dfs_inv n Gp0 (insert (nat j) Op) (SPMARK Gp j) tp xik" and notin: "nat j \<notin> Op"
    by simp_all
  from dfs_inv_card[OF inv1] dfs_inv_card(2)[OF "1.prems"(2)] notin
  have "int (card Op) + 1 \<le> tp" by simp
  with "1.prems"(6) show ?case by simp
next
  case (2 fuel j Gi pinv Gp tp xik)
  note g = "2.prems"(1) and inv = "2.prems"(2) and j = "2.prems"(3,4)
  define Gp1 where "Gp1 = SPMARK Gp j"
  define jnew where "jnew = pinv ! nat j"
  from dfs_inv_mark[OF g inv j "2.prems"(5)]
  have inv1: "dfs_inv n Gp0 (insert (nat j) Op) Gp1 tp xik" and notin: "nat j \<notin> Op"
    by (simp_all add: Gp1_def)
  have fin: "finite Op" by (rule dfs_inv_card(2)[OF inv])
  have fuel1: "tp \<le> int fuel + int (card (insert (nat j) Op))"
    using "2.prems"(6) notin fin by simp
  show ?case
  proof (cases "0 \<le> jnew")
    case False
    from dfs_inv_push[OF inv1 j notin]
    have "dfs_inv n Gp0 Op Gp1 (tp - 1) (xik[nat (tp - 1) := j])" by simp
    then show ?thesis using False by (simp add: jnew_def Gp1_def Let_def)
  next
    case True
    define ps where "ps = [nat (SPUNFLIP (Gp1 ! nat jnew)) ..< nat (SPUNFLIP (Gp1 ! nat (jnew + 1)))]"
    have nj: "nat j < n" using j by linarith
    then have "jnew < int k" using g by (simp add: graph_ok_def jnew_def)
    moreover have "k \<le> n" using g by (simp add: graph_ok_def)
    ultimately have b: "nat (jnew + 1) \<le> k" "nat (jnew + 1) \<le> n" using True by linarith+
    have "SPUNFLIP (Gp1 ! nat (jnew + 1)) = Gp0 ! nat (jnew + 1)"
      by (rule dfs_inv_unflip[OF g inv1 b(2)])
    moreover have "Gp0 ! nat (jnew + 1) \<le> int lnz" using g b(1) by (simp add: graph_ok_def)
    ultimately have psb: "\<forall>p\<in>set ps. p < lnz" by (auto simp: ps_def)
    from "2.IH"[OF jnew_def Gp1_def True g inv1, folded ps_def, OF psb fuel1]
    obtain Gp2 tp2 xik2 where r: "dfsr_nbrs fuel ps Gi pinv Gp1 tp xik = Some (Gp2, tp2, xik2)"
      and inv2: "dfs_inv n Gp0 (insert (nat j) Op) Gp2 tp2 xik2" and le: "tp2 \<le> tp" by blast
    from dfs_inv_push[OF inv2 j notin]
    have "dfs_inv n Gp0 Op Gp2 (tp2 - 1) (xik2[nat (tp2 - 1) := j])" by simp
    then show ?thesis
      using True r le by (simp add: jnew_def[symmetric] Gp1_def[symmetric] ps_def[symmetric] Let_def)
  qed
next
  case (3 fuel Gi pinv Gp tp xik)
  then show ?case by simp
next
  case (4 fuel p ps Gi pinv Gp tp xik)
  note g = "4.prems"(1) and inv = "4.prems"(2)
  define i where "i = Gi ! p"
  have p: "p < lnz" and rest: "\<forall>p\<in>set ps. p < lnz" using "4.prems"(3) by simp_all
  then have ir: "0 \<le> i" "i < int n" using g by (simp_all add: graph_ok_def i_def)
  show ?case
  proof (cases "SPMARKED Gp i")
    case True
    from "4.IH"(3)[OF i_def _ g inv rest "4.prems"(4)] True
    show ?thesis by (simp add: i_def[symmetric])
  next
    case False
    from "4.IH"(1)[OF i_def False g inv ir False "4.prems"(4)]
    obtain Gp1 tp1 xik1 where r: "dfsr fuel i Gi pinv Gp tp xik = Some (Gp1, tp1, xik1)"
      and inv1: "dfs_inv n Gp0 Op Gp1 tp1 xik1" and le: "tp1 \<le> tp" by blast
    have fuel1: "tp1 \<le> int fuel + int (card Op)" using le "4.prems"(4) by simp
    from "4.IH"(2)[OF i_def False r refl refl g inv1 rest fuel1]
    obtain Gp2 tp2 xik2 where r2: "dfsr_nbrs fuel ps Gi pinv Gp1 tp1 xik1 = Some (Gp2, tp2, xik2)"
      and inv2: "dfs_inv n Gp0 Op Gp2 tp2 xik2" and le2: "tp2 \<le> tp1" by blast
    show ?thesis using False r r2 inv2 le le2 by (simp add: i_def[symmetric])
  qed
qed


lemma reachr_starts_correct:
  "graph_ok n k lnz Gp0 Gi pinv \<Longrightarrow> dfs_inv n Gp0 {} Gp tp xik \<Longrightarrow>
     \<forall>p\<in>set ps. 0 \<le> Bi ! p \<and> Bi ! p < int n \<Longrightarrow> tp \<le> int fuel \<Longrightarrow>
     \<exists>Gp' tp' xik'. reachr_starts fuel ps Bi Gi pinv Gp tp xik = Some (Gp', tp', xik') \<and>
        dfs_inv n Gp0 {} Gp' tp' xik' \<and> tp' \<le> tp"
proof (induction ps arbitrary: Gp tp xik)
  case Nil
  then show ?case by simp
next
  case (Cons p ps)
  have ir: "0 \<le> Bi ! p" "Bi ! p < int n" and rest: "\<forall>p\<in>set ps. 0 \<le> Bi ! p \<and> Bi ! p < int n"
    using Cons.prems(3) by simp_all
  show ?case
  proof (cases "SPMARKED Gp (Bi ! p)")
    case True
    from Cons.IH[OF Cons.prems(1,2) rest Cons.prems(4)] True show ?thesis by simp
  next
    case False
    have "tp \<le> int fuel + int (card ({}::nat set))" using Cons.prems(4) by simp
    from dfsr_correct[OF Cons.prems(1,2) ir False this]
    obtain Gp1 tp1 xik1 where r: "dfsr fuel (Bi ! p) Gi pinv Gp tp xik = Some (Gp1, tp1, xik1)"
      and inv1: "dfs_inv n Gp0 {} Gp1 tp1 xik1" and le: "tp1 \<le> tp" by blast
    have "tp1 \<le> int fuel" using le Cons.prems(4) by simp
    from Cons.IH[OF Cons.prems(1) inv1 rest this]
    obtain Gp2 tp2 xik2 where r2: "reachr_starts fuel ps Bi Gi pinv Gp1 tp1 xik1 = Some (Gp2, tp2, xik2)"
      and inv2: "dfs_inv n Gp0 {} Gp2 tp2 xik2" and le2: "tp2 \<le> tp1" by blast
    show ?thesis using False r r2 inv2 le le2 by simp
  qed
qed

lemma fold_nth_drop: "fold (\<lambda>p. f (xs ! p)) [a ..< length xs] s = fold f (drop a xs) s"
proof -
  have "drop a xs = drop a (map ((!) xs) [0 ..< length xs])" by (simp only: map_nth)
  also have "\<dots> = map ((!) xs) (drop a [0 ..< length xs])" by (simp only: drop_map)
  also have "\<dots> = map ((!) xs) [a ..< length xs]" by simp
  finally have "map ((!) xs) [a ..< length xs] = drop a xs" by simp
  then have "fold f (drop a xs) s = fold f (map ((!) xs) [a ..< length xs]) s" by simp
  also have "\<dots> = fold (\<lambda>p. f (xs ! p)) [a ..< length xs] s"
    by (simp add: fold_map comp_def)
  finally show ?thesis by simp
qed

lemma SPMARK_length: "length (SPMARK G v) = length G"
  by (simp add: SPMARK_def)

lemma unmark_nth:
  "distinct vs \<Longrightarrow> \<forall>v\<in>set vs. 0 \<le> v \<Longrightarrow> i < length G \<Longrightarrow>
     length (fold (\<lambda>v G. SPMARK G v) vs G) = length G \<and>
     fold (\<lambda>v G. SPMARK G v) vs G ! i = (if int i \<in> set vs then SPFLIP (G ! i) else G ! i)"
proof (induction vs arbitrary: G)
  case Nil
  then show ?case by simp
next
  case (Cons v vs)
  have v: "0 \<le> v" "v \<notin> set vs" using Cons.prems by simp_all
  have i: "i < length (SPMARK G v)" using Cons.prems(3) by (simp add: SPMARK_length)
  have d: "distinct vs" and nn: "\<forall>v\<in>set vs. 0 \<le> v" using Cons.prems by simp_all
  from Cons.IH[OF d nn i]
  have ih: "length (fold (\<lambda>v G. SPMARK G v) vs (SPMARK G v)) = length G"
    "fold (\<lambda>v G. SPMARK G v) vs (SPMARK G v) ! i
       = (if int i \<in> set vs then SPFLIP (SPMARK G v ! i) else SPMARK G v ! i)"
    by (simp_all only: SPMARK_length)
  show ?case
  proof (cases "int i = v")
    case True
    then have "nat v = i" by simp
    then have "SPMARK G v ! i = SPFLIP (G ! i)" using Cons.prems(3) by (simp add: SPMARK_def)
    then show ?thesis using ih True v by simp
  next
    case False
    then have "nat v \<noteq> i" using v(1) by auto
    then have "SPMARK G v ! i = G ! i" by (simp add: SPMARK_def)
    then show ?thesis using ih False by simp
  qed
qed

lemma reachr_correct:
  assumes g: "graph_ok n k lnz Gp0 Gi pinv" and len: "length xik = n"
    and rows: "\<forall>p\<in>set (col_range Bp c). 0 \<le> Bi ! p \<and> Bi ! p < int n"
    and fuel: "n \<le> fuel"
  shows "\<exists>tp xik'. reachr fuel n Bp Bi Gp0 Gi c xik pinv = Some (tp, Gp0, xik') \<and>
           0 \<le> tp \<and> tp \<le> int n \<and> length xik' = n \<and> distinct (stack_of tp xik') \<and>
           (\<forall>v\<in>set (stack_of tp xik'). 0 \<le> v \<and> v < int n)"
proof -
  have l0: "length Gp0 = n + 1" using g by (simp add: graph_ok_def)
  have init: "dfs_inv n Gp0 {} Gp0 (int n) xik"
    using len l0 by (simp add: dfs_inv_def stack_of_def)
  have "int n \<le> int fuel" using fuel by simp
  from reachr_starts_correct[OF g init rows this]
  obtain Gp1 tp xik1 where r: "reachr_starts fuel (col_range Bp c) Bi Gi pinv Gp0 (int n) xik = Some (Gp1, tp, xik1)"
    and inv: "dfs_inv n Gp0 {} Gp1 tp xik1" by blast
  have l1: "length xik1 = n" "length Gp1 = n + 1" and tp: "0 \<le> tp" "tp \<le> int n"
    and dist: "distinct (stack_of tp xik1)"
    and rng: "\<forall>v\<in>set (stack_of tp xik1). 0 \<le> v \<and> v < int n"
    and pt: "\<And>i. i \<le> n \<Longrightarrow> Gp1 ! i = (if int i \<in> set (stack_of tp xik1) then SPFLIP (Gp0 ! i) else Gp0 ! i)"
    using inv by (simp_all add: dfs_inv_def)
  let ?G = "fold (\<lambda>p Gp. SPMARK Gp (xik1 ! p)) [nat tp ..< n] Gp1"
  have eq: "?G = fold (\<lambda>v G. SPMARK G v) (stack_of tp xik1) Gp1"
    using fold_nth_drop[of "\<lambda>v G. SPMARK G v" xik1 "nat tp" Gp1] l1 by (simp add: stack_of_def)
  have nn: "\<forall>v\<in>set (stack_of tp xik1). 0 \<le> v" using rng by simp
  have "?G = Gp0"
  proof (rule nth_equalityI)
    show "length ?G = length Gp0"
      using unmark_nth[OF dist nn, of 0 Gp1] l1 l0 by (simp add: eq)
  next
    fix i assume "i < length ?G"
    then have i: "i < length Gp1" using unmark_nth[OF dist nn, of 0 Gp1] l1 by (simp add: eq)
    then have "i \<le> n" using l1 by simp
    from unmark_nth[OF dist nn i] pt[OF this] show "?G ! i = Gp0 ! i"
      by (simp add: eq SPFLIP_SPFLIP)
  qed
  then show ?thesis
    using r l1 tp dist rng by (simp add: reachr_def)
qed

section \<open>LU factorization: the loop invariant\<close>

lemma cap_Suc: "cap n (Suc k) = cap n k + (n - k)"
  by (simp add: cap_def)

lemma cap_mono: "k \<le> k' \<Longrightarrow> cap n k \<le> cap n k'"
  unfolding cap_def by (rule sum_mono2) auto

lemma cap_full: "cap n n = n * (n + 1) div 2"
proof -
  have "(\<Sum>j<n. n - j) = (\<Sum>j<n. Suc (n - Suc j))"
    by (rule sum.cong) auto
  also have "\<dots> = (\<Sum>j<n. Suc j)"
    by (rule sum.nat_diff_reindex)
  also have "\<dots> = n * (n + 1) div 2"
    by (induction n) auto
  finally show ?thesis by (simp add: cap_def)
qed

lemma pinv_p_step:
  assumes inv: "pinv_p_inv n k pinv pvec" and k: "k < n"
    and ip: "0 \<le> ipiv" "ipiv < int n" and un: "pinv ! nat ipiv < 0"
  shows "pinv_p_inv n (Suc k) (pinv[nat ipiv := int k]) (pvec[k := ipiv])"
proof -
  have len: "length pinv = n" "length pvec = n" using inv by (simp_all add: pinv_p_inv_def)
  have a: "\<And>i. i < n \<Longrightarrow> pinv ! i = - 1 \<or> (0 \<le> pinv ! i \<and> pinv ! i < int k \<and> pvec ! nat (pinv ! i) = int i)"
    and b: "\<And>j. j < k \<Longrightarrow> 0 \<le> pvec ! j \<and> pvec ! j < int n \<and> pinv ! nat (pvec ! j) = int j"
    using inv by (simp_all add: pinv_p_inv_def)
  have ni: "nat ipiv < n" "int (nat ipiv) = ipiv" using ip by simp_all
  have c1: "pinv[nat ipiv := int k] ! i = - 1 \<or>
        (0 \<le> pinv[nat ipiv := int k] ! i \<and> pinv[nat ipiv := int k] ! i < int (Suc k) \<and>
         pvec[k := ipiv] ! nat (pinv[nat ipiv := int k] ! i) = int i)" if i: "i < n" for i
  proof (cases "i = nat ipiv")
    case True
    then show ?thesis using len k ni by simp
  next
    case False
    then have e: "pinv[nat ipiv := int k] ! i = pinv ! i" by simp
    show ?thesis
    proof (cases "pinv ! i = - 1")
      case True
      then show ?thesis using e by simp
    next
      case False
      with a[OF i] have h: "0 \<le> pinv ! i" "pinv ! i < int k" "pvec ! nat (pinv ! i) = int i" by simp_all
      then have "nat (pinv ! i) \<noteq> k" by linarith
      then show ?thesis using e h by simp
    qed
  qed
  have c2: "0 \<le> pvec[k := ipiv] ! j \<and> pvec[k := ipiv] ! j < int n \<and>
        pinv[nat ipiv := int k] ! nat (pvec[k := ipiv] ! j) = int j" if j: "j < Suc k" for j
  proof (cases "j = k")
    case True
    then show ?thesis using len k ip ni(1) by simp
  next
    case False
    with j have jk: "j < k" by simp
    from b[OF jk] have h: "0 \<le> pvec ! j" "pvec ! j < int n" "pinv ! nat (pvec ! j) = int j" by simp_all
    have "nat (pvec ! j) \<noteq> nat ipiv" using h(3) un by force
    then show ?thesis using h False by simp
  qed
  show ?thesis unfolding pinv_p_inv_def using len c1 c2 by simp
qed

lemma pinv_p_card:
  assumes inv: "pinv_p_inv n k pinv pvec"
  shows "card {i. i < n \<and> 0 \<le> pinv ! i} = k"
proof -
  have a: "\<And>i. i < n \<Longrightarrow> pinv ! i = - 1 \<or> (0 \<le> pinv ! i \<and> pinv ! i < int k \<and> pvec ! nat (pinv ! i) = int i)"
    and b: "\<And>j. j < k \<Longrightarrow> 0 \<le> pvec ! j \<and> pvec ! j < int n \<and> pinv ! nat (pvec ! j) = int j"
    using inv by (simp_all add: pinv_p_inv_def)
  let ?P = "{i. i < n \<and> 0 \<le> pinv ! i}"
  have "bij_betw (\<lambda>j. nat (pvec ! j)) {..<k} ?P"
  proof (rule bij_betw_byWitness[where f' = "\<lambda>i. nat (pinv ! i)"])
    show "\<forall>j\<in>{..<k}. nat (pinv ! nat (pvec ! j)) = j"
      using b by simp
    show "\<forall>i\<in>?P. nat (pvec ! nat (pinv ! i)) = i"
      using a by fastforce
    show "(\<lambda>j. nat (pvec ! j)) ` {..<k} \<subseteq> ?P"
      using b by fastforce
    show "(\<lambda>i. nat (pinv ! i)) ` ?P \<subseteq> {..<k}"
      using a by fastforce
  qed
  then have "card {..<k} = card ?P" by (rule bij_betw_same_card)
  then show ?thesis by simp
qed

lemma pinv_p_unpivoted:
  assumes inv: "pinv_p_inv n k pinv pvec"
  shows "k \<le> n" and "card {i. i < n \<and> pinv ! i < 0} = n - k"
proof -
  let ?P = "{i. i < n \<and> 0 \<le> pinv ! i}" and ?U = "{i. i < n \<and> pinv ! i < 0}"
  have c: "card ?P = k" by (rule pinv_p_card[OF inv])
  have "?P \<subseteq> {..<n}" by auto
  from card_mono[OF _ this] c show "k \<le> n" by simp
  have "?P \<union> ?U = {..<n}" "?P \<inter> ?U = {}" by auto
  then have "card ?P + card ?U = n"
    by (metis (no_types, lifting) card_Un_disjoint card_lessThan finite_Un finite_lessThan)
  with c show "card ?U = n - k" by simp
qed

lemma pinv_p_full:
  assumes inv: "pinv_p_inv n n pinv pvec" and i: "i < n"
  shows "0 \<le> pinv ! i \<and> pinv ! i < int n \<and> pvec ! nat (pinv ! i) = int i \<and>
         0 \<le> pvec ! i \<and> pvec ! i < int n \<and> pinv ! nat (pvec ! i) = int i"
proof -
  have "card {i. i < n \<and> pinv ! i < 0} = 0" using pinv_p_unpivoted(2)[OF inv] by simp
  then have "{i. i < n \<and> pinv ! i < 0} = {}" by simp
  then have "\<not> pinv ! i < 0" using i by blast
  then show ?thesis using inv i unfolding pinv_p_inv_def by force
qed


lemma fold_length_preserved:
  "(\<And>p x. length (F p x) = length x) \<Longrightarrow> length (fold F ps x) = length x"
  by (induction ps arbitrary: x) simp_all

lemma splsolve_col_length: "length (splsolve_col G xik pinv px x) = length x"
  by (simp add: splsolve_col_def Let_def fold_length_preserved)

lemma sp_splsolve_length: "length (sp_splsolve G B k xik tp x pinv) = length x"
  by (simp add: sp_splsolve_def Let_def fold_length_preserved splsolve_col_length)

lemma stack_of_set:
  assumes "length xik = n"
  shows "set (stack_of tp xik) = (\<lambda>p. xik ! p) ` set [nat tp ..< n]"
proof -
  have "drop (nat tp) xik = drop (nat tp) (map ((!) xik) [0 ..< length xik])" by (simp only: map_nth)
  also have "\<dots> = map ((!) xik) (drop (nat tp) [0 ..< length xik])" by (simp only: drop_map)
  also have "\<dots> = map ((!) xik) [nat tp ..< n]" using assms by simp
  finally show ?thesis by (simp add: stack_of_def)
qed

lemma stack_of_map:
  assumes "length xik = n"
  shows "stack_of tp xik = map (\<lambda>p. xik ! p) [nat tp ..< n]"
proof -
  have "drop (nat tp) xik = drop (nat tp) (map ((!) xik) [0 ..< length xik])" by (simp only: map_nth)
  also have "\<dots> = map ((!) xik) (drop (nat tp) [0 ..< length xik])" by (simp only: drop_map)
  also have "\<dots> = map ((!) xik) [nat tp ..< n]" using assms by simp
  finally show ?thesis by (simp add: stack_of_def)
qed

lemma lu_col_range:
  assumes "num_sized n N" "k < n"
  shows "0 \<le> lu_col (num_q N) k \<and> lu_col (num_q N) k < int n"
  using assms by (cases "num_q N") (simp_all add: num_sized_def lu_col_def)

lemma lu_inv_graph_ok:
  assumes inv: "lu_inv n k N lnz" and k: "k < n"
  shows "graph_ok n k lnz ((mat_Ap (num_L N))[k := int lnz]) (mat_Ai (num_L N)) (num_pinv N)"
proof -
  let ?Lp = "mat_Ap (num_L N)"
  have len: "length ?Lp = n + 1" "length (num_pinv N) = n"
    using inv by (simp_all add: lu_inv_def num_sized_def)
  have a: "\<forall>J\<le>n. 0 \<le> ?Lp[k := int lnz] ! J"
  proof (intro allI impI)
    fix J assume "J \<le> n"
    then show "0 \<le> ?Lp[k := int lnz] ! J"
      using inv len k by (cases "J = k") (simp_all add: lu_inv_def)
  qed
  have b: "\<forall>J\<le>k. ?Lp[k := int lnz] ! J \<le> int lnz"
  proof (intro allI impI)
    fix J assume "J \<le> k"
    then show "?Lp[k := int lnz] ! J \<le> int lnz"
      using inv len k by (cases "J = k") (simp_all add: lu_inv_def)
  qed
  have c: "\<forall>i<n. num_pinv N ! i < int k"
  proof (intro allI impI)
    fix i assume "i < n"
    then have "num_pinv N ! i = - 1 \<or> num_pinv N ! i < int k"
      using inv unfolding lu_inv_def pinv_p_inv_def by blast
    then show "num_pinv N ! i < int k" by auto
  qed
  show ?thesis
    unfolding graph_ok_def using a b c len k inv by (simp add: lu_inv_def)
qed

lemma ludcmp_solve_ok:
  assumes inv: "lu_inv n k N lnz" and k: "k < n" and wf: "wf_mat n A" and fuel: "n \<le> fuel"
  shows "\<exists>N1 tp. ludcmp_solve fuel k A N lnz unz = Some (N1, tp) \<and>
           mat_Ap (num_L N1) = (mat_Ap (num_L N))[k := int lnz] \<and>
           mat_Ai (num_L N1) = mat_Ai (num_L N) \<and> mat_ncols (num_L N1) = n \<and>
           num_pinv N1 = num_pinv N \<and> num_p N1 = num_p N \<and> num_q N1 = num_q N \<and>
           length (num_xi N1) = n \<and> (\<forall>j<n. length (num_xi N1 ! j) = n) \<and>
           length (num_topvec N1) = n \<and> length (num_w N1) = n \<and>
           0 \<le> tp \<and> tp \<le> int n \<and> distinct (stack_of tp (num_xi N1 ! k)) \<and>
           (\<forall>v\<in>set (stack_of tp (num_xi N1 ! k)). 0 \<le> v \<and> v < int n) \<and>
           num_w N1 = sp_splsolve (num_L N1) A (nat (lu_col (num_q N) k)) (num_xi N1 ! k) tp
                        (num_w N) (num_pinv N)"
proof -
  have sz: "num_sized n N" using inv by (simp add: lu_inv_def)
  define c where "c = nat (lu_col (num_q N) k)"
  have cn: "c < n" using lu_col_range[OF sz k] unfolding c_def by linarith
  have rows: "\<forall>p\<in>set (col_range (mat_Ap A) c). 0 \<le> mat_Ai A ! p \<and> mat_Ai A ! p < int n"
    using wf wf_pattern_row[of n "mat_Ap A" "mat_Ai A" c] cn by (simp add: wf_mat_def)
  have lx: "length (num_xi N ! k) = n" using sz k by (simp add: num_sized_def)
  from reachr_correct[OF lu_inv_graph_ok[OF inv k] lx rows fuel]
  obtain tp xik' where r: "reachr fuel n (mat_Ap A) (mat_Ai A) ((mat_Ap (num_L N))[k := int lnz])
        (mat_Ai (num_L N)) c (num_xi N ! k) (num_pinv N) = Some (tp, (mat_Ap (num_L N))[k := int lnz], xik')"
    and tp: "0 \<le> tp" "tp \<le> int n" and l': "length xik' = n"
    and d: "distinct (stack_of tp xik')" and rng: "\<forall>v\<in>set (stack_of tp xik'). 0 \<le> v \<and> v < int n"
    by blast
  have ncol: "mat_ncols (num_L N) = n" using sz by (simp add: num_sized_def)
  have lens: "length (num_xi N) = n" "length (num_topvec N) = n" "length (num_w N) = n"
    "\<forall>j<n. length (num_xi N ! j) = n"
    using sz by (simp_all add: num_sized_def)
  have xi': "\<forall>j<n. length ((num_xi N)[k := xik'] ! j) = n"
  proof (intro allI impI)
    fix j assume "j < n"
    then show "length ((num_xi N)[k := xik'] ! j) = n"
      using lens l' k by (cases "j = k") simp_all
  qed
  show ?thesis
    using r tp l' d rng ncol lens xi' k
    by (simp add: ludcmp_solve_def Let_def c_def[symmetric] sp_splsolve_length)
qed

lemma find_pivot_fold_cand:
  "fold (find_pivot_step xik pinv x) ps (ipiv, a, Ui, Ux, unz) = (ipiv', a', Ui', Ux', unz') \<Longrightarrow>
   ipiv = - 1 \<or> (ipiv \<in> S \<and> pinv ! nat ipiv < 0) \<Longrightarrow> \<forall>p\<in>set ps. xik ! p \<in> S \<Longrightarrow>
   ipiv' = - 1 \<or> (ipiv' \<in> S \<and> pinv ! nat ipiv' < 0)"
proof (induction ps arbitrary: ipiv a Ui Ux unz)
  case Nil
  then show ?case by simp
next
  case (Cons p ps)
  obtain i1 a1 U1 X1 u1 where s: "find_pivot_step xik pinv x p (ipiv, a, Ui, Ux, unz) = (i1, a1, U1, X1, u1)"
    using prod_cases5 by blast
  have "i1 = - 1 \<or> (i1 \<in> S \<and> pinv ! nat i1 < 0)"
    using s Cons.prems(2,3) by (auto simp: find_pivot_step_def Let_def split: if_splits)
  moreover have "fold (find_pivot_step xik pinv x) ps (i1, a1, U1, X1, u1) = (ipiv', a', Ui', Ux', unz')"
    using Cons.prems(1) s by simp
  ultimately show ?case using Cons.IH Cons.prems(3) by simp
qed

lemma find_pivot_cand:
  assumes "find_pivot n tp xik pinv x Ui Ux unz = (ipiv0, a, Ui', Ux', unz')" "length xik = n"
  shows "ipiv0 = - 1 \<or> (ipiv0 \<in> set (stack_of tp xik) \<and> pinv ! nat ipiv0 < 0)"
  using find_pivot_fold_cand[OF assms(1)[unfolded find_pivot_def], of "set (stack_of tp xik)"]
  by (simp add: stack_of_set[OF assms(2)])

lemma store_L_fold:
  "fold (store_L_step xik pinv pivot) ps (Li, Lx, lnz, x) = (Li', Lx', lnz', x') \<Longrightarrow>
   lnz + unpiv_count xik pinv ps \<le> length Li \<Longrightarrow>
   lnz' = lnz + unpiv_count xik pinv ps \<and> length Li' = length Li \<and> length x' = length x \<and>
   (\<forall>q<lnz. Li' ! q = Li ! q) \<and>
   (\<forall>q. lnz \<le> q \<and> q < lnz' \<longrightarrow> Li' ! q \<in> (\<lambda>p. xik ! p) ` set ps)"
proof (induction ps arbitrary: Li Lx lnz x)
  case Nil
  then show ?case by (simp add: unpiv_count_def)
next
  case (Cons p ps)
  show ?case
  proof (cases "pinv ! nat (xik ! p) < 0")
    case False
    then have s: "store_L_step xik pinv pivot p (Li, Lx, lnz, x) = (Li, Lx, lnz, x[nat (xik ! p) := 0])"
      by (simp add: store_L_step_def Let_def)
    have cnt: "unpiv_count xik pinv (p # ps) = unpiv_count xik pinv ps"
      using False by (simp add: unpiv_count_def)
    from Cons.IH[of Li Lx lnz "x[nat (xik ! p) := 0]"] Cons.prems s cnt
    show ?thesis by auto
  next
    case True
    then have s: "store_L_step xik pinv pivot p (Li, Lx, lnz, x)
        = (Li[lnz := xik ! p], Lx[lnz := x ! nat (xik ! p) / pivot], lnz + 1, x[nat (xik ! p) := 0])"
      by (simp add: store_L_step_def Let_def)
    have cnt: "unpiv_count xik pinv (p # ps) = Suc (unpiv_count xik pinv ps)"
      using True by (simp add: unpiv_count_def)
    have f: "fold (store_L_step xik pinv pivot) ps
        (Li[lnz := xik ! p], Lx[lnz := x ! nat (xik ! p) / pivot], lnz + 1, x[nat (xik ! p) := 0])
        = (Li', Lx', lnz', x')"
      using Cons.prems(1) s by simp
    have b: "lnz + 1 + unpiv_count xik pinv ps \<le> length (Li[lnz := xik ! p])"
      using Cons.prems(2) cnt by simp
    from Cons.IH[OF f b]
    have ih: "lnz' = lnz + 1 + unpiv_count xik pinv ps" "length Li' = length Li" "length x' = length x"
      "\<And>q. q < lnz + 1 \<Longrightarrow> Li' ! q = Li[lnz := xik ! p] ! q"
      "\<And>q. lnz + 1 \<le> q \<Longrightarrow> q < lnz' \<Longrightarrow> Li' ! q \<in> (\<lambda>p. xik ! p) ` set ps"
      by simp_all
    have lt: "lnz < length Li" using Cons.prems(2) cnt by simp
    have old: "\<forall>q<lnz. Li' ! q = Li ! q"
      using ih(4) by simp
    have new: "\<forall>q. lnz \<le> q \<and> q < lnz' \<longrightarrow> Li' ! q \<in> (\<lambda>p. xik ! p) ` set (p # ps)"
    proof (intro allI impI)
      fix q assume q: "lnz \<le> q \<and> q < lnz'"
      show "Li' ! q \<in> (\<lambda>p. xik ! p) ` set (p # ps)"
      proof (cases "q = lnz")
        case True
        then have "Li' ! q = xik ! p" using ih(4)[of lnz] lt by simp
        then show ?thesis by simp
      next
        case False
        then have "lnz + 1 \<le> q" using q by simp
        from ih(5)[OF this] q show ?thesis by auto
      qed
    qed
    show ?thesis using ih(1,2,3) cnt old new by simp
  qed
qed


lemma unpiv_count_bound:
  assumes len: "length xik = n" and d: "distinct (stack_of tp xik)"
    and rng: "\<forall>v\<in>set (stack_of tp xik). 0 \<le> v \<and> v < int n"
  shows "unpiv_count xik pinv [nat tp ..< n] \<le> card {i. i < n \<and> pinv ! i < 0}"
proof -
  let ?Q = "\<lambda>v. pinv ! nat v < 0"
  let ?F = "filter ?Q (stack_of tp xik)"
  have "filter ?Q (map (\<lambda>p. xik ! p) [nat tp ..< n])
          = map (\<lambda>p. xik ! p) (filter (\<lambda>p. pinv ! nat (xik ! p) < 0) [nat tp ..< n])"
    by (simp add: filter_map comp_def)
  then have "length ?F = unpiv_count xik pinv [nat tp ..< n]"
    by (simp add: stack_of_map[OF len] unpiv_count_def)
  moreover have "distinct ?F" using d by simp
  then have "length ?F = card (set ?F)" by (rule distinct_card[symmetric])
  moreover have "inj_on nat (set ?F)"
    unfolding inj_on_def using rng by (auto simp: eq_nat_nat_iff)
  then have "card (nat ` set ?F) = card (set ?F)" by (rule card_image)
  moreover have "nat ` set ?F \<subseteq> {i. i < n \<and> pinv ! i < 0}"
    using rng by auto
  then have "card (nat ` set ?F) \<le> card {i. i < n \<and> pinv ! i < 0}"
    by (intro card_mono) simp_all
  ultimately show ?thesis by simp
qed

lemma ludcmp_step_ok:
  assumes inv: "lu_inv n k N lnz" and k: "k < n" and wf: "wf_mat n A" and fuel: "n \<le> fuel"
  shows "\<exists>st N' lnz' unz'. ludcmp_step fuel n k A pivtol N lnz unz = Some (st, N', lnz', unz') \<and>
           (st = SUCCESS \<longrightarrow> lu_inv n (Suc k) N' lnz')"
proof -
  from ludcmp_solve_ok[OF inv k wf fuel, of unz]
  obtain N1 tp where so: "ludcmp_solve fuel k A N lnz unz = Some (N1, tp)"
    and Lp1: "mat_Ap (num_L N1) = (mat_Ap (num_L N))[k := int lnz]"
    and Li1: "mat_Ai (num_L N1) = mat_Ai (num_L N)" and nc1: "mat_ncols (num_L N1) = n"
    and pv1: "num_pinv N1 = num_pinv N" "num_p N1 = num_p N" and q1: "num_q N1 = num_q N"
    and xi1: "length (num_xi N1) = n" "\<forall>j<n. length (num_xi N1 ! j) = n"
    and tv1: "length (num_topvec N1) = n" and w1: "length (num_w N1) = n"
    and tp: "0 \<le> tp" "tp \<le> int n" and d: "distinct (stack_of tp (num_xi N1 ! k))"
    and rng: "\<forall>v\<in>set (stack_of tp (num_xi N1 ! k)). 0 \<le> v \<and> v < int n"
    by blast
  define xik where "xik = num_xi N1 ! k"
  define pinv where "pinv = num_pinv N"
  define col where "col = lu_col (num_q N) k"
  have sz: "num_sized n N" and pp: "pinv_p_inv n k pinv (num_p N)" and capk: "lnz \<le> cap n k"
    using inv by (simp_all add: lu_inv_def pinv_def)
  have lxik: "length xik = n" using xi1 k by (simp add: xik_def)
  obtain ipiv0 a Ui Ux unz1 where fp: "find_pivot n tp xik pinv (num_w N1) (mat_Ai (num_U N1))
      (mat_Ax (num_U N1)) unz = (ipiv0, a, Ui, Ux, unz1)"
    using prod_cases5 by blast
  show ?thesis
  proof (cases "ipiv0 = - 1 \<or> a \<le> 0")
    case True
    then show ?thesis
      using so fp by (simp add: ludcmp_step_def Let_def xik_def pinv_def pv1)
  next
    case False
    define ipiv where "ipiv = choose_pivot pinv (num_w N1) col a pivtol ipiv0"
    define pinv1 where "pinv1 = pinv[nat ipiv := int k]"
    define pvec1 where "pvec1 = (num_p N)[k := ipiv]"
    from find_pivot_cand[OF fp lxik] False
    have c0: "ipiv0 \<in> set (stack_of tp xik)" "pinv ! nat ipiv0 < 0" by simp_all
    then have r0: "0 \<le> ipiv0" "ipiv0 < int n" using rng by (simp_all add: xik_def)
    have rcol: "0 \<le> col" "col < int n" using lu_col_range[OF sz k] by (simp_all add: col_def)
    have ip: "0 \<le> ipiv" "ipiv < int n" "pinv ! nat ipiv < 0"
      using r0 rcol c0(2) by (auto simp: ipiv_def choose_pivot_def)
    have pp1: "pinv_p_inv n (Suc k) pinv1 pvec1"
      unfolding pinv1_def pvec1_def by (rule pinv_p_step[OF pp k ip])
    have "unpiv_count xik pinv1 [nat tp ..< n] \<le> card {i. i < n \<and> pinv1 ! i < 0}"
      by (rule unpiv_count_bound[OF lxik d[folded xik_def] rng[folded xik_def]])
    also have "\<dots> = n - Suc k" by (rule pinv_p_unpivoted(2)[OF pp1])
    finally have cnt: "unpiv_count xik pinv1 [nat tp ..< n] \<le> n - Suc k" .
    have capS: "lnz + 1 + unpiv_count xik pinv1 [nat tp ..< n] \<le> cap n (Suc k)"
      using cnt capk k by (simp add: cap_Suc)
    have lLi: "length (mat_Ai (num_L N)) = cap n n" using sz by (simp add: num_sized_def cap_full)
    have "cap n (Suc k) \<le> cap n n" using k by (intro cap_mono) simp
    with capS have room: "lnz + 1 + unpiv_count xik pinv1 [nat tp ..< n]
        \<le> length ((mat_Ai (num_L N))[lnz := ipiv])"
      using lLi by simp
    obtain Li2 Lx2 lnz2 x2 where st: "fold (store_L_step xik pinv1 (num_w N1 ! nat ipiv)) [nat tp ..< n]
        ((mat_Ai (num_L N))[lnz := ipiv], (mat_Ax (num_L N1))[lnz := 1], lnz + 1, num_w N1)
        = (Li2, Lx2, lnz2, x2)"
      using prod_cases4 by blast
    from store_L_fold[OF st room]
    have l2: "lnz2 = lnz + 1 + unpiv_count xik pinv1 [nat tp ..< n]"
      and len2: "length Li2 = length (mat_Ai (num_L N))" "length x2 = n"
      and old: "\<And>q. q < lnz + 1 \<Longrightarrow> Li2 ! q = (mat_Ai (num_L N))[lnz := ipiv] ! q"
      and new: "\<And>q. lnz + 1 \<le> q \<Longrightarrow> q < lnz2 \<Longrightarrow> Li2 ! q \<in> (\<lambda>p. xik ! p) ` set [nat tp ..< n]"
      using w1 by simp_all
    define N' where "N' = N1\<lparr>num_L := (num_L N1)\<lparr>mat_Ai := Li2, mat_Ax := Lx2\<rparr>,
                             num_U := (num_U N1)\<lparr>mat_Ai := Ui[unz1 := int k],
                                                    mat_Ax := Ux[unz1 := num_w N1 ! nat ipiv]\<rparr>,
                             num_pinv := pinv1, num_p := pvec1, num_w := x2\<rparr>"
    have res: "ludcmp_step fuel n k A pivtol N lnz unz = Some (SUCCESS, N', lnz2, unz1 + 1)"
      using so fp False st
      by (simp add: ludcmp_step_def Let_def xik_def[symmetric] pinv_def[symmetric] pv1 q1 Li1
          col_def[symmetric] ipiv_def[symmetric] pinv1_def[symmetric] pvec1_def[symmetric] N'_def)
    have lpi: "length pinv1 = n" "length pvec1 = n" using pp1 by (simp_all add: pinv_p_inv_def)
    have sz': "num_sized n N'"
      using sz nc1 Lp1 len2 xi1 tv1 lpi q1
      by (simp add: num_sized_def N'_def)
    have lnz_le: "lnz \<le> lnz2" using l2 by simp
    have Lpn: "\<forall>J\<le>n. 0 \<le> mat_Ap (num_L N') ! J"
      using lu_inv_graph_ok[OF inv k] by (simp add: graph_ok_def N'_def Lp1)
    have LpS: "\<forall>J<Suc k. mat_Ap (num_L N') ! J \<le> int lnz2"
    proof (intro allI impI)
      fix J assume "J < Suc k"
      then have "J \<le> k" by simp
      then have "(mat_Ap (num_L N))[k := int lnz] ! J \<le> int lnz"
        using lu_inv_graph_ok[OF inv k] by (simp add: graph_ok_def)
      then show "mat_Ap (num_L N') ! J \<le> int lnz2" using lnz_le by (simp add: N'_def Lp1)
    qed
    have lt: "lnz < length (mat_Ai (num_L N))" using room by simp
    have Lir: "\<forall>p<lnz2. 0 \<le> mat_Ai (num_L N') ! p \<and> mat_Ai (num_L N') ! p < int n"
    proof (intro allI impI)
      fix p assume p: "p < lnz2"
      consider "p < lnz" | "p = lnz" | "lnz + 1 \<le> p" by linarith
      then have "0 \<le> Li2 ! p \<and> Li2 ! p < int n"
      proof cases
        case 1
        then have "Li2 ! p = mat_Ai (num_L N) ! p" using old[of p] by simp
        then show ?thesis using inv 1 by (simp add: lu_inv_def)
      next
        case 2
        then have "Li2 ! p = ipiv" using old[of p] lt by simp
        then show ?thesis using ip by simp
      next
        case 3
        from new[OF 3 p] have "Li2 ! p \<in> set (stack_of tp xik)"
          by (simp add: stack_of_set[OF lxik])
        then show ?thesis using rng by (simp add: xik_def)
      qed
      then show "0 \<le> mat_Ai (num_L N') ! p \<and> mat_Ai (num_L N') ! p < int n"
        by (simp add: N'_def)
    qed
    have "lu_inv n (Suc k) N' lnz2"
      unfolding lu_inv_def using sz' Lpn LpS Lir capS l2 pp1 by (simp add: N'_def)
    then show ?thesis using res by simp
  qed
qed


lemma ludcmp_loop_ok:
  assumes wf: "wf_mat n A" and fuel: "n \<le> fuel" and m: "m \<le> n"
  shows "lu_inv n k N lnz \<Longrightarrow> k \<le> m \<Longrightarrow>
         \<exists>st N' lnz' unz'. ludcmp_loop fuel n [k ..< m] A pivtol N lnz unz = Some (st, N', lnz', unz') \<and>
           (st = SUCCESS \<longrightarrow> lu_inv n m N' lnz')"
proof (induction "m - k" arbitrary: k N lnz unz)
  case 0
  then have "k = m" by simp
  then show ?case using "0.prems"(1) by simp
next
  case (Suc d)
  then have k: "k < m" and d: "d = m - Suc k" by simp_all
  then have kn: "k < n" using m by simp
  have up: "[k ..< m] = k # [Suc k ..< m]" using k by (simp add: upt_conv_Cons)
  from ludcmp_step_ok[OF Suc.prems(1) kn wf fuel, of pivtol unz]
  obtain st N1 lnz1 unz1 where r: "ludcmp_step fuel n k A pivtol N lnz unz = Some (st, N1, lnz1, unz1)"
    and i: "st = SUCCESS \<longrightarrow> lu_inv n (Suc k) N1 lnz1" by blast
  show ?case
  proof (cases st)
    case FAILURE
    then show ?thesis using r by (simp add: up)
  next
    case SUCCESS
    with i have inv1: "lu_inv n (Suc k) N1 lnz1" by simp
    from Suc.hyps(1)[OF d inv1, of unz1] k
    show ?thesis using r SUCCESS by (simp add: up)
  qed
qed

lemma ludcmp_init_inv:
  assumes "num_sized n N"
  shows "lu_inv n 0 (ludcmp_init n N) 0"
proof -
  have pinv: "fold (\<lambda>i pinv. pinv[i := - 1]) [0 ..< n] (num_pinv N) = replicate n (- 1)"
    using assms by (simp add: fold_const_update num_sized_def)
  have Lp: "fold (\<lambda>k Lp. Lp[k := 0]) [0 ..< n + 1] (mat_Ap (num_L N)) = replicate (n + 1) 0"
    using assms fold_const_update[of "n + 1" "mat_Ap (num_L N)" 0] by (simp add: num_sized_def)
  have w: "length (fold (\<lambda>i x. x[i := 0]) [0 ..< n] (num_w N)) = n"
    using assms by (simp add: fold_length_preserved num_sized_def)
  have "num_sized n (ludcmp_init n N)"
    using assms w unfolding num_sized_def ludcmp_init_def pinv Lp by simp
  moreover have "replicate (n + 1) (0::int) ! J = 0" if "J \<le> n" for J
    using that by (intro nth_replicate) simp
  then have "\<forall>J\<le>n. 0 \<le> mat_Ap (num_L (ludcmp_init n N)) ! J"
    unfolding ludcmp_init_def Lp by simp
  moreover have "pinv_p_inv n 0 (num_pinv (ludcmp_init n N)) (num_p (ludcmp_init n N))"
    using assms unfolding ludcmp_init_def pinv by (simp add: pinv_p_inv_def num_sized_def)
  ultimately show ?thesis
    unfolding lu_inv_def by (simp add: cap_def)
qed

lemma sp_ludcmp_total:
  assumes wf: "wf_mat n A" and sz: "num_sized n N" and fuel: "n \<le> fuel"
  shows "\<exists>st N'. sp_ludcmp fuel N A pivtol = Some (st, N') \<and>
           (st = SUCCESS \<longrightarrow> pinv_p_inv n n (num_pinv N') (num_p N'))"
proof -
  have n: "mat_ncols A = n" using wf by (simp add: wf_mat_def)
  from ludcmp_loop_ok[OF wf fuel order_refl ludcmp_init_inv[OF sz], of pivtol 0]
  obtain st N1 lnz unz where r: "ludcmp_loop fuel n [0 ..< n] A pivtol (ludcmp_init n N) 0 0 = Some (st, N1, lnz, unz)"
    and i: "st = SUCCESS \<longrightarrow> lu_inv n n N1 lnz" by blast
  show ?thesis
  proof (cases st)
    case FAILURE
    then show ?thesis using r n by (simp add: sp_ludcmp_def)
  next
    case SUCCESS
    with i have "pinv_p_inv n n (num_pinv N1) (num_p N1)" by (simp add: lu_inv_def)
    then show ?thesis using r n SUCCESS by (simp add: sp_ludcmp_def ludcmp_finalize_def)
  qed
qed

lemma dfsr_fuel_mono:
  "dfsr f j Gi pinv Gp tp xik = Some r \<Longrightarrow> f \<le> f' \<Longrightarrow> dfsr f' j Gi pinv Gp tp xik = Some r"
  and dfsr_nbrs_fuel_mono:
  "dfsr_nbrs f ps Gi pinv Gp tp xik = Some r \<Longrightarrow> f \<le> f' \<Longrightarrow> dfsr_nbrs f' ps Gi pinv Gp tp xik = Some r"
proof (induction f j Gi pinv Gp tp xik and f ps Gi pinv Gp tp xik arbitrary: r f' and r f'
       rule: dfsr_dfsr_nbrs.induct)
  case (1 j Gi pinv Gp tp xik)
  then show ?case by simp
next
  case (2 fuel j Gi pinv Gp tp xik)
  then obtain f'' where f': "f' = Suc f''" and le: "fuel \<le> f''" by (cases f') auto
  show ?case
  proof (cases "0 \<le> pinv ! nat j")
    case False
    then show ?thesis using "2.prems"(1) by (simp add: f' Let_def)
  next
    case True
    let ?ps = "[nat (SPUNFLIP (SPMARK Gp j ! nat (pinv ! nat j))) ..<
                nat (SPUNFLIP (SPMARK Gp j ! nat (pinv ! nat j + 1)))]"
    from "2.prems"(1) True obtain r2 where a: "dfsr_nbrs fuel ?ps Gi pinv (SPMARK Gp j) tp xik = Some r2"
      by (auto simp: Let_def split: option.splits)
    from "2.IH"[OF refl refl True a le]
    have "dfsr_nbrs f'' ?ps Gi pinv (SPMARK Gp j) tp xik = Some r2" .
    then show ?thesis using "2.prems"(1) True a by (simp add: f' Let_def)
  qed
next
  case (3 fuel Gi pinv Gp tp xik)
  then show ?case by simp
next
  case (4 fuel p ps Gi pinv Gp tp xik)
  show ?case
  proof (cases "SPMARKED Gp (Gi ! p)")
    case True
    from "4.IH"(3)[OF refl _ _ "4.prems"(2)] True "4.prems"(1)
    show ?thesis by simp
  next
    case False
    from "4.prems"(1) False obtain Gp1 tp1 xik1 where a: "dfsr fuel (Gi ! p) Gi pinv Gp tp xik = Some (Gp1, tp1, xik1)"
      by (auto split: option.splits)
    from "4.IH"(1)[OF refl False a "4.prems"(2)]
    have a': "dfsr f' (Gi ! p) Gi pinv Gp tp xik = Some (Gp1, tp1, xik1)" .
    have b: "dfsr_nbrs fuel ps Gi pinv Gp1 tp1 xik1 = Some r"
      using "4.prems"(1) False a by simp
    from "4.IH"(2)[OF refl False a refl refl b "4.prems"(2)]
    show ?thesis using False a' by simp
  qed
qed

lemma reachr_starts_fuel_mono:
  "reachr_starts f ps Bi Gi pinv Gp tp xik = Some r \<Longrightarrow> f \<le> f' \<Longrightarrow>
   reachr_starts f' ps Bi Gi pinv Gp tp xik = Some r"
proof (induction ps arbitrary: Gp tp xik)
  case Nil
  then show ?case by simp
next
  case (Cons p ps)
  show ?case
  proof (cases "SPMARKED Gp (Bi ! p)")
    case True
    then show ?thesis using Cons by simp
  next
    case False
    from Cons.prems(1) False obtain Gp1 tp1 xik1 where a: "dfsr f (Bi ! p) Gi pinv Gp tp xik = Some (Gp1, tp1, xik1)"
      by (auto split: option.splits)
    from dfsr_fuel_mono[OF a Cons.prems(2)]
    have a': "dfsr f' (Bi ! p) Gi pinv Gp tp xik = Some (Gp1, tp1, xik1)" .
    have b: "reachr_starts f ps Bi Gi pinv Gp1 tp1 xik1 = Some r"
      using Cons.prems(1) False a by simp
    from Cons.IH[OF b Cons.prems(2)] show ?thesis using False a' by simp
  qed
qed

lemma reachr_fuel_mono:
  assumes "reachr f Gncols Bp Bi Gp Gi c xik pinv = Some r" "f \<le> f'"
  shows "reachr f' Gncols Bp Bi Gp Gi c xik pinv = Some r"
proof -
  from assms(1) obtain r1 where a: "reachr_starts f (col_range Bp c) Bi Gi pinv Gp (int Gncols) xik = Some r1"
    by (auto simp: reachr_def split: option.splits)
  from reachr_starts_fuel_mono[OF a assms(2)] a assms(1) show ?thesis
    by (simp add: reachr_def)
qed

lemma ludcmp_solve_fuel_mono:
  assumes "ludcmp_solve f k A N lnz unz = Some r" "f \<le> f'"
  shows "ludcmp_solve f' k A N lnz unz = Some r"
proof -
  let ?R = "\<lambda>f. reachr f (mat_ncols (num_L N)) (mat_Ap A) (mat_Ai A) ((mat_Ap (num_L N))[k := int lnz])
                (mat_Ai (num_L N)) (nat (lu_col (num_q N) k)) (num_xi N ! k) (num_pinv N)"
  from assms(1) obtain r1 where a: "?R f = Some r1"
    by (auto simp: ludcmp_solve_def Let_def split: option.splits)
  from reachr_fuel_mono[OF a assms(2)] a assms(1) show ?thesis
    by (simp add: ludcmp_solve_def Let_def)
qed

lemma ludcmp_step_fuel_mono:
  assumes "ludcmp_step f n k A pivtol N lnz unz = Some r" "f \<le> f'"
  shows "ludcmp_step f' n k A pivtol N lnz unz = Some r"
proof -
  from assms(1) obtain r1 where a: "ludcmp_solve f k A N lnz unz = Some r1"
    by (auto simp: ludcmp_step_def split: option.splits)
  from ludcmp_solve_fuel_mono[OF a assms(2)] a assms(1) show ?thesis
    by (simp add: ludcmp_step_def)
qed

lemma ludcmp_loop_fuel_mono:
  "ludcmp_loop f n ks A pivtol N lnz unz = Some r \<Longrightarrow> f \<le> f' \<Longrightarrow>
   ludcmp_loop f' n ks A pivtol N lnz unz = Some r"
proof (induction ks arbitrary: N lnz unz)
  case Nil
  then show ?case by simp
next
  case (Cons k ks)
  from Cons.prems(1) obtain st N1 l1 u1 where a: "ludcmp_step f n k A pivtol N lnz unz = Some (st, N1, l1, u1)"
    by (auto split: option.splits)
  note a' = ludcmp_step_fuel_mono[OF a Cons.prems(2)]
  show ?case
  proof (cases st)
    case FAILURE
    then have "r = (FAILURE, N1, l1, u1)" using Cons.prems(1) a by simp
    then show ?thesis using a' FAILURE by simp
  next
    case SUCCESS
    then have "ludcmp_loop f n ks A pivtol N1 l1 u1 = Some r" using Cons.prems(1) a by simp
    from Cons.IH[OF this Cons.prems(2)] show ?thesis using a' SUCCESS by simp
  qed
qed

lemma sp_ludcmp_fuel_mono:
  assumes "sp_ludcmp f N A pivtol = Some r" "f \<le> f'"
  shows "sp_ludcmp f' N A pivtol = Some r"
proof -
  from assms(1) obtain r1 where a: "ludcmp_loop f (mat_ncols A) [0 ..< mat_ncols A] A pivtol
        (ludcmp_init (mat_ncols A) N) 0 0 = Some r1"
    by (auto simp: sp_ludcmp_def Let_def split: option.splits)
  from ludcmp_loop_fuel_mono[OF a assms(2)] a assms(1) show ?thesis
    by (simp add: sp_ludcmp_def Let_def)
qed

section \<open>The scalar arithmetic: fields and \<open>dbl\<close>\<close>

lemma fp_order_field: "fp_order TYPE('a::linordered_field)"
  unfolding fp_order_def by auto

lemma fp_zero_closed_field: "fp_zero_closed TYPE('a::linordered_field)"
  unfolding fp_zero_closed_def zeroish_def by auto

lemma fp_order_dbl: "fp_order TYPE(dbl)"
  unfolding fp_order_def
proof (intro conjI allI impI)
  show "\<not> x < x" for x :: dbl by (cases x) (simp_all add: less_dbl_def)
  show "x < z" if "x < y \<and> y < z" for x y z :: dbl
    using that by (cases x; cases y; cases z) (auto simp: less_dbl_def)
  show "y < x" if "y < z \<and> x \<le> x \<and> \<not> x < z" for x y z :: dbl
    using that by (cases x; cases y; cases z) (auto simp: less_dbl_def less_eq_dbl_def)
  show "x \<le> y \<longleftrightarrow> x \<le> x \<and> y \<le> y \<and> \<not> y < x" for x y :: dbl
    by (cases x; cases y) (auto simp: less_dbl_def less_eq_dbl_def)
  show "x \<le> x" if "x < y" for x y :: dbl
    using that by (cases x; cases y) (auto simp: less_dbl_def less_eq_dbl_def)
  show "y \<le> y" if "x < y" for x y :: dbl
    using that by (cases x; cases y) (auto simp: less_dbl_def less_eq_dbl_def)
  show "- 1 < (0::dbl)"
    by (simp add: less_dbl_def uminus_dbl_def one_dbl_def zero_dbl_def signed_def)
qed

lemma zeroish_dbl:
  "zeroish (x::dbl) \<longleftrightarrow> (case x of Fin s a \<Rightarrow> a = 0 | Inf s \<Rightarrow> False | NaN \<Rightarrow> True)"
  by (cases x) (auto simp: zeroish_def less_dbl_def abs_dbl_def zero_dbl_def signed_def)

lemma round_mag_zero: "round_mag s 0 = Fin s 0"
  by (simp add: round_mag_def)

lemma fp_zero_closed_dbl: "fp_zero_closed TYPE(dbl)"
  unfolding fp_zero_closed_def
proof (intro conjI allI impI)
  show "zeroish (0::dbl)" by (simp add: zeroish_dbl zero_dbl_def)
  show "zeroish (- 0::dbl)" by (simp add: zeroish_dbl zero_dbl_def uminus_dbl_def)
  show "zeroish (x / d)" if "zeroish x" for x d :: dbl
    using that by (cases x; cases d) (auto simp: zeroish_dbl divide_dbl_def round_mag_zero)
  show "zeroish (l * x)" if "zeroish x" for l x :: dbl
    using that by (cases x; cases l) (auto simp: zeroish_dbl times_dbl_def round_mag_zero)
  show "zeroish (y - z)" if "zeroish y \<and> zeroish z" for y z :: dbl
    using that by (cases y; cases z) (auto simp: zeroish_dbl minus_dbl_def dbl_sub_def signed_def)
qed


lemma fp_order_facts:
  assumes "fp_order TYPE('a::{zero,one,uminus,ord})"
  shows "\<And>x::'a. \<not> x < x"
    and "\<And>x y z::'a. x < y \<Longrightarrow> y < z \<Longrightarrow> x < z"
    and "\<And>x y z::'a. y < z \<Longrightarrow> x \<le> x \<Longrightarrow> \<not> x < z \<Longrightarrow> y < x"
    and "\<And>x y::'a. x \<le> y \<longleftrightarrow> x \<le> x \<and> y \<le> y \<and> \<not> y < x"
    and "\<And>x y::'a. x < y \<Longrightarrow> x \<le> x"
    and "\<And>x y::'a. x < y \<Longrightarrow> y \<le> y"
    and "(- 1 :: 'a) < 0"
proof -
  note a = assms[unfolded fp_order_def]
  note a1 = a[THEN conjunct1, rule_format]
  note a2 = a[THEN conjunct2, THEN conjunct1, rule_format]
  note a3 = a[THEN conjunct2, THEN conjunct2, THEN conjunct1, rule_format]
  note a4 = a[THEN conjunct2, THEN conjunct2, THEN conjunct2, THEN conjunct1, rule_format]
  note a5 = a[THEN conjunct2, THEN conjunct2, THEN conjunct2, THEN conjunct2, THEN conjunct1, rule_format]
  note a6 = a[THEN conjunct2, THEN conjunct2, THEN conjunct2, THEN conjunct2, THEN conjunct2]
  show "\<not> x < x" for x :: 'a by (rule a1)
  show "x < z" if "x < y" "y < z" for x y z :: 'a by (rule a2) (use that in simp)
  show "y < x" if "y < z" "x \<le> x" "\<not> x < z" for x y z :: 'a by (rule a3) (use that in simp)
  show "x \<le> y \<longleftrightarrow> x \<le> x \<and> y \<le> y \<and> \<not> y < x" for x y :: 'a by (rule a4)
  show "x \<le> x" if "x < y" for x y :: 'a using a5[OF that] by simp
  show "y \<le> y" if "x < y" for x y :: 'a using a5[OF that] by simp
  show "(- 1 :: 'a) < 0" by (rule a6)
qed

section \<open>LU factorization: the pivot search\<close>

lemma find_pivot_step_state:
  fixes x :: "('a::{zero,one,uminus,abs,ord}) list"
  assumes fp: "fp_order TYPE('a)"
    and st: "pivot_state x C ipiv a"
    and s: "find_pivot_step xik pinv x p (ipiv, a, Ui, Ux, unz) = (ipiv', a', Ui', Ux', unz')"
  shows "pivot_state x (C @ filter (\<lambda>i. pinv ! nat i < 0) [xik ! p]) ipiv' a'"
proof (cases "pinv ! nat (xik ! p) < 0")
  case False
  then have "ipiv' = ipiv" "a' = a" using s by (simp_all add: find_pivot_step_def Let_def)
  then show ?thesis using st False by simp
next
  case True
  note o = fp_order_facts[OF fp]
  let ?i = "xik ! p"
  let ?t = "\<bar>x ! nat ?i\<bar>"
  show ?thesis
  proof (cases "a < ?t")
    case gt: True
    have e: "ipiv' = ?i" "a' = ?t" using s True gt by (auto simp: find_pivot_step_def Let_def)
    have m1: "- 1 < ?t"
      using st gt o(2)[of "- 1" a ?t] by (auto simp: pivot_state_def)
    have old: "\<not> ?t < \<bar>x ! nat j\<bar>" if "j \<in> set C" for j
    proof
      assume lt: "?t < \<bar>x ! nat j\<bar>"
      from o(2)[OF gt lt] have "a < \<bar>x ! nat j\<bar>" .
      then show False using st that by (auto simp: pivot_state_def list_all_iff)
    qed
    have "list_all (\<lambda>j. \<not> ?t < \<bar>x ! nat j\<bar>) (C @ [?i])"
      using old o(1)[of ?t] by (simp add: list_all_iff)
    then show ?thesis
      unfolding pivot_state_def e using True m1 by simp
  next
    case le: False
    have e: "ipiv' = ipiv" "a' = a" using s True le by (auto simp: find_pivot_step_def Let_def)
    show ?thesis
      using st le True unfolding pivot_state_def e by auto
  qed
qed

lemma find_pivot_fold_state:
  fixes x :: "('a::{zero,one,uminus,abs,ord}) list"
  assumes fp: "fp_order TYPE('a)"
  shows "pivot_state x C ipiv a \<Longrightarrow>
   fold (find_pivot_step xik pinv x) ps (ipiv, a, Ui, Ux, unz) = (ipiv', a', Ui', Ux', unz') \<Longrightarrow>
   pivot_state x (C @ filter (\<lambda>i. pinv ! nat i < 0) (map (\<lambda>p. xik ! p) ps)) ipiv' a'"
proof (induction ps arbitrary: C ipiv a Ui Ux unz)
  case Nil
  then show ?case by simp
next
  case (Cons p ps)
  obtain i1 a1 U1 X1 u1 where s: "find_pivot_step xik pinv x p (ipiv, a, Ui, Ux, unz) = (i1, a1, U1, X1, u1)"
    using prod_cases5 by blast
  from find_pivot_step_state[OF fp Cons.prems(1) s]
  have st1: "pivot_state x (C @ filter (\<lambda>i. pinv ! nat i < 0) [xik ! p]) i1 a1" .
  have "fold (find_pivot_step xik pinv x) ps (i1, a1, U1, X1, u1) = (ipiv', a', Ui', Ux', unz')"
    using Cons.prems(2) s by simp
  from Cons.IH[OF st1 this] show ?case
    by (cases "pinv ! nat (xik ! p) < 0") simp_all
qed

lemma find_pivot_state:
  fixes x :: "('a::{zero,one,uminus,abs,ord}) list"
  assumes fp: "fp_order TYPE('a)"
    and "find_pivot n tp xik pinv x Ui Ux unz = (ipiv0, a, Ui', Ux', unz')"
  shows "pivot_state x (candidates n tp xik pinv) ipiv0 a"
proof -
  have "pivot_state x [] (- 1) (- 1)" by (simp add: pivot_state_def)
  from find_pivot_fold_state[OF fp this assms(2)[unfolded find_pivot_def]]
  show ?thesis by (simp add: candidates_def)
qed

lemma find_pivot_fails_iff:
  fixes x :: "('a::{zero,one,uminus,abs,ord}) list"
  assumes fp: "fp_order TYPE('a)"
    and fpv: "find_pivot n tp xik pinv x Ui Ux unz = (ipiv0, a, Ui', Ux', unz')"
    and valid: "list_all (\<lambda>i. 0 \<le> i) (candidates n tp xik pinv)"
  shows "(ipiv0 = - 1 \<or> a \<le> 0) \<longleftrightarrow> list_all (\<lambda>i. zeroish (x ! nat i)) (candidates n tp xik pinv)"
proof -
  let ?C = "candidates n tp xik pinv"
  note o = fp_order_facts[OF fp]
  from find_pivot_state[OF fp fpv] have st: "pivot_state x ?C ipiv0 a" .
  have z0: "(0::'a) \<le> 0" using o(6)[OF o(7)] .
  show ?thesis
  proof (cases "ipiv0 = - 1")
    case True
    then have "ipiv0 \<notin> set ?C" using valid by (auto simp: list_all_iff)
    with st have all: "list_all (\<lambda>i. \<not> - 1 < \<bar>x ! nat i\<bar>) ?C" by (auto simp: pivot_state_def)
    have "zeroish (x ! nat i)" if "i \<in> set ?C" for i
    proof -
      have "\<not> - 1 < \<bar>x ! nat i\<bar>" using all that by (simp add: list_all_iff)
      then show ?thesis unfolding zeroish_def using o(2)[OF o(7), of "\<bar>x ! nat i\<bar>"] by blast
    qed
    then show ?thesis using True by (simp add: list_all_iff)
  next
    case False
    with st have h: "ipiv0 \<in> set ?C" "a = \<bar>x ! nat ipiv0\<bar>" "- 1 < a"
      "list_all (\<lambda>i. \<not> a < \<bar>x ! nat i\<bar>) ?C"
      by (auto simp: pivot_state_def)
    have aa: "a \<le> a" using o(6)[OF h(3)] .
    have le0: "a \<le> 0 \<longleftrightarrow> \<not> 0 < a" using o(4)[of a 0] aa z0 by blast
    have "\<not> 0 < a \<longleftrightarrow> list_all (\<lambda>i. zeroish (x ! nat i)) ?C"
    proof
      assume na: "\<not> 0 < a"
      have "zeroish (x ! nat i)" if "i \<in> set ?C" for i
      proof -
        have n: "\<not> a < \<bar>x ! nat i\<bar>" using h(4) that by (simp add: list_all_iff)
        show ?thesis unfolding zeroish_def
        proof
          assume "0 < \<bar>x ! nat i\<bar>"
          from o(3)[OF this aa n] na show False by simp
        qed
      qed
      then show "list_all (\<lambda>i. zeroish (x ! nat i)) ?C" by (simp add: list_all_iff)
    next
      assume "list_all (\<lambda>i. zeroish (x ! nat i)) ?C"
      with h(1,2) show "\<not> 0 < a" by (simp add: list_all_iff zeroish_def)
    qed
    then show ?thesis using False le0 by simp
  qed
qed

section \<open>LU factorization: pivot choice, failure and its frame\<close>

lemma ludcmp_solve_fields:
  assumes "ludcmp_solve fuel k A N lnz unz = Some (N1, tp)"
  shows "num_p N1 = num_p N" and "num_q N1 = num_q N" and "num_pinv N1 = num_pinv N"
    and "num_topvec N1 = (num_topvec N)[k := tp]"
  using assms by (auto simp: ludcmp_solve_def Let_def split: option.splits)

lemma ludcmp_step_cases:
  assumes so: "ludcmp_solve fuel k A N lnz unz = Some (N1, tp)"
    and fp: "find_pivot n tp (num_xi N1 ! k) (num_pinv N1) (num_w N1) (mat_Ai (num_U N1))
               (mat_Ax (num_U N1)) unz = (ipiv0, a, Ui, Ux, unz1)"
  shows "(ipiv0 = - 1 \<or> a \<le> 0) \<Longrightarrow>
           ludcmp_step fuel n k A pivtol N lnz unz
             = Some (FAILURE, N1\<lparr>num_U := (num_U N1)\<lparr>mat_Ai := Ui, mat_Ax := Ux\<rparr>\<rparr>, lnz, unz1)"
    and "\<not> (ipiv0 = - 1 \<or> a \<le> 0) \<Longrightarrow>
           \<exists>N2 lnz2. ludcmp_step fuel n k A pivtol N lnz unz = Some (SUCCESS, N2, lnz2, unz1 + 1) \<and>
             num_p N2 = (num_p N1)[k := choose_pivot (num_pinv N1) (num_w N1) (lu_col (num_q N1) k) a pivtol ipiv0]"
  using so fp by (auto simp: ludcmp_step_def Let_def split: prod.splits)

lemma ludcmp_pivot_choice_aux:
  fixes N :: "('a::{zero,one,uminus,minus,times,inverse,abs,ord}) sp_num"
  assumes fp: "fp_order TYPE('a)"
    and solve: "ludcmp_solve fuel k A N lnz unz = Some (N1, tp)"
    and step: "ludcmp_step fuel n k A pivtol N lnz unz = Some (SUCCESS, N2, lnz2, unz2)"
    and k: "k < length (num_p N)"
  shows "\<exists>ipiv0. ipiv0 \<in> set (candidates n tp (num_xi N1 ! k) (num_pinv N1)) \<and>
           0 < \<bar>num_w N1 ! nat ipiv0\<bar> \<and>
           list_all (\<lambda>i. \<not> \<bar>num_w N1 ! nat ipiv0\<bar> < \<bar>num_w N1 ! nat i\<bar>)
             (candidates n tp (num_xi N1 ! k) (num_pinv N1)) \<and>
           list_all (\<lambda>i. \<bar>num_w N1 ! nat i\<bar> \<le> \<bar>num_w N1 ! nat i\<bar> \<longrightarrow>
                        \<bar>num_w N1 ! nat i\<bar> \<le> \<bar>num_w N1 ! nat ipiv0\<bar>)
             (candidates n tp (num_xi N1 ! k) (num_pinv N1)) \<and>
           num_p N2 ! k =
             (if num_pinv N1 ! nat (lu_col (num_q N) k) < 0 \<and>
                 \<bar>num_w N1 ! nat (lu_col (num_q N) k)\<bar> \<ge> \<bar>num_w N1 ! nat ipiv0\<bar> * pivtol
              then lu_col (num_q N) k else ipiv0)"
proof -
  let ?C = "candidates n tp (num_xi N1 ! k) (num_pinv N1)"
  note o = fp_order_facts[OF fp]
  obtain ipiv0 a Ui Ux unz1 where fpv: "find_pivot n tp (num_xi N1 ! k) (num_pinv N1) (num_w N1)
      (mat_Ai (num_U N1)) (mat_Ax (num_U N1)) unz = (ipiv0, a, Ui, Ux, unz1)"
    using prod_cases5 by blast
  have ok: "\<not> (ipiv0 = - 1 \<or> a \<le> 0)"
    using ludcmp_step_cases(1)[OF solve fpv, where pivtol = pivtol] step by auto
  from ludcmp_step_cases(2)[OF solve fpv ok, where pivtol = pivtol] step
  have p2: "num_p N2 = (num_p N1)[k := choose_pivot (num_pinv N1) (num_w N1) (lu_col (num_q N1) k) a pivtol ipiv0]"
    by auto
  from find_pivot_state[OF fp fpv] ok
  have h: "ipiv0 \<in> set ?C" "a = \<bar>num_w N1 ! nat ipiv0\<bar>" "- 1 < a"
    "list_all (\<lambda>i. \<not> a < \<bar>num_w N1 ! nat i\<bar>) ?C"
    by (auto simp: pivot_state_def)
  have aa: "a \<le> a" using o(6)[OF h(3)] .
  have z0: "(0::'a) \<le> 0" using o(6)[OF o(7)] .
  have pos: "0 < a" using ok o(4)[of a 0] aa z0 by blast
  have le: "list_all (\<lambda>i. \<bar>num_w N1 ! nat i\<bar> \<le> \<bar>num_w N1 ! nat i\<bar> \<longrightarrow> \<bar>num_w N1 ! nat i\<bar> \<le> a) ?C"
    unfolding list_all_iff
  proof (intro ballI impI)
    fix i assume i: "i \<in> set ?C" and c: "\<bar>num_w N1 ! nat i\<bar> \<le> \<bar>num_w N1 ! nat i\<bar>"
    have "\<not> a < \<bar>num_w N1 ! nat i\<bar>" using h(4) i by (simp add: list_all_iff)
    then show "\<bar>num_w N1 ! nat i\<bar> \<le> a" using o(4)[of "\<bar>num_w N1 ! nat i\<bar>" a] c aa by blast
  qed
  have "num_p N2 ! k = choose_pivot (num_pinv N1) (num_w N1) (lu_col (num_q N) k) a pivtol ipiv0"
    using p2 k ludcmp_solve_fields(1,2)[OF solve] by simp
  then have "num_p N2 ! k =
             (if num_pinv N1 ! nat (lu_col (num_q N) k) < 0 \<and>
                 \<bar>num_w N1 ! nat (lu_col (num_q N) k)\<bar> \<ge> a * pivtol
              then lu_col (num_q N) k else ipiv0)"
    by (simp add: choose_pivot_def)
  with h(1) pos h(4) le show ?thesis unfolding h(2) by blast
qed

lemma ludcmp_step_frame:
  assumes "ludcmp_step fuel n k A pivtol N lnz unz = Some (st, N', lnz', unz')"
  shows "\<exists>t. num_topvec N' = (num_topvec N)[k := t]"
    and "st = FAILURE \<Longrightarrow> num_p N' = num_p N"
    and "st = SUCCESS \<Longrightarrow> \<exists>v. num_p N' = (num_p N)[k := v]"
proof -
  from assms obtain N1 tp where so: "ludcmp_solve fuel k A N lnz unz = Some (N1, tp)"
    by (auto simp: ludcmp_step_def split: option.splits)
  obtain ipiv0 a Ui Ux unz1 where fp: "find_pivot n tp (num_xi N1 ! k) (num_pinv N1) (num_w N1)
      (mat_Ai (num_U N1)) (mat_Ax (num_U N1)) unz = (ipiv0, a, Ui, Ux, unz1)"
    using prod_cases5 by blast
  note f = ludcmp_solve_fields[OF so]
  have "(\<exists>t. num_topvec N' = (num_topvec N)[k := t]) \<and> (st = FAILURE \<longrightarrow> num_p N' = num_p N) \<and>
        (st = SUCCESS \<longrightarrow> (\<exists>v. num_p N' = (num_p N)[k := v]))"
  proof (cases "ipiv0 = - 1 \<or> a \<le> 0")
    case True
    from ludcmp_step_cases(1)[OF so fp True, where pivtol = pivtol] assms
    have "st = FAILURE" "N' = N1\<lparr>num_U := (num_U N1)\<lparr>mat_Ai := Ui, mat_Ax := Ux\<rparr>\<rparr>" by simp_all
    then show ?thesis using f by auto
  next
    case False
    from assms so fp False
    have "st = SUCCESS" "num_topvec N' = num_topvec N1" "\<exists>v. num_p N' = (num_p N1)[k := v]"
      by (auto simp: ludcmp_step_def Let_def split: prod.splits)
    then show ?thesis using f by auto
  qed
  then show "\<exists>t. num_topvec N' = (num_topvec N)[k := t]"
    and "st = FAILURE \<Longrightarrow> num_p N' = num_p N"
    and "st = SUCCESS \<Longrightarrow> \<exists>v. num_p N' = (num_p N)[k := v]" by simp_all
qed

lemma ludcmp_loop_frame:
  "ludcmp_loop fuel n ks A pivtol N lnz unz = Some (st, N', lnz', unz') \<Longrightarrow>
   length (num_topvec N') = length (num_topvec N) \<and> length (num_p N') = length (num_p N) \<and>
   (\<forall>i. i \<notin> set ks \<longrightarrow> num_topvec N' ! i = num_topvec N ! i \<and> num_p N' ! i = num_p N ! i)"
proof (induction ks arbitrary: N lnz unz)
  case Nil
  then show ?case by simp
next
  case (Cons k ks)
  from Cons.prems obtain s1 N1 l1 u1 where r: "ludcmp_step fuel n k A pivtol N lnz unz = Some (s1, N1, l1, u1)"
    by (auto split: option.splits)
  from ludcmp_step_frame[OF r]
  obtain t where tv: "num_topvec N1 = (num_topvec N)[k := t]"
    and pf: "s1 = FAILURE \<Longrightarrow> num_p N1 = num_p N"
    and ps: "s1 = SUCCESS \<Longrightarrow> \<exists>v. num_p N1 = (num_p N)[k := v]" by blast
  have one: "length (num_topvec N1) = length (num_topvec N) \<and> length (num_p N1) = length (num_p N) \<and>
     (\<forall>i. i \<noteq> k \<longrightarrow> num_topvec N1 ! i = num_topvec N ! i \<and> num_p N1 ! i = num_p N ! i)"
    using tv pf ps by (cases s1) auto
  show ?case
  proof (cases s1)
    case FAILURE
    then have "N' = N1" using Cons.prems r by simp
    then show ?thesis using one by simp
  next
    case SUCCESS
    then have "ludcmp_loop fuel n ks A pivtol N1 l1 u1 = Some (st, N', lnz', unz')"
      using Cons.prems r by simp
    from Cons.IH[OF this] one show ?thesis by simp
  qed
qed

lemma splsolve_col_zeroish:
  fixes x :: "('a::{zero,uminus,minus,times,inverse,abs,ord}) list"
  assumes fz: "fp_zero_closed TYPE('a)"
    and R: "\<forall>r\<in>R. r < length x \<and> zeroish (x ! r)" and j: "nat (xik ! px) \<in> R"
  shows "\<forall>r\<in>R. zeroish (splsolve_col G xik pinv px x ! r)"
proof -
  note z = fz[unfolded fp_zero_closed_def]
  note zdiv = z[THEN conjunct2, THEN conjunct2, THEN conjunct1, rule_format]
  note zmul = z[THEN conjunct2, THEN conjunct2, THEN conjunct2, THEN conjunct1, rule_format]
  note zsub = z[THEN conjunct2, THEN conjunct2, THEN conjunct2, THEN conjunct2, rule_format]
  let ?j = "nat (xik ! px)"
  have inner: "(\<forall>r\<in>R. r < length y \<and> zeroish (y ! r)) \<Longrightarrow>
      (\<forall>r\<in>R. r < length (fold (\<lambda>p x. x[nat (mat_Ai G ! p) := x ! nat (mat_Ai G ! p) - mat_Ax G ! p * x ! ?j]) ps y) \<and>
              zeroish (fold (\<lambda>p x. x[nat (mat_Ai G ! p) := x ! nat (mat_Ai G ! p) - mat_Ax G ! p * x ! ?j]) ps y ! r))"
    for ps y
  proof (induction ps arbitrary: y)
    case Nil
    then show ?case by simp
  next
    case (Cons p ps)
    let ?i = "nat (mat_Ai G ! p)"
    let ?y = "y[?i := y ! ?i - mat_Ax G ! p * y ! ?j]"
    have "\<forall>r\<in>R. r < length ?y \<and> zeroish (?y ! r)"
    proof
      fix r assume r: "r \<in> R"
      have zj: "zeroish (y ! ?j)" using Cons.prems j by blast
      have rl: "r < length y" and zr: "zeroish (y ! r)" using Cons.prems r by blast+
      show "r < length ?y \<and> zeroish (?y ! r)"
      proof (cases "r = ?i")
        case True
        have "zeroish (y ! ?i - mat_Ax G ! p * y ! ?j)"
          using zsub[of "y ! ?i" "mat_Ax G ! p * y ! ?j"] zmul[OF zj, of "mat_Ax G ! p"] zr True by simp
        then show ?thesis using True rl by simp
      next
        case False
        then show ?thesis using rl zr by simp
      qed
    qed
    from Cons.IH[OF this] show ?case by simp
  qed
  show ?thesis
  proof (cases "pinv ! ?j < 0")
    case True
    then show ?thesis using R by (simp add: splsolve_col_def Let_def)
  next
    case False
    let ?x1 = "x[?j := x ! ?j / mat_Ax G ! nat (mat_Ap G ! nat (pinv ! ?j))]"
    have "\<forall>r\<in>R. r < length ?x1 \<and> zeroish (?x1 ! r)"
    proof
      fix r assume r: "r \<in> R"
      have rl: "r < length x" and zr: "zeroish (x ! r)" using R r by blast+
      show "r < length ?x1 \<and> zeroish (?x1 ! r)"
      proof (cases "r = ?j")
        case True
        then show ?thesis using rl zdiv[OF zr] by simp
      next
        case False
        then show ?thesis using rl zr by simp
      qed
    qed
    from inner[OF this] show ?thesis using False by (simp add: splsolve_col_def Let_def)
  qed
qed

lemma splsolve_fold_zeroish:
  fixes x :: "('a::{zero,uminus,minus,times,inverse,abs,ord}) list"
  assumes fz: "fp_zero_closed TYPE('a)"
  shows "\<forall>r\<in>R. r < length x \<and> zeroish (x ! r) \<Longrightarrow> \<forall>p\<in>set ps. nat (xik ! p) \<in> R \<Longrightarrow>
         \<forall>r\<in>R. zeroish (fold (splsolve_col G xik pinv) ps x ! r)"
proof (induction ps arbitrary: x)
  case Nil
  then show ?case by simp
next
  case (Cons p ps)
  have j: "nat (xik ! p) \<in> R" using Cons.prems(2) by simp
  from splsolve_col_zeroish[OF fz Cons.prems(1) j]
  have "\<forall>r\<in>R. r < length (splsolve_col G xik pinv p x) \<and> zeroish (splsolve_col G xik pinv p x ! r)"
    using Cons.prems(1) by (simp add: splsolve_col_length)
  from Cons.IH[OF this] Cons.prems(2) show ?case by simp
qed

lemma fold_store_zeroish:
  fixes x :: "('a::{zero,abs,ord}) list"
  assumes "\<forall>p\<in>set ps. zeroish (Bx ! p)" "r < length x" "zeroish (x ! r)"
  shows "zeroish (fold (\<lambda>p x. x[nat (Bi ! p) := Bx ! p]) ps x ! r)"
  using assms
proof (induction ps arbitrary: x)
  case Nil
  then show ?case by simp
next
  case (Cons p ps)
  have "zeroish (x[nat (Bi ! p) := Bx ! p] ! r)"
    using Cons.prems by (cases "r = nat (Bi ! p)") simp_all
  then show ?case using Cons by simp
qed

lemma sp_splsolve_zero_col:
  fixes x :: "('a::{zero,uminus,minus,times,inverse,abs,ord}) list"
  assumes fz: "fp_zero_closed TYPE('a)"
    and nc: "mat_ncols G = n" and lx: "length x = n"
    and rng: "\<forall>p\<in>set [nat tp ..< n]. 0 \<le> xik ! p \<and> xik ! p < int n"
    and z: "zero_col B c" and p: "p \<in> set [nat tp ..< n]"
  shows "zeroish (sp_splsolve G B c xik tp x pinv ! nat (xik ! p))"
proof -
  define R where "R = (\<lambda>p. nat (xik ! p)) ` set [nat tp ..< n]"
  define x1 where "x1 = fold (\<lambda>p x. x[nat (xik ! p) := 0]) [nat tp ..< n] x"
  define x2 where "x2 = fold (\<lambda>p x. x[nat (mat_Ai B ! p) := mat_Ax B ! p]) (col_range (mat_Ap B) c) x1"
  have z0: "zeroish (0::'a)" "zeroish (- 0::'a)"
    using fz unfolding fp_zero_closed_def by blast+
  have Rn: "r < n" if "r \<in> R" for r
  proof -
    from that obtain q where q: "q \<in> set [nat tp ..< n]" and r: "r = nat (xik ! q)"
      unfolding R_def by blast
    have "0 \<le> xik ! q \<and> xik ! q < int n" using rng q by blast
    then show ?thesis unfolding r by linarith
  qed
  have l1: "length x1 = n" unfolding x1_def by (simp add: fold_mark_length lx)
  have a1: "x1 ! r = 0" if "r \<in> R" for r
  proof -
    from that obtain q where q: "q \<in> set [nat tp ..< n]" and r: "r = nat (xik ! q)"
      unfolding R_def by blast
    have "r < length x" using Rn[OF that] lx by simp
    then show ?thesis
      unfolding x1_def r using q fold_mark_nth[of "nat (xik ! q)" x "\<lambda>p. nat (xik ! p)" 0 "[nat tp ..< n]"]
      by auto
  qed
  have zc: "\<forall>p\<in>set (col_range (mat_Ap B) c). zeroish (mat_Ax B ! p)"
    using z z0 by (auto simp: zero_col_def list_all_iff)
  have l2: "length x2 = n" unfolding x2_def using l1 by (simp add: fold_length_preserved)
  have a2: "\<forall>r\<in>R. r < length x2 \<and> zeroish (x2 ! r)"
  proof
    fix r assume r: "r \<in> R"
    have "zeroish (x2 ! r)"
      unfolding x2_def by (rule fold_store_zeroish[OF zc]) (use a1[OF r] Rn[OF r] l1 z0 in simp_all)
    then show "r < length x2 \<and> zeroish (x2 ! r)" using Rn[OF r] l2 by simp
  qed
  have "\<forall>r\<in>R. zeroish (fold (splsolve_col G xik pinv) [nat tp ..< n] x2 ! r)"
    by (rule splsolve_fold_zeroish[OF fz a2]) (simp add: R_def)
  moreover have "sp_splsolve G B c xik tp x pinv = fold (splsolve_col G xik pinv) [nat tp ..< n] x2"
    by (simp add: sp_splsolve_def Let_def nc x1_def x2_def)
  moreover have "nat (xik ! p) \<in> R" using p unfolding R_def by blast
  ultimately show ?thesis by simp
qed

lemma candidates_stack:
  assumes "length xik = n"
  shows "candidates n tp xik pinv = filter (\<lambda>i. pinv ! nat i < 0) (stack_of tp xik)"
  by (simp add: candidates_def stack_of_map[OF assms])

lemma step_fails_iff_no_pivot:
  fixes N :: "('a::{zero,one,uminus,minus,times,inverse,abs,ord}) sp_num"
  assumes fp: "fp_order TYPE('a)"
    and inv: "lu_inv n k N lnz" and k: "k < n" and wf: "wf_mat n A" and fuel: "n \<le> fuel"
    and so: "ludcmp_solve fuel k A N lnz unz = Some (N1, tp)"
  shows "(\<exists>N' lnz' unz'. ludcmp_step fuel n k A pivtol N lnz unz = Some (FAILURE, N', lnz', unz'))
           \<longleftrightarrow> no_pivot n k tp N1"
proof -
  from ludcmp_solve_ok[OF inv k wf fuel, of unz] so
  have xi1: "\<forall>j<n. length (num_xi N1 ! j) = n"
    and rng: "\<forall>v\<in>set (stack_of tp (num_xi N1 ! k)). 0 \<le> v \<and> v < int n" by auto
  have lx: "length (num_xi N1 ! k) = n" using xi1 k by simp
  obtain ipiv0 a Ui Ux unz1 where fpv: "find_pivot n tp (num_xi N1 ! k) (num_pinv N1) (num_w N1)
      (mat_Ai (num_U N1)) (mat_Ax (num_U N1)) unz = (ipiv0, a, Ui, Ux, unz1)"
    using prod_cases5 by blast
  have valid: "list_all (\<lambda>i. 0 \<le> i) (candidates n tp (num_xi N1 ! k) (num_pinv N1))"
    using rng by (simp add: candidates_stack[OF lx] list_all_iff)
  have "(\<exists>N' lnz' unz'. ludcmp_step fuel n k A pivtol N lnz unz = Some (FAILURE, N', lnz', unz'))
           \<longleftrightarrow> (ipiv0 = - 1 \<or> a \<le> 0)"
  proof (cases "ipiv0 = - 1 \<or> a \<le> 0")
    case True
    then show ?thesis using ludcmp_step_cases(1)[OF so fpv True, where pivtol = pivtol] by simp
  next
    case False
    from ludcmp_step_cases(2)[OF so fpv False, where pivtol = pivtol]
    obtain N2 lnz2 where "ludcmp_step fuel n k A pivtol N lnz unz = Some (SUCCESS, N2, lnz2, unz1 + 1)"
      by blast
    then show ?thesis using False by simp
  qed
  also have "\<dots> \<longleftrightarrow> no_pivot n k tp N1"
    unfolding no_pivot_def by (rule find_pivot_fails_iff[OF fp fpv valid])
  finally show ?thesis .
qed

lemma zero_col_no_pivot:
  fixes N :: "('a::{zero,one,uminus,minus,times,inverse,abs,ord}) sp_num"
  assumes fz: "fp_zero_closed TYPE('a)"
    and inv: "lu_inv n k N lnz" and k: "k < n" and wf: "wf_mat n A" and fuel: "n \<le> fuel"
    and so: "ludcmp_solve fuel k A N lnz unz = Some (N1, tp)"
    and z: "zero_col A (nat (lu_col (num_q N) k))"
  shows "no_pivot n k tp N1"
proof -
  from ludcmp_solve_ok[OF inv k wf fuel, of unz] so
  have xi1: "\<forall>j<n. length (num_xi N1 ! j) = n" and nc: "mat_ncols (num_L N1) = n"
    and rng: "\<forall>v\<in>set (stack_of tp (num_xi N1 ! k)). 0 \<le> v \<and> v < int n"
    and w: "num_w N1 = sp_splsolve (num_L N1) A (nat (lu_col (num_q N) k)) (num_xi N1 ! k) tp
                        (num_w N) (num_pinv N)"
    by auto
  have lx: "length (num_xi N1 ! k) = n" using xi1 k by simp
  have lw: "length (num_w N) = n" using inv by (simp add: lu_inv_def num_sized_def)
  have rng': "\<forall>p\<in>set [nat tp ..< n]. 0 \<le> num_xi N1 ! k ! p \<and> num_xi N1 ! k ! p < int n"
    using rng by (simp add: stack_of_set[OF lx])
  have zero: "zeroish (num_w N1 ! nat (num_xi N1 ! k ! p))" if "p \<in> set [nat tp ..< n]" for p
    unfolding w by (rule sp_splsolve_zero_col[OF fz nc lw rng' z that])
  have "list_all (\<lambda>i. zeroish (num_w N1 ! nat i)) (candidates n tp (num_xi N1 ! k) (num_pinv N1))"
    using zero by (auto simp: candidates_def list_all_iff)
  then show ?thesis by (simp add: no_pivot_def)
qed

lemma ludcmp_loop_append:
  "ludcmp_loop fuel n (ks1 @ ks2) A pivtol N lnz unz =
     (case ludcmp_loop fuel n ks1 A pivtol N lnz unz of
        None \<Rightarrow> None
      | Some (FAILURE, N', lnz', unz') \<Rightarrow> Some (FAILURE, N', lnz', unz')
      | Some (SUCCESS, N', lnz', unz') \<Rightarrow> ludcmp_loop fuel n ks2 A pivtol N' lnz' unz')"
  by (induction ks1 arbitrary: N lnz unz) (auto split: option.splits status.splits)

lemma ludcmp_loop_failure_point:
  "ludcmp_loop fuel n [k0 ..< m] A pivtol N lnz unz = Some (FAILURE, r) \<Longrightarrow>
   \<exists>k Nk l u. k0 \<le> k \<and> k < m \<and>
     ludcmp_loop fuel n [k0 ..< k] A pivtol N lnz unz = Some (SUCCESS, Nk, l, u) \<and>
     ludcmp_step fuel n k A pivtol Nk l u = Some (FAILURE, r)"
proof (induction "m - k0" arbitrary: m)
  case 0
  then show ?case by simp
next
  case (Suc d)
  then obtain m' where m: "m = Suc m'" and le: "k0 \<le> m'" and d: "d = m' - k0"
    by (cases m) auto
  have up: "[k0 ..< m] = [k0 ..< m'] @ [m']" using m le by simp
  obtain st N1 l1 u1 where pre: "ludcmp_loop fuel n [k0 ..< m'] A pivtol N lnz unz = Some (st, N1, l1, u1)"
    using Suc.prems by (auto simp: up ludcmp_loop_append split: option.splits)
  show ?case
  proof (cases st)
    case FAILURE
    then have "ludcmp_loop fuel n [k0 ..< m'] A pivtol N lnz unz = Some (FAILURE, r)"
      using Suc.prems pre by (simp add: up ludcmp_loop_append)
    from Suc.hyps(1)[OF d this] m show ?thesis
      by (meson less_Suc_eq)
  next
    case SUCCESS
    then have "ludcmp_step fuel n m' A pivtol N1 l1 u1 = Some (FAILURE, r)"
      using Suc.prems pre
      by (auto simp: up ludcmp_loop_append split: option.splits status.splits)
    then show ?thesis using pre SUCCESS le m by (intro exI[of _ m']) auto
  qed
qed

lemma ludcmp_step_q:
  assumes "ludcmp_step fuel n k A pivtol N lnz unz = Some (st, N', lnz', unz')"
  shows "num_q N' = num_q N"
proof -
  from assms obtain N1 tp where so: "ludcmp_solve fuel k A N lnz unz = Some (N1, tp)"
    by (auto simp: ludcmp_step_def split: option.splits)
  have "num_q N' = num_q N1"
    using assms so by (auto simp: ludcmp_step_def Let_def split: prod.splits if_splits)
  then show ?thesis using ludcmp_solve_fields(2)[OF so] by simp
qed

lemma ludcmp_loop_q:
  "ludcmp_loop fuel n ks A pivtol N lnz unz = Some (st, N', lnz', unz') \<Longrightarrow> num_q N' = num_q N"
proof (induction ks arbitrary: N lnz unz)
  case Nil
  then show ?case by simp
next
  case (Cons k ks)
  from Cons.prems obtain s1 N1 l1 u1 where r: "ludcmp_step fuel n k A pivtol N lnz unz = Some (s1, N1, l1, u1)"
    by (auto split: option.splits)
  note q1 = ludcmp_step_q[OF r]
  show ?case
  proof (cases s1)
    case FAILURE
    then show ?thesis using Cons.prems r q1 by simp
  next
    case SUCCESS
    then have "ludcmp_loop fuel n ks A pivtol N1 l1 u1 = Some (st, N', lnz', unz')"
      using Cons.prems r by simp
    from Cons.IH[OF this] q1 show ?thesis by simp
  qed
qed

lemma sp_ludcmp_loop_status:
  "(\<exists>N'. sp_ludcmp fuel N A pivtol = Some (FAILURE, N')) \<longleftrightarrow>
   (\<exists>r. ludcmp_loop fuel (mat_ncols A) [0 ..< mat_ncols A] A pivtol (ludcmp_init (mat_ncols A) N) 0 0
          = Some (FAILURE, r))"
  by (auto simp: sp_ludcmp_def Let_def split: option.splits status.splits)

lemma upt_split_mid: "k < n \<Longrightarrow> [0 ..< n] = [0 ..< k] @ k # [Suc k ..< n]"
  using upt_add_eq_append[of 0 k "n - k"] by (simp add: upt_conv_Cons)

lemma ludcmp_loop_fails_at:
  assumes k: "k < n"
    and pre: "ludcmp_loop fuel n [0 ..< k] A pivtol N0 0 0 = Some (SUCCESS, Nk, l, u)"
    and st: "ludcmp_step fuel n k A pivtol Nk l u = Some (FAILURE, r)"
  shows "ludcmp_loop fuel n [0 ..< n] A pivtol N0 0 0 = Some (FAILURE, r)"
  using pre st by (cases r) (simp add: upt_split_mid[OF k] ludcmp_loop_append)

lemma sp_ludcmp_failure_iff:
  fixes N :: "('a::{zero,one,uminus,minus,times,inverse,abs,ord}) sp_num"
  assumes fp: "fp_order TYPE('a)"
    and wf: "wf_mat n A" and sz: "num_sized n N" and fuel: "n \<le> fuel"
  shows "(\<exists>N'. sp_ludcmp fuel N A pivtol = Some (FAILURE, N')) \<longleftrightarrow>
         (\<exists>k<n. \<exists>Nk lnz unz N1 tp.
            ludcmp_loop fuel n [0 ..< k] A pivtol (ludcmp_init n N) 0 0 = Some (SUCCESS, Nk, lnz, unz) \<and>
            ludcmp_solve fuel k A Nk lnz unz = Some (N1, tp) \<and> no_pivot n k tp N1)"
    (is "?L \<longleftrightarrow> ?R")
proof
  have n: "mat_ncols A = n" using wf by (simp add: wf_mat_def)
  note init = ludcmp_init_inv[OF sz]
  {
    assume ?L
    then obtain r where "ludcmp_loop fuel n [0 ..< n] A pivtol (ludcmp_init n N) 0 0 = Some (FAILURE, r)"
      using sp_ludcmp_loop_status[of fuel N A pivtol] n by auto
    from ludcmp_loop_failure_point[OF this]
    obtain k Nk l u where k: "k < n"
      and pre: "ludcmp_loop fuel n [0 ..< k] A pivtol (ludcmp_init n N) 0 0 = Some (SUCCESS, Nk, l, u)"
      and st: "ludcmp_step fuel n k A pivtol Nk l u = Some (FAILURE, r)" by blast
    have "k \<le> n" using k by simp
    from ludcmp_loop_ok[OF wf fuel this init, of pivtol 0] pre
    have inv: "lu_inv n k Nk l" by auto
    from ludcmp_solve_ok[OF inv k wf fuel, of u]
    obtain N1 tp where so: "ludcmp_solve fuel k A Nk l u = Some (N1, tp)" by blast
    have "no_pivot n k tp N1"
      using step_fails_iff_no_pivot[OF fp inv k wf fuel so, of pivtol] st by (cases r) auto
    with k pre so show ?R by blast
  }
  {
    assume ?R
    then obtain k Nk l u N1 tp where k: "k < n"
      and pre: "ludcmp_loop fuel n [0 ..< k] A pivtol (ludcmp_init n N) 0 0 = Some (SUCCESS, Nk, l, u)"
      and so: "ludcmp_solve fuel k A Nk l u = Some (N1, tp)" and np: "no_pivot n k tp N1" by blast
    have "k \<le> n" using k by simp
    from ludcmp_loop_ok[OF wf fuel this init, of pivtol 0] pre
    have inv: "lu_inv n k Nk l" by auto
    from step_fails_iff_no_pivot[OF fp inv k wf fuel so, of pivtol] np
    obtain N' l' u' where "ludcmp_step fuel n k A pivtol Nk l u = Some (FAILURE, N', l', u')" by blast
    from ludcmp_loop_fails_at[OF k pre this]
    show ?L using sp_ludcmp_loop_status[of fuel N A pivtol] n by auto
  }
qed

lemma sp_ludcmp_zero_col_fails:
  fixes N :: "('a::{zero,one,uminus,minus,times,inverse,abs,ord}) sp_num"
  assumes fp: "fp_order TYPE('a)" and fz: "fp_zero_closed TYPE('a)"
    and wf: "wf_mat n A" and sz: "num_sized n N" and fuel: "n \<le> fuel"
    and k: "k < n" and z: "zero_col A (nat (lu_col (num_q N) k))"
  shows "\<exists>N'. sp_ludcmp fuel N A pivtol = Some (FAILURE, N')"
proof -
  have n: "mat_ncols A = n" using wf by (simp add: wf_mat_def)
  have "k \<le> n" using k by simp
  from ludcmp_loop_ok[OF wf fuel this ludcmp_init_inv[OF sz], of pivtol 0]
  obtain st Nk l u where pre: "ludcmp_loop fuel n [0 ..< k] A pivtol (ludcmp_init n N) 0 0 = Some (st, Nk, l, u)"
    and i: "st = SUCCESS \<longrightarrow> lu_inv n k Nk l" by blast
  have "\<exists>r. ludcmp_loop fuel n [0 ..< n] A pivtol (ludcmp_init n N) 0 0 = Some (FAILURE, r)"
  proof (cases st)
    case FAILURE
    then show ?thesis using pre by (simp add: upt_split_mid[OF k] ludcmp_loop_append)
  next
    case SUCCESS
    with i have inv: "lu_inv n k Nk l" by simp
    have q: "num_q Nk = num_q N" using ludcmp_loop_q[OF pre] by (simp add: ludcmp_init_def)
    from ludcmp_solve_ok[OF inv k wf fuel, of u]
    obtain N1 tp where so: "ludcmp_solve fuel k A Nk l u = Some (N1, tp)" by blast
    have "no_pivot n k tp N1"
      by (rule zero_col_no_pivot[OF fz inv k wf fuel so]) (simp add: q z)
    with step_fails_iff_no_pivot[OF fp inv k wf fuel so, of pivtol]
    obtain N' l' u' where "ludcmp_step fuel n k A pivtol Nk l u = Some (FAILURE, N', l', u')" by blast
    from ludcmp_loop_fails_at[OF k pre[unfolded SUCCESS] this] show ?thesis by blast
  qed
  then show ?thesis using sp_ludcmp_loop_status[of fuel N A pivtol] n by auto
qed

lemma ludcmp_loop_prefix:
  assumes "ludcmp_loop fuel n (ks1 @ ks2) A pivtol N lnz unz = Some (SUCCESS, N', lnz', unz')"
  shows "\<exists>N1 l1 u1. ludcmp_loop fuel n ks1 A pivtol N lnz unz = Some (SUCCESS, N1, l1, u1) \<and>
           ludcmp_loop fuel n ks2 A pivtol N1 l1 u1 = Some (SUCCESS, N', lnz', unz')"
  using assms by (auto simp: ludcmp_loop_append split: option.splits status.splits)

lemma drop_eq_nth:
  assumes "length xs = length ys" "\<forall>i. m \<le> i \<longrightarrow> xs ! i = ys ! i"
  shows "drop m xs = drop m ys"
  using assms by (intro nth_equalityI) simp_all

lemma sp_ludcmp_failure_frame_aux:
  assumes wf: "wf_mat n A" and sz: "num_sized n N"
    and run: "sp_ludcmp fuel N A pivtol = Some (FAILURE, N')"
  shows "\<exists>k<n. \<exists>Nk lnz unz lnz' unz' N1 tp.
           ludcmp_loop fuel n [0 ..< k] A pivtol (ludcmp_init n N) 0 0 = Some (SUCCESS, Nk, lnz, unz) \<and>
           ludcmp_step fuel n k A pivtol Nk lnz unz = Some (FAILURE, N', lnz', unz') \<and>
           ludcmp_solve fuel k A Nk lnz unz = Some (N1, tp) \<and> num_topvec N' ! k = tp \<and>
           drop (Suc k) (num_topvec N') = drop (Suc k) (num_topvec N) \<and>
           drop k (num_p N') = drop k (num_p N) \<and>
           (\<forall>j<k. \<exists>Nj lj uj.
              ludcmp_loop fuel n [0 ..< Suc j] A pivtol (ludcmp_init n N) 0 0 = Some (SUCCESS, Nj, lj, uj) \<and>
              num_p N' ! j = num_p Nj ! j \<and> num_topvec N' ! j = num_topvec Nj ! j \<and>
              0 \<le> num_p N' ! j \<and> num_p N' ! j < int n)"
proof -
  have n: "mat_ncols A = n" using wf by (simp add: wf_mat_def)
  let ?N0 = "ludcmp_init n N"
  have tv0: "num_topvec ?N0 = num_topvec N" and p0: "num_p ?N0 = num_p N"
    by (simp_all add: ludcmp_init_def)
  have ln: "length (num_topvec N) = n" "length (num_p N) = n" using sz by (simp_all add: num_sized_def)
  from run obtain l' u' where
    all: "ludcmp_loop fuel n [0 ..< n] A pivtol ?N0 0 0 = Some (FAILURE, N', l', u')"
    by (auto simp: sp_ludcmp_def Let_def n split: option.splits status.splits)
  from ludcmp_loop_failure_point[OF all]
  obtain k Nk l u where k: "k < n"
    and pre: "ludcmp_loop fuel n [0 ..< k] A pivtol ?N0 0 0 = Some (SUCCESS, Nk, l, u)"
    and st: "ludcmp_step fuel n k A pivtol Nk l u = Some (FAILURE, N', l', u')" by blast
  from st obtain N1 tp where so: "ludcmp_solve fuel k A Nk l u = Some (N1, tp)"
    by (auto simp: ludcmp_step_def split: option.splits)
  note fk = ludcmp_loop_frame[OF pre]
  have lk: "length (num_topvec Nk) = n" "length (num_p Nk) = n" using fk tv0 p0 ln by simp_all
  obtain ipiv0 a Ui Ux unz1 where fpv: "find_pivot n tp (num_xi N1 ! k) (num_pinv N1) (num_w N1)
      (mat_Ai (num_U N1)) (mat_Ax (num_U N1)) u = (ipiv0, a, Ui, Ux, unz1)"
    using prod_cases5 by blast
  have fail: "ipiv0 = - 1 \<or> a \<le> 0"
    using ludcmp_step_cases(2)[OF so fpv, where pivtol = pivtol] st by auto
  from ludcmp_step_cases(1)[OF so fpv fail, where pivtol = pivtol] st
  have N': "N' = N1\<lparr>num_U := (num_U N1)\<lparr>mat_Ai := Ui, mat_Ax := Ux\<rparr>\<rparr>" by simp
  have tvN': "num_topvec N' = (num_topvec Nk)[k := tp]" and pN': "num_p N' = num_p Nk"
    using N' ludcmp_solve_fields[OF so] by simp_all
  have top_k: "num_topvec N' ! k = tp" using tvN' lk k by simp
  have hi_tv: "drop (Suc k) (num_topvec N') = drop (Suc k) (num_topvec N)"
  proof (rule drop_eq_nth)
    show "length (num_topvec N') = length (num_topvec N)" using tvN' lk ln by simp
    show "\<forall>i. Suc k \<le> i \<longrightarrow> num_topvec N' ! i = num_topvec N ! i"
      using tvN' fk tv0 by auto
  qed
  have hi_p: "drop k (num_p N') = drop k (num_p N)"
  proof (rule drop_eq_nth)
    show "length (num_p N') = length (num_p N)" using pN' lk ln by simp
    show "\<forall>i. k \<le> i \<longrightarrow> num_p N' ! i = num_p N ! i"
      using pN' fk p0 by auto
  qed
  have pre': "ludcmp_loop (max fuel n) n [0 ..< k] A pivtol ?N0 0 0 = Some (SUCCESS, Nk, l, u)"
    by (rule ludcmp_loop_fuel_mono[OF pre]) simp
  have "k \<le> n" using k by simp
  from ludcmp_loop_ok[OF wf _ this ludcmp_init_inv[OF sz], of "max fuel n" pivtol 0] pre'
  have inv: "lu_inv n k Nk l" by auto
  then have pp: "pinv_p_inv n k (num_pinv Nk) (num_p Nk)" by (simp add: lu_inv_def)
  have low: "\<exists>Nj lj uj.
              ludcmp_loop fuel n [0 ..< Suc j] A pivtol ?N0 0 0 = Some (SUCCESS, Nj, lj, uj) \<and>
              num_p N' ! j = num_p Nj ! j \<and> num_topvec N' ! j = num_topvec Nj ! j \<and>
              0 \<le> num_p N' ! j \<and> num_p N' ! j < int n" if j: "j < k" for j
  proof -
    have sp: "[0 ..< k] = [0 ..< Suc j] @ [Suc j ..< k]"
      using j upt_add_eq_append[of 0 "Suc j" "k - Suc j"] by simp
    from ludcmp_loop_prefix[OF pre[unfolded sp]]
    obtain Nj lj uj where a: "ludcmp_loop fuel n [0 ..< Suc j] A pivtol ?N0 0 0 = Some (SUCCESS, Nj, lj, uj)"
      and b: "ludcmp_loop fuel n [Suc j ..< k] A pivtol Nj lj uj = Some (SUCCESS, Nk, l, u)" by blast
    from ludcmp_loop_frame[OF b]
    have e: "num_topvec Nk ! j = num_topvec Nj ! j" "num_p Nk ! j = num_p Nj ! j" by simp_all
    have "num_topvec N' ! j = num_topvec Nk ! j" using tvN' j by simp
    moreover have "0 \<le> num_p Nk ! j \<and> num_p Nk ! j < int n"
      using pp j by (simp add: pinv_p_inv_def)
    ultimately show ?thesis using a e pN' by simp
  qed
  show ?thesis
    using k pre st so top_k hi_tv hi_p low by blast
qed

section \<open>Refactorization: what is stored\<close>






section \<open>Refactorization: the factors fit their arrays\<close>






section \<open>Pattern union builder: the claims\<close>

text \<open>
  Claim C6, as stated: for the 3x3 pattern with nonzeros at (row, col) = (0,0), (1,0),
  (0,1), (2,2), column 1 of the union holds rows 0 and 1. The pattern is symmetric, so the
  transpose adds nothing: the code's column 1 holds row 0 only.
\<close>

theorem pattern_union_example_counterexample:
  "set (col_rows (fst (get_pattern_A_plus_AT [0, 2, 3, 4] [0, 1, 0, 2] 3))
                 (snd (get_pattern_A_plus_AT [0, 2, 3, 4] [0, 1, 0, 2] 3)) 1) \<noteq> {0, 1}"
proof -
  have "col_rows (fst (get_pattern_A_plus_AT [0, 2, 3, 4] [0, 1, 0, 2] 3))
                 (snd (get_pattern_A_plus_AT [0, 2, 3, 4] [0, 1, 0, 2] 3)) 1 = [0]"
    by code_simp
  then show ?thesis by simp
qed

text \<open>
  Claim C6, amended: for that input \<^verbatim>\<open>get_pattern_A_plus_AT\<close> produces column
  pointers 0, 2, 3, 4 and the columns: column 0 rows 0 and 1, column 1 row 0,
  column 2 row 2, each without a duplicate.
\<close>

theorem pattern_union_example:
  "fst (get_pattern_A_plus_AT [0, 2, 3, 4] [0, 1, 0, 2] 3) = [0, 2, 3, 4] \<and>
   col_rows (fst (get_pattern_A_plus_AT [0, 2, 3, 4] [0, 1, 0, 2] 3))
            (snd (get_pattern_A_plus_AT [0, 2, 3, 4] [0, 1, 0, 2] 3)) 0 = [0, 1] \<and>
   col_rows (fst (get_pattern_A_plus_AT [0, 2, 3, 4] [0, 1, 0, 2] 3))
            (snd (get_pattern_A_plus_AT [0, 2, 3, 4] [0, 1, 0, 2] 3)) 1 = [0] \<and>
   col_rows (fst (get_pattern_A_plus_AT [0, 2, 3, 4] [0, 1, 0, 2] 3))
            (snd (get_pattern_A_plus_AT [0, 2, 3, 4] [0, 1, 0, 2] 3)) 2 = [2]"
  by code_simp

text \<open>
  Claim C5, as stated: for every column \<open>j\<close>, the row index \<open>j\<close> does not occur among the
  output rows of column \<open>j\<close>. On the \<open>2\<times>2\<close> pattern with nonzeros at (0,0) and (1,1) the
  output column 0 holds row 0: the merge copies every row index of the column of \<open>A\<close> and
  of the column of its transpose, and no test compares the row index with \<open>j\<close>.
\<close>

theorem pattern_union_diagonal_counterexample:
  "0 \<in> set (col_rows (fst (get_pattern_A_plus_AT [0, 1, 2] [0, 1] 2))
                      (snd (get_pattern_A_plus_AT [0, 1, 2] [0, 1] 2)) 0)"
proof -
  have "col_rows (fst (get_pattern_A_plus_AT [0, 1, 2] [0, 1] 2))
                 (snd (get_pattern_A_plus_AT [0, 1, 2] [0, 1] 2)) 0 = [0]"
    by code_simp
  then show ?thesis by simp
qed

lemma wf_eye2: "wf_pattern 2 [0, 1, 2] [0, 1]"
  by (simp add: wf_pattern_def less_Suc_eq numeral_2_eq_2 nth_Cons')

text \<open>
  Claim C5, amended: for every well-formed square pattern (column pointers nondecreasing
  from 0, row indices below \<open>n\<close>) and every column \<open>j\<close>, the rows \<^verbatim>\<open>get_pattern_A_plus_AT\<close>
  lists for column \<open>j\<close> are the rows of column \<open>j\<close> of \<open>A\<close> together with the columns of \<open>A\<close>
  that hold row \<open>j\<close>, that is the union of \<open>A\<close> and its transpose with the diagonal
  kept: row \<open>j\<close> occurs in the output column \<open>j\<close> exactly when \<open>A\<close> has the entry \<open>(j, j)\<close>.
\<close>

theorem pattern_union_keeps_diagonal:
  assumes "wf_pattern n Bp Bi" and "j < n"
    and "get_pattern_A_plus_AT Bp Bi n = (Cp, Ci)"
  shows "set (col_rows Cp Ci j)
           = set (col_rows Bp Bi j) \<union> {int i | i. i < n \<and> int j \<in> set (col_rows Bp Bi i)} \<and>
         (int j \<in> set (col_rows Cp Ci j) \<longleftrightarrow> int j \<in> set (col_rows Bp Bi j))"
proof -
  note u = pattern_union_cols[OF assms]
  have "int j \<in> set (col_rows Cp Ci j) \<longleftrightarrow> int j \<in> set (col_rows Bp Bi j)"
    unfolding u by auto
  with u show ?thesis by simp
qed

theorem pattern_union_keeps_diagonal_witness:
  "wf_pattern 2 [0, 1, 2] [0, 1] \<and> (0::nat) < 2 \<and>
   get_pattern_A_plus_AT [0, 1, 2] [0, 1] 2 = ([0, 1, 2], [0, 1, 0, 0, 0, 0]) \<and>
   int 0 \<in> set (col_rows [0, 1, 2] [0, 1, 0, 0, 0, 0] 0) \<and>
   int 0 \<in> set (col_rows [0, 1, 2] [0, 1] 0)"
proof -
  have r: "get_pattern_A_plus_AT [0, 1, 2] [0, 1] 2 = ([0, 1, 2], [0, 1, 0, 0, 0, 0])"
    by code_simp
  have a: "int 0 \<in> set (col_rows [0, 1, 2] [0, 1] 0)"
    by (simp add: col_rows_def col_range_def)
  from pattern_union_keeps_diagonal[OF wf_eye2 _ r, of 0] a wf_eye2 r
  show ?thesis by simp
qed

section \<open>Column grouper: the claims\<close>

lemma rowset_disjoint_col_rows:
  assumes "rowset Bp Bi i \<inter> rowset Bp Bi j = {}"
  shows "set (col_rows Bp Bi i) \<inter> set (col_rows Bp Bi j) = {}"
proof (rule ccontr)
  assume "set (col_rows Bp Bi i) \<inter> set (col_rows Bp Bi j) \<noteq> {}"
  then obtain v where "v \<in> set (col_rows Bp Bi i)" "v \<in> set (col_rows Bp Bi j)" by auto
  then have "nat v \<in> rowset Bp Bi i" "nat v \<in> rowset Bp Bi j"
    by (auto simp: col_rows_def rowset_def)
  with assms show False by auto
qed

lemma column_grouping_either_inv:
  assumes wf: "wf_pattern (mat_ncols G) (mat_Ap G) (mat_Ai G)"
    and lc: "length col_g = mat_ncols G" and lf: "length filled = mat_ncols G"
    and res: "res = column_grouping G col_g filled \<or> res = column_grouping2 G col_g filled"
  shows "cg_inv (mat_ncols G) (mat_Ap G) (mat_Ai G) (mat_ncols G) (fst res) (fst (snd res))"
proof -
  obtain r cg f where one: "column_grouping G col_g filled = (r, cg, f)"
    using prod_cases3 by blast
  from column_grouping_inv[OF wf lc lf one]
  have inv: "cg_inv (mat_ncols G) (mat_Ap G) (mat_Ai G) (mat_ncols G) r cg" .
  from column_grouping2_eq[OF wf lc lf] one
  have "fst (column_grouping2 G col_g filled) = r" "fst (snd (column_grouping2 G col_g filled)) = cg"
    by simp_all
  with res one inv show ?thesis by auto
qed

lemma wf_G_four: "wf_pattern (mat_ncols G_four) (mat_Ap G_four) (mat_Ai G_four)"
  by (simp add: wf_pattern_def G_four_def less_Suc_eq numeral_nat) 

text \<open>
  Claim C7, as stated: \<^verbatim>\<open>column_grouping\<close> returns the number of groups it created.
  On the 1x1 pattern with one entry the code creates one group (group number 0) and
  returns 0: the return value is the last group number, not the number of groups.
\<close>

theorem column_grouping_count_counterexample:
  "fst (column_grouping G_one [7] [7]) = 0 \<and>
   fst (snd (column_grouping G_one [7] [7])) = [0] \<and>
   card (set (fst (snd (column_grouping G_one [7] [7])))) = 1"
  by (simp add: column_grouping_def G_one_def reset_col_g_def group_from_def reset_filled_def
      col_range_def fill_col_def)

text \<open>
  Claim C7, amended: on every well-formed square pattern \<^verbatim>\<open>column_grouping\<close> (and
  \<^verbatim>\<open>column_grouping2\<close>) returns the highest group number it used, which is the number
  of groups minus one (\<open>-1\<close> when there is no column); every column holds exactly one
  group number between 0 and the returned value, and every group number in that range
  is held by some column.
\<close>

theorem column_grouping_returns_last_group:
  assumes wf: "wf_pattern (mat_ncols G) (mat_Ap G) (mat_Ai G)"
    and lc: "length col_g = mat_ncols G" and lf: "length filled = mat_ncols G"
    and res: "res = column_grouping G col_g filled \<or> res = column_grouping2 G col_g filled"
  shows "(\<forall>i<mat_ncols G. 0 \<le> fst (snd res) ! i \<and> fst (snd res) ! i \<le> fst res) \<and>
         (\<forall>g. 0 \<le> g \<and> g \<le> fst res \<longrightarrow> (\<exists>i<mat_ncols G. fst (snd res) ! i = g)) \<and>
         int (card (set (fst (snd res)))) = fst res + 1"
proof -
  let ?n = "mat_ncols G" and ?r = "fst res" and ?cg = "fst (snd res)"
  from column_grouping_either_inv[OF wf lc lf res]
  have inv: "cg_inv ?n (mat_Ap G) (mat_Ai G) ?n ?r ?cg" .
  then have len: "length ?cg = ?n" and r: "- 1 \<le> ?r"
    and rng: "\<And>j. j < ?n \<Longrightarrow> - 1 \<le> ?cg ! j \<and> ?cg ! j \<le> ?r"
    and all: "\<And>j. j < ?n \<Longrightarrow> ?cg ! j \<noteq> - 1"
    and ne: "\<And>v. 0 \<le> v \<Longrightarrow> v \<le> ?r \<Longrightarrow> \<exists>j<?n. ?cg ! j = v"
    by (auto simp: cg_inv_def)
  have a: "\<forall>i<?n. 0 \<le> ?cg ! i \<and> ?cg ! i \<le> ?r"
  proof (intro allI impI)
    fix i assume i: "i < ?n"
    from rng[OF i] all[OF i] show "0 \<le> ?cg ! i \<and> ?cg ! i \<le> ?r" by linarith
  qed
  have "set ?cg = {0 .. ?r}"
  proof (intro equalityI subsetI)
    fix v assume "v \<in> set ?cg"
    then obtain i where "i < ?n" "?cg ! i = v" using len by (auto simp: in_set_conv_nth)
    with a show "v \<in> {0 .. ?r}" by auto
  next
    fix v assume "v \<in> {0 .. ?r}"
    then obtain j where "j < ?n" "?cg ! j = v" using ne[of v] by auto
    then show "v \<in> set ?cg" using len by (auto simp: in_set_conv_nth)
  qed
  then have "int (card (set ?cg)) = ?r + 1" using r by simp
  with a ne show ?thesis by blast
qed

theorem column_grouping_returns_last_group_witness:
  "wf_pattern (mat_ncols G_four) (mat_Ap G_four) (mat_Ai G_four) \<and>
   column_grouping G_four [7, 7, 7, 7] [7, 7, 7, 7] = (1, [0, 0, 1, 1], [1, 1, 0, 1]) \<and>
   int (card (set [0, 0, 1, 1 :: int])) = 1 + 1"
proof -
  have r: "column_grouping G_four [7, 7, 7, 7] [7, 7, 7, 7] = (1, [0, 0, 1, 1], [1, 1, 0, 1])"
    by code_simp
  have "(1, [0, 0, 1, 1], [1, 1, 0, 1]) = column_grouping G_four [7, 7, 7, 7] [7, 7, 7, 7] \<or>
        (1, [0, 0, 1, 1], [1, 1, 0, 1]) = column_grouping2 G_four [7, 7, 7, 7] [7, 7, 7, 7]"
    using r by simp
  from column_grouping_returns_last_group[OF wf_G_four _ _ this] wf_G_four r
  show ?thesis by (simp add: G_four_def)
qed

text \<open>
  Claim C8: after \<^verbatim>\<open>column_grouping\<close> or \<^verbatim>\<open>column_grouping2\<close> on a well-formed square
  pattern (row indices below the number of columns, \<^verbatim>\<open>col_g\<close> and \<^verbatim>\<open>filled\<close> of that
  length), every column holds a group number (no \<open>-1\<close> is left), and two distinct
  columns with the same group number have disjoint sets of row indices.
\<close>

theorem column_grouping_conflict_free:
  assumes wf: "wf_pattern (mat_ncols G) (mat_Ap G) (mat_Ai G)"
    and lc: "length col_g = mat_ncols G" and lf: "length filled = mat_ncols G"
    and res: "res = column_grouping G col_g filled \<or> res = column_grouping2 G col_g filled"
  shows "(\<forall>i<mat_ncols G. 0 \<le> fst (snd res) ! i) \<and>
         (\<forall>i<mat_ncols G. \<forall>j<mat_ncols G. i \<noteq> j \<and> fst (snd res) ! i = fst (snd res) ! j \<longrightarrow>
            set (col_rows (mat_Ap G) (mat_Ai G) i) \<inter> set (col_rows (mat_Ap G) (mat_Ai G) j) = {})"
proof -
  let ?n = "mat_ncols G" and ?cg = "fst (snd res)"
  from column_grouping_either_inv[OF wf lc lf res]
  have inv: "cg_inv ?n (mat_Ap G) (mat_Ai G) ?n (fst res) ?cg" .
  then have rng: "\<And>j. j < ?n \<Longrightarrow> - 1 \<le> ?cg ! j"
    and all: "\<And>j. j < ?n \<Longrightarrow> ?cg ! j \<noteq> - 1"
    and dj: "\<And>i j. i < ?n \<Longrightarrow> j < ?n \<Longrightarrow> i \<noteq> j \<Longrightarrow> ?cg ! i = ?cg ! j \<Longrightarrow> ?cg ! i \<noteq> - 1
               \<Longrightarrow> rowset (mat_Ap G) (mat_Ai G) i \<inter> rowset (mat_Ap G) (mat_Ai G) j = {}"
    by (auto simp: cg_inv_def)
  have a: "\<forall>i<?n. 0 \<le> ?cg ! i"
  proof (intro allI impI)
    fix i assume i: "i < ?n"
    from rng[OF i] all[OF i] show "0 \<le> ?cg ! i" by linarith
  qed
  have b: "set (col_rows (mat_Ap G) (mat_Ai G) i) \<inter> set (col_rows (mat_Ap G) (mat_Ai G) j) = {}"
    if "i < ?n" "j < ?n" "i \<noteq> j" "?cg ! i = ?cg ! j" for i j
    using dj[OF that] all[OF that(1)] by (intro rowset_disjoint_col_rows) simp
  from a b show ?thesis by blast
qed

theorem column_grouping_conflict_free_witness:
  "wf_pattern (mat_ncols G_four) (mat_Ap G_four) (mat_Ai G_four) \<and>
   fst (snd (column_grouping2 G_four [7, 7, 7, 7] [7, 7, 7, 7])) = [0, 0, 1, 1] \<and>
   set (col_rows (mat_Ap G_four) (mat_Ai G_four) 0) \<inter> set (col_rows (mat_Ap G_four) (mat_Ai G_four) 1) = {} \<and>
   set (col_rows (mat_Ap G_four) (mat_Ai G_four) 2) \<inter> set (col_rows (mat_Ap G_four) (mat_Ai G_four) 3) = {}"
proof -
  have r: "fst (snd (column_grouping2 G_four [7, 7, 7, 7] [7, 7, 7, 7])) = [0, 0, 1, 1]"
    by code_simp
  have n: "mat_ncols G_four = 4" by (simp add: G_four_def)
  from column_grouping_conflict_free[OF wf_G_four, of "[7, 7, 7, 7]" "[7, 7, 7, 7]"
      "column_grouping2 G_four [7, 7, 7, 7] [7, 7, 7, 7]"]
  have "\<forall>i<4. \<forall>j<4. i \<noteq> j \<and> [0, 0, 1, 1 :: int] ! i = [0, 0, 1, 1] ! j \<longrightarrow>
            set (col_rows (mat_Ap G_four) (mat_Ai G_four) i) \<inter> set (col_rows (mat_Ap G_four) (mat_Ai G_four) j) = {}"
    by (simp add: n r)
  from this[rule_format, of 0 1] this[rule_format, of 2 3] wf_G_four r
  show ?thesis by simp
qed

text \<open>
  Claim C9: on every well-formed square pattern \<^verbatim>\<open>column_grouping\<close> and
  \<^verbatim>\<open>column_grouping2\<close> return the same value and leave the same group assignment in
  \<^verbatim>\<open>col_g\<close>. (The scratch array \<^verbatim>\<open>filled\<close> may end differently: \<^verbatim>\<open>column_grouping2\<close>
  clears it once more before it finds no column left.)
\<close>

theorem column_grouping_variants_agree:
  assumes "wf_pattern (mat_ncols G) (mat_Ap G) (mat_Ai G)"
    and "length col_g = mat_ncols G" and "length filled = mat_ncols G"
  shows "fst (column_grouping2 G col_g filled) = fst (column_grouping G col_g filled) \<and>
         fst (snd (column_grouping2 G col_g filled)) = fst (snd (column_grouping G col_g filled))"
  using assms by (rule column_grouping2_eq)

theorem column_grouping_variants_agree_witness:
  "wf_pattern (mat_ncols G_four) (mat_Ap G_four) (mat_Ai G_four) \<and>
   length [7, 7, 7, 7 :: int] = mat_ncols G_four \<and>
   fst (column_grouping2 G_four [7, 7, 7, 7] [7, 7, 7, 7]) = 1 \<and>
   fst (column_grouping G_four [7, 7, 7, 7] [7, 7, 7, 7]) = 1 \<and>
   fst (snd (column_grouping2 G_four [7, 7, 7, 7] [7, 7, 7, 7]))
     = fst (snd (column_grouping G_four [7, 7, 7, 7] [7, 7, 7, 7]))"
proof -
  have n: "length [7, 7, 7, 7 :: int] = mat_ncols G_four" by (simp add: G_four_def)
  have r: "fst (column_grouping G_four [7, 7, 7, 7] [7, 7, 7, 7]) = 1" by code_simp
  from column_grouping_variants_agree[OF wf_G_four n n] wf_G_four n r
  show ?thesis by simp
qed

section \<open>LU factorization: the claims\<close>

lemma wf_A_three: "wf_mat 3 A_three"
  by (simp add: wf_mat_def wf_pattern_def A_three_def less_Suc_eq numeral_nat)

lemma wf_A_zero_col: "wf_mat 2 A_zero_col"
  by (simp add: wf_mat_def wf_pattern_def A_zero_col_def less_Suc_eq numeral_nat)

lemma fresh_num_sized: "num_sized n (fresh_num n)"
  by (simp add: num_sized_def fresh_num_def)

lemma run_A_three: "sp_ludcmp 3 (fresh_num 3) A_three (1 / 1000) = Some (SUCCESS, N_three_done)"
  by code_simp

lemma run_A_zero_col: "sp_ludcmp 2 (fresh_num 2) A_zero_col (1 / 1000) = Some (FAILURE, N_zero_col_failed)"
  by code_simp

lemma wf_A_dbl: "wf_mat 2 A_nan" "wf_mat 2 A_zeros" "wf_mat 2 A_tenth"
  by (simp_all add: wf_mat_def wf_pattern_def A_nan_def A_zeros_def A_tenth_def less_Suc_eq numeral_nat)

lemma fresh_dbl_sized: "num_sized n (fresh_dbl n)"
  by (simp add: num_sized_def fresh_dbl_def)

text \<open>
  Claim C1, as stated: \<^verbatim>\<open>sp_ludcmp\<close> fails at step \<open>k\<close> exactly when no candidate row exists
  or the largest candidate magnitude is non-positive. On \<^verbatim>\<open>double\<close> a candidate whose
  value is a NaN is never taken (\<^verbatim>\<open>t > a\<close> is false), and its magnitude is not
  non-positive either. For the matrix with columns \<open>(0, 1)\<close> and \<open>(0, 3)\<close> and \<^verbatim>\<open>pivtol\<close> 0,
  step 0 takes the zero on the diagonal as pivot and stores \<open>1 / 0 = +Inf\<close> in \<open>L\<close>; at
  step 1 the triangular solve gives \<open>3 - Inf * 0\<close>, a NaN, in row 1, the only candidate,
  and \<^verbatim>\<open>sp_ludcmp\<close> returns \<open>FAILURE\<close>.
\<close>

theorem sp_ludcmp_nan_counterexample:
  "sp_ludcmp 2 (fresh_dbl 2) A_nan 0 = Some (FAILURE, N_nan_failed) \<and>
   ludcmp_loop 2 2 [0 ..< 1] A_nan 0 (ludcmp_init 2 (fresh_dbl 2)) 0 0 = Some (SUCCESS, N_nan_step0, 2, 1) \<and>
   ludcmp_step 2 2 1 A_nan 0 N_nan_step0 2 1 = Some (FAILURE, N_nan_failed, 2, 2) \<and>
   ludcmp_solve 2 1 A_nan N_nan_step0 2 1 = Some (N_nan_solved, 0) \<and>
   candidates 2 0 (num_xi N_nan_solved ! 1) (num_pinv N_nan_solved) = [1] \<and>
   \<bar>num_w N_nan_solved ! 1\<bar> = NaN \<and> \<not> NaN \<le> (0::dbl)"
proof -
  have a: "sp_ludcmp 2 (fresh_dbl 2) A_nan 0 = Some (FAILURE, N_nan_failed)" by code_simp
  have b: "ludcmp_loop 2 2 [0 ..< 1] A_nan 0 (ludcmp_init 2 (fresh_dbl 2)) 0 0
             = Some (SUCCESS, N_nan_step0, 2, 1)" by code_simp
  have c: "ludcmp_step 2 2 1 A_nan 0 N_nan_step0 2 1 = Some (FAILURE, N_nan_failed, 2, 2)"
    by code_simp
  have d: "ludcmp_solve 2 1 A_nan N_nan_step0 2 1 = Some (N_nan_solved, 0)" by code_simp
  have e: "candidates 2 0 (num_xi N_nan_solved ! 1) (num_pinv N_nan_solved) = [1]" by code_simp
  have f: "\<bar>num_w N_nan_solved ! 1\<bar> = NaN" by code_simp
  have g: "\<not> NaN \<le> (0::dbl)" by (simp add: less_eq_dbl_def)
  show ?thesis using a b c d e f g by blast
qed

text \<open>
  Claim C1, amended: for a well-formed square matrix \<open>A\<close>, a context of the allocated
  sizes and any scalar arithmetic with the properties \<open>fp_order\<close> and \<open>fp_zero_closed\<close>
  (\<^verbatim>\<open>double\<close> and every ordered field have them), with enough fuel for the searches
  (\<open>n \<le> fuel\<close>):
  \<^item> if the column handled at some step \<open>k\<close> (column \<open>q[k]\<close>, or \<open>k\<close> when \<open>q\<close> is null) is
    all-zero, structurally empty or with values \<open>0\<close> or \<open>-0\<close> only, then \<^verbatim>\<open>sp_ludcmp\<close>
    returns \<open>FAILURE\<close> (so it does not return \<open>SUCCESS\<close>);
  \<^item> \<^verbatim>\<open>sp_ludcmp\<close> returns \<open>FAILURE\<close> exactly when there is a step \<open>k\<close>, reached after
    \<open>k\<close> successful steps, at which after the triangular solve no candidate row
    (reachable, not yet pivoted) has a magnitude above zero: there is no candidate, or
    the magnitude of every candidate is zero or a NaN.
\<close>

theorem sp_ludcmp_failure:
  fixes N :: "('a::{zero,one,uminus,minus,times,inverse,abs,ord}) sp_num"
  assumes "fp_order TYPE('a)" and "fp_zero_closed TYPE('a)"
    and "wf_mat n A" and "num_sized n N" and "n \<le> fuel"
  shows "((\<exists>k<n. zero_col A (nat (lu_col (num_q N) k))) \<longrightarrow>
            (\<exists>N'. sp_ludcmp fuel N A pivtol = Some (FAILURE, N'))) \<and>
         ((\<exists>N'. sp_ludcmp fuel N A pivtol = Some (FAILURE, N')) \<longleftrightarrow>
            (\<exists>k<n. \<exists>Nk lnz unz N1 tp.
               ludcmp_loop fuel n [0 ..< k] A pivtol (ludcmp_init n N) 0 0 = Some (SUCCESS, Nk, lnz, unz) \<and>
               ludcmp_solve fuel k A Nk lnz unz = Some (N1, tp) \<and> no_pivot n k tp N1))"
  using sp_ludcmp_zero_col_fails[OF assms] sp_ludcmp_failure_iff[OF assms(1,3,4,5)] by blast

theorem sp_ludcmp_failure_witness:
  "fp_order TYPE(dbl) \<and> fp_zero_closed TYPE(dbl) \<and>
   wf_mat 2 A_zeros \<and> num_sized 2 (fresh_dbl 2) \<and> (2::nat) \<le> 2 \<and>
   zero_col A_zeros (nat (lu_col (num_q (fresh_dbl 2)) 1)) \<and>
   (\<exists>N'. sp_ludcmp 2 (fresh_dbl 2) A_zeros 1 = Some (FAILURE, N'))"
proof -
  have z: "zero_col A_zeros (nat (lu_col (num_q (fresh_dbl 2)) 1))"
    by (simp add: zero_col_def fresh_dbl_def lu_col_def A_zeros_def col_range_def
          zero_dbl_def uminus_dbl_def)
  then have "\<exists>k<2. zero_col A_zeros (nat (lu_col (num_q (fresh_dbl 2)) k))"
    by (intro exI[of _ 1]) simp
  with sp_ludcmp_failure[OF fp_order_dbl fp_zero_closed_dbl wf_A_dbl(2) fresh_dbl_sized order_refl, of 1]
  have "\<exists>N'. sp_ludcmp 2 (fresh_dbl 2) A_zeros 1 = Some (FAILURE, N')" by blast
  then show ?thesis
    using fp_order_dbl fp_zero_closed_dbl wf_A_dbl(2) fresh_dbl_sized[of 2] z by simp
qed

text \<open>
  Claim C2, as stated: on failure \<^verbatim>\<open>topvec\<close> and \<^verbatim>\<open>p\<close> are as they were at entry. For
  the \<open>2\<times>2\<close> matrix with an empty second column, step 0 succeeds and writes
  \<^verbatim>\<open>topvec[0]\<close> and \<^verbatim>\<open>p[0]\<close>, step 1 writes \<^verbatim>\<open>topvec[1]\<close> and then fails: both arrays have
  changed when \<open>FAILURE\<close> is returned.
\<close>

theorem sp_ludcmp_failure_mutates_counterexample:
  "sp_ludcmp 2 (fresh_num 2) A_zero_col (1 / 1000) = Some (FAILURE, N_zero_col_failed) \<and>
   num_topvec (fresh_num 2) = [7, 7] \<and> num_topvec N_zero_col_failed = [1, 2] \<and>
   num_p (fresh_num 2) = [7, 7] \<and> num_p N_zero_col_failed = [0, 7]"
proof -
  have "sp_ludcmp 2 (fresh_num 2) A_zero_col (1 / 1000) = Some (FAILURE, N_zero_col_failed)"
    by code_simp
  then show ?thesis
    by (simp add: fresh_num_def N_zero_col_failed_def numeral_2_eq_2)
qed

text \<open>
  Claim C2, amended: if \<^verbatim>\<open>sp_ludcmp\<close> returns \<open>FAILURE\<close> (on a well-formed square matrix
  and a context of the allocated sizes), then there is a step \<open>k\<close> such that the steps
  \<open>0..k-1\<close> succeeded and step \<open>k\<close> failed, leaving the returned context, and in that
  context
  \<^item> the entries of \<^verbatim>\<open>topvec\<close> after index \<open>k\<close> and the entries of \<^verbatim>\<open>p\<close> from index \<open>k\<close> on
    are as they were at entry;
  \<^item> \<^verbatim>\<open>topvec[k]\<close> is the \<^verbatim>\<open>top\<close> the failing step found; and
  \<^item> for every \<open>j < k\<close>, \<^verbatim>\<open>p[j]\<close> and \<^verbatim>\<open>topvec[j]\<close> are the values step \<open>j\<close> wrote (those
    the context holds after the steps \<open>0..j\<close>), \<^verbatim>\<open>p[j]\<close> a row number.
\<close>

theorem sp_ludcmp_failure_frame:
  assumes "wf_mat n A" and "num_sized n N"
    and "sp_ludcmp fuel N A pivtol = Some (FAILURE, N')"
  shows "\<exists>k<n. \<exists>Nk lnz unz lnz' unz' N1 tp.
           ludcmp_loop fuel n [0 ..< k] A pivtol (ludcmp_init n N) 0 0 = Some (SUCCESS, Nk, lnz, unz) \<and>
           ludcmp_step fuel n k A pivtol Nk lnz unz = Some (FAILURE, N', lnz', unz') \<and>
           ludcmp_solve fuel k A Nk lnz unz = Some (N1, tp) \<and> num_topvec N' ! k = tp \<and>
           drop (Suc k) (num_topvec N') = drop (Suc k) (num_topvec N) \<and>
           drop k (num_p N') = drop k (num_p N) \<and>
           (\<forall>j<k. \<exists>Nj lj uj.
              ludcmp_loop fuel n [0 ..< Suc j] A pivtol (ludcmp_init n N) 0 0 = Some (SUCCESS, Nj, lj, uj) \<and>
              num_p N' ! j = num_p Nj ! j \<and> num_topvec N' ! j = num_topvec Nj ! j \<and>
              0 \<le> num_p N' ! j \<and> num_p N' ! j < int n)"
  using assms by (rule sp_ludcmp_failure_frame_aux)

theorem sp_ludcmp_failure_frame_witness:
  "wf_mat 2 A_zero_col \<and> num_sized 2 (fresh_num 2) \<and>
   sp_ludcmp 2 (fresh_num 2) A_zero_col (1 / 1000) = Some (FAILURE, N_zero_col_failed) \<and>
   (\<exists>k<2. \<exists>Nk lnz unz lnz' unz' N1 tp.
      ludcmp_loop 2 2 [0 ..< k] A_zero_col (1 / 1000) (ludcmp_init 2 (fresh_num 2)) 0 0
        = Some (SUCCESS, Nk, lnz, unz) \<and>
      ludcmp_step 2 2 k A_zero_col (1 / 1000) Nk lnz unz = Some (FAILURE, N_zero_col_failed, lnz', unz') \<and>
      ludcmp_solve 2 k A_zero_col Nk lnz unz = Some (N1, tp) \<and> num_topvec N_zero_col_failed ! k = tp \<and>
      drop (Suc k) (num_topvec N_zero_col_failed) = drop (Suc k) (num_topvec (fresh_num 2)) \<and>
      drop k (num_p N_zero_col_failed) = drop k (num_p (fresh_num 2)) \<and>
      (\<forall>j<k. \<exists>Nj lj uj.
         ludcmp_loop 2 2 [0 ..< Suc j] A_zero_col (1 / 1000) (ludcmp_init 2 (fresh_num 2)) 0 0
           = Some (SUCCESS, Nj, lj, uj) \<and>
         num_p N_zero_col_failed ! j = num_p Nj ! j \<and>
         num_topvec N_zero_col_failed ! j = num_topvec Nj ! j \<and>
         0 \<le> num_p N_zero_col_failed ! j \<and> num_p N_zero_col_failed ! j < int 2))"
proof -
  note t = sp_ludcmp_failure_frame[OF wf_A_zero_col fresh_num_sized run_A_zero_col]
  show ?thesis
    by (intro conjI) (rule wf_A_zero_col, rule fresh_num_sized, rule run_A_zero_col, rule t)
qed

text \<open>
  Claim C3: at a step \<open>k\<close> that succeeds, with \<open>x\<close> the result of the triangular solve,
  there is a candidate \<open>ipiv0\<close> (a row of the reach that is not pivoted yet) of positive
  magnitude such that no candidate has a larger magnitude (every candidate whose
  magnitude is comparable, that is not a NaN, has one that is at most \<open>|x[ipiv0]|\<close>), and
  the pivot row recorded in \<^verbatim>\<open>p[k]\<close> is \<open>col\<close> (\<open>q[k]\<close>, or \<open>k\<close>) when \<open>col\<close> is not pivoted
  yet and \<open>|x[col]| \<ge> |x[ipiv0]| * pivtol\<close>, and \<open>ipiv0\<close> otherwise. The product and the
  comparisons are those of the scalar type, of which only \<open>fp_order\<close> is assumed: on
  \<^verbatim>\<open>double\<close> the product is rounded.
\<close>

theorem ludcmp_pivot_choice:
  fixes N :: "('a::{zero,one,uminus,minus,times,inverse,abs,ord}) sp_num"
  assumes "fp_order TYPE('a)"
    and "ludcmp_solve fuel k A N lnz unz = Some (N1, tp)"
    and "ludcmp_step fuel n k A pivtol N lnz unz = Some (SUCCESS, N2, lnz2, unz2)"
    and "k < length (num_p N)"
  shows "\<exists>ipiv0. ipiv0 \<in> set (candidates n tp (num_xi N1 ! k) (num_pinv N1)) \<and>
           0 < \<bar>num_w N1 ! nat ipiv0\<bar> \<and>
           list_all (\<lambda>i. \<not> \<bar>num_w N1 ! nat ipiv0\<bar> < \<bar>num_w N1 ! nat i\<bar>)
             (candidates n tp (num_xi N1 ! k) (num_pinv N1)) \<and>
           list_all (\<lambda>i. \<bar>num_w N1 ! nat i\<bar> \<le> \<bar>num_w N1 ! nat i\<bar> \<longrightarrow>
                        \<bar>num_w N1 ! nat i\<bar> \<le> \<bar>num_w N1 ! nat ipiv0\<bar>)
             (candidates n tp (num_xi N1 ! k) (num_pinv N1)) \<and>
           num_p N2 ! k =
             (if num_pinv N1 ! nat (lu_col (num_q N) k) < 0 \<and>
                 \<bar>num_w N1 ! nat (lu_col (num_q N) k)\<bar> \<ge> \<bar>num_w N1 ! nat ipiv0\<bar> * pivtol
              then lu_col (num_q N) k else ipiv0)"
  using assms by (rule ludcmp_pivot_choice_aux)

text \<open>An instance: the matrix with first column \<open>(1, 10)\<close> and \<^verbatim>\<open>pivtol\<close> the
  \<^verbatim>\<open>double\<close> nearest to \<open>0.1\<close>, which is above \<open>1/10\<close>: the rounded product \<open>10 * pivtol\<close> is
  1, so the diagonal row 0 is kept, where the exact product would exceed 1.\<close>

theorem ludcmp_pivot_choice_witness:
  "fp_order TYPE(dbl) \<and>
   ludcmp_solve 2 0 A_tenth (ludcmp_init 2 (fresh_dbl 2)) 0 0 = Some (N_tenth_solved, 0) \<and>
   ludcmp_step 2 2 0 A_tenth (dbl_of_rat (1 / 10)) (ludcmp_init 2 (fresh_dbl 2)) 0 0
     = Some (SUCCESS, N_tenth_step0, 2, 1) \<and>
   0 < length (num_p (ludcmp_init 2 (fresh_dbl 2))) \<and>
   candidates 2 0 (num_xi N_tenth_solved ! 0) (num_pinv N_tenth_solved) = [1, 0] \<and>
   num_w N_tenth_solved = [Fin False 1, Fin False 10] \<and>
   Fin False 10 * dbl_of_rat (1 / 10) = Fin False 1 \<and>
   num_p N_tenth_step0 ! 0 = 0 \<and>
   (\<exists>ipiv0. ipiv0 \<in> set (candidates 2 0 (num_xi N_tenth_solved ! 0) (num_pinv N_tenth_solved)) \<and>
      num_p N_tenth_step0 ! 0 =
        (if num_pinv N_tenth_solved ! nat (lu_col (num_q (ludcmp_init 2 (fresh_dbl 2))) 0) < 0 \<and>
            \<bar>num_w N_tenth_solved ! nat (lu_col (num_q (ludcmp_init 2 (fresh_dbl 2))) 0)\<bar>
              \<ge> \<bar>num_w N_tenth_solved ! nat ipiv0\<bar> * dbl_of_rat (1 / 10)
         then lu_col (num_q (ludcmp_init 2 (fresh_dbl 2))) 0 else ipiv0))"
proof -
  have s: "ludcmp_solve 2 0 A_tenth (ludcmp_init 2 (fresh_dbl 2)) 0 0 = Some (N_tenth_solved, 0)"
    by code_simp
  have t: "ludcmp_step 2 2 0 A_tenth (dbl_of_rat (1 / 10)) (ludcmp_init 2 (fresh_dbl 2)) 0 0
             = Some (SUCCESS, N_tenth_step0, 2, 1)"
    by code_simp
  have l: "0 < length (num_p (ludcmp_init 2 (fresh_dbl 2)))"
    by (simp add: ludcmp_init_def fresh_dbl_def)
  have c: "candidates 2 0 (num_xi N_tenth_solved ! 0) (num_pinv N_tenth_solved) = [1, 0]"
    by code_simp
  have w: "num_w N_tenth_solved = [Fin False 1, Fin False 10]"
    by (simp add: N_tenth_solved_def dbl_ctx_def)
  have m: "Fin False 10 * dbl_of_rat (1 / 10) = Fin False 1" by code_simp
  have p: "num_p N_tenth_step0 ! 0 = 0" by (simp add: N_tenth_step0_def dbl_ctx_def)
  from ludcmp_pivot_choice[OF fp_order_dbl s t l] show ?thesis
    using fp_order_dbl s t l c w m p by blast
qed

text \<open>
  Claim C4: after a call of \<^verbatim>\<open>sp_ludcmp\<close> that returns \<open>SUCCESS\<close> (on a well-formed
  square matrix and a context of the allocated sizes), \<^verbatim>\<open>p\<close> and \<^verbatim>\<open>pinv\<close> are
  permutations of \<open>0..n-1\<close> and inverse to each other: \<open>p[pinv[i]] = i\<close> and
  \<open>pinv[p[i]] = i\<close> for every \<open>i < n\<close>.
\<close>

theorem sp_ludcmp_permutation_inverse:
  assumes wf: "wf_mat n A" and sz: "num_sized n N"
    and run: "sp_ludcmp fuel N A pivtol = Some (SUCCESS, N')"
  shows "length (num_p N') = n \<and> length (num_pinv N') = n \<and>
         (\<forall>i<n. 0 \<le> num_pinv N' ! i \<and> num_pinv N' ! i < int n \<and>
                 num_p N' ! nat (num_pinv N' ! i) = int i \<and>
                 0 \<le> num_p N' ! i \<and> num_p N' ! i < int n \<and>
                 num_pinv N' ! nat (num_p N' ! i) = int i)"
proof -
  have "sp_ludcmp (max fuel n) N A pivtol = Some (SUCCESS, N')"
    by (rule sp_ludcmp_fuel_mono[OF run]) simp
  moreover from sp_ludcmp_total[OF wf sz, of "max fuel n" pivtol]
  obtain st N'' where "sp_ludcmp (max fuel n) N A pivtol = Some (st, N'')"
    and "st = SUCCESS \<longrightarrow> pinv_p_inv n n (num_pinv N'') (num_p N'')" by auto
  ultimately have inv: "pinv_p_inv n n (num_pinv N') (num_p N')" by simp
  then have "length (num_p N') = n" "length (num_pinv N') = n" by (simp_all add: pinv_p_inv_def)
  then show ?thesis using pinv_p_full[OF inv] by blast
qed

theorem sp_ludcmp_permutation_inverse_witness:
  "wf_mat 3 A_three \<and> num_sized 3 (fresh_num 3) \<and>
   sp_ludcmp 3 (fresh_num 3) A_three (1 / 1000) = Some (SUCCESS, N_three_done) \<and>
   num_p N_three_done = [1, 2, 0] \<and> num_pinv N_three_done = [2, 0, 1] \<and>
   num_p N_three_done ! nat (num_pinv N_three_done ! 0) = 0 \<and>
   num_p N_three_done ! nat (num_pinv N_three_done ! 1) = 1 \<and>
   num_p N_three_done ! nat (num_pinv N_three_done ! 2) = 2"
proof -
  from sp_ludcmp_permutation_inverse[OF wf_A_three fresh_num_sized run_A_three]
  have "\<forall>i<3. num_p N_three_done ! nat (num_pinv N_three_done ! i) = int i" by simp
  from this[rule_format, of 0] this[rule_format, of 1] this[rule_format, of 2]
  show ?thesis
    using wf_A_three fresh_num_sized[of 3] run_A_three by (simp add: N_three_done_def)
qed

text \<open>Enough fuel always gives a result: the model of \<^verbatim>\<open>sp_ludcmp\<close> is total on
  well-formed inputs once \<open>fuel\<close> reaches the dimension.\<close>

lemma sp_ludcmp_returns:
  assumes "wf_mat n A" and "num_sized n N" and "n \<le> fuel"
  shows "\<exists>st N'. sp_ludcmp fuel N A pivtol = Some (st, N')"
  using sp_ludcmp_total[OF assms] by blast


section \<open>Refactorization: the claim\<close>






end
